(* ===== verification/Prelude.thy ===== *)
theory Prelude
  imports Main "HOL-Library.Word" "HOL-Library.Char_ord" "HOL-Library.List_Lexorder"
begin

text \<open>
  What every component shares: the machine integers of the Go code, byte slices with the
  little-endian accessors of \<open>encoding/binary\<close>, and the generic list lemmas.

  A Go \<open>[]byte\<close> is a \<open>byte list\<close>; a Go \<open>string\<close> is a HOL \<open>string\<close> (HOL's \<open>char\<close> has exactly
  256 values, so a HOL string is a sequence of bytes, as a Go string is). Memory shared
  with another process is a \<open>byte list\<close> that the operations read and return updated.
\<close>

unbundle bit_operations_syntax

type_synonym byte = "8 word"
type_synonym u16 = "16 word"
type_synonym u32 = "32 word"
type_synonym u64 = "64 word"
type_synonym mem = "byte list"

named_theorems mem_simps \<open>reads of a memory after a write, and lengths of memories\<close>
named_theorems le_simps \<open>little-endian round trips\<close>

section \<open>The errors of the bus package\<close>

text \<open>
  The package-level error values of \<open>server-go/bus\<close>. \<open>ErrSyscall\<close> is an error of the
  operating system, with its number; \<open>ErrModuleCallStatus\<close> is \<open>*ModuleCallStatusError\<close> with
  the status it carries; \<open>ErrContext\<close> is the error of an ended context.
\<close>

datatype bus_error = ErrRingLayout | ErrRegion | ErrDenied | ErrProtocol | ErrEpoch
  | ErrWouldBlock | ErrPayload | ErrModuleMessage | ErrModuleConfig | ErrModuleRuntime
  | ErrModuleCallDeadline | ErrModuleCallCancelled | ErrModuleCallStatus u16
  | ErrModuleCallCapabilityAbsent | ErrModuleCallRejected | ErrSyscall nat | ErrContext

section \<open>Machine integers\<close>

lemma add_wraps_iff: "x + y < x \<longleftrightarrow> 2 ^ LENGTH('a) \<le> unat x + unat (y :: 'a::len word)"
  using no_olen_add_nat [of x y] by (simp add: not_le [symmetric] not_less)

lemma unat_add_no_wrap:
  "unat x + unat (y :: 'a::len word) < 2 ^ LENGTH('a) \<Longrightarrow> unat (x + y) = unat x + unat y"
  by (simp add: unat_word_ariths)

lemma unat_of_nat_small: "n < 2 ^ LENGTH('a) \<Longrightarrow> unat (word_of_nat n :: 'a::len word) = n"
  by (simp add: unat_of_nat)

lemma unat_ucast_32_64 [simp]: "unat (ucast (x :: u32) :: u64) = unat x"
  using unsigned_less [of x, where ?'a = nat]
  by (simp add: unsigned_ucast_eq take_bit_nat_eq_self)

lemma sint_small: "uint (x :: u64) < 2 ^ 63 \<Longrightarrow> sint x = uint x"
proof -
  assume "uint x < 2 ^ 63"
  moreover have "- (2 ^ 63) \<le> uint x" by (rule order_trans [OF _ uint_ge_0]) simp
  ultimately have "signed_take_bit 63 (uint x) = uint x" by (intro signed_take_bit_int_eq_self)
  then show "sint x = uint x" by (simp add: sint_uint)
qed

text \<open>The power-of-two test \<open>v & (v-1) == 0\<close>, and indexing with \<open>i & (cap-1)\<close>.\<close>

lemma nat_pow2:
  "0 < n \<Longrightarrow> n AND (n - 1) = 0 \<Longrightarrow> \<exists>k. n = 2 ^ k" for n :: nat
proof (induction n rule: less_induct)
  case (less n)
  show ?case
  proof (cases "even n")
    case True
    then obtain m where m: "n = 2 * m" by blast
    with less.prems have "0 < m" by simp
    with m have d: "(n - 1) div 2 = m - 1" by simp
    have "n AND (n - 1) = 2 * (m AND (m - 1))"
      using True m d by (subst and_rec) simp
    with less.prems have "m AND (m - 1) = 0" by simp
    with less.IH [of m] \<open>0 < m\<close> m obtain k where "m = 2 ^ k" by auto
    with m have "n = 2 ^ Suc k" by simp
    then show ?thesis ..
  next
    case False
    then obtain m where m: "n = 2 * m + 1" by (blast elim: oddE)
    have "n AND (n - 1) = 2 * m"
      by (subst and_rec) (simp add: m)
    with less.prems m have "n = 2 ^ 0" by simp
    then show ?thesis ..
  qed
qed

lemma word_pow2:
  fixes w :: "'a::len word"
  assumes "w \<noteq> 0" and "w AND (w - 1) = 0"
  shows "\<exists>k < LENGTH('a). w = 2 ^ k"
proof -
  have u: "unat (w - 1) = unat w - 1"
    using assms(1) by (simp add: unat_minus_one)
  have "unat w AND (unat w - 1) = 0"
    using assms(2) by (metis u unsigned_and_eq unsigned_0)
  moreover have "0 < unat w" using assms(1) by (simp add: unat_gt_0)
  ultimately obtain k where k: "unat w = 2 ^ k" using nat_pow2 by blast
  have "2 ^ k < (2::nat) ^ LENGTH('a)" using unsigned_less [of w, where ?'a = nat] k by simp
  then have "k < LENGTH('a)" by simp
  moreover have "w = 2 ^ k"
  proof -
    have "w = word_of_nat (unat w)" by simp
    then show ?thesis by (simp only: k) simp
  qed
  ultimately show ?thesis by blast
qed

lemma unat_two_power: "k < LENGTH('a) \<Longrightarrow> unat (2 ^ k :: 'a::len word) = 2 ^ k"
proof -
  assume "k < LENGTH('a)"
  then have "unat (word_of_nat (2 ^ k) :: 'a word) = 2 ^ k" by (simp add: unat_of_nat del: of_nat_power)
  then show ?thesis by simp
qed

lemma and_mask_index:
  fixes idx :: u64 and cap :: u32
  assumes "cap = 2 ^ k" "k < 32"
  shows "unat (idx AND ucast (cap - 1)) = unat idx mod unat cap"
proof -
  have "(ucast (2 ^ k - 1 :: u32) :: u64) = mask k"
  proof (rule bit_word_eqI)
    fix n show "bit (ucast (2 ^ k - 1 :: u32) :: u64) n \<longleftrightarrow> bit (mask k :: u64) n" if "n < LENGTH(64)"
      using assms(2) by (auto simp: bit_simps mask_eq_exp_minus_1 [symmetric])
  qed
  then have "unat (idx AND ucast (cap - 1)) = unat (take_bit k idx)"
    by (simp add: assms take_bit_eq_mask)
  also have "\<dots> = unat idx mod 2 ^ k" by (simp only: unsigned_take_bit_eq) (simp add: take_bit_eq_mod)
  also have "2 ^ k = unat cap"
    using assms by (simp add: unat_two_power)
  finally show ?thesis .
qed
lemma mod_shift_inj:
  fixes x :: nat
  assumes "i < c" and "j < c" and "(x + i) mod c = (x + j) mod c"
  shows "i = j"
proof -
  have "c dvd (x + max i j) - (x + min i j)"
    using assms(3) by (subst mod_eq_dvd_iff_nat [symmetric]) (auto simp: max_def min_def)
  moreover have "(x + max i j) - (x + min i j) < c" using assms(1,2) by auto
  ultimately have "(x + max i j) - (x + min i j) = 0" using nat_dvd_not_less by blast
  then show ?thesis by (auto simp: max_def min_def split: if_splits)
qed

section \<open>Slices of a memory\<close>

definition slice :: "'a list \<Rightarrow> nat \<Rightarrow> nat \<Rightarrow> 'a list" where
  \<comment> \<open>\<open>m[off : off+n]\<close>\<close>
  "slice m off n = take n (drop off m)"

definition splice :: "'a list \<Rightarrow> nat \<Rightarrow> 'a list \<Rightarrow> 'a list" where
  \<comment> \<open>\<open>m\<close> after \<open>copy(m[off:], xs)\<close>, for \<open>xs\<close> that fits\<close>
  "splice m off xs = take off m @ xs @ drop (off + length xs) m"

lemma length_slice [mem_simps]: "off + n \<le> length m \<Longrightarrow> length (slice m off n) = n"
  by (simp add: slice_def)

lemma length_slice_min: "length (slice m off n) = min n (length m - off)"
  by (simp add: slice_def)

lemma slice_nth: "i < n \<Longrightarrow> off + n \<le> length m \<Longrightarrow> slice m off n ! i = m ! (off + i)"
  by (simp add: slice_def)

lemma length_splice [mem_simps]:
  "off + length xs \<le> length m \<Longrightarrow> length (splice m off xs) = length m"
  by (simp add: splice_def)

lemma nth_splice:
  assumes "off + length xs \<le> length m" and "i < length m"
  shows "splice m off xs ! i =
    (if off \<le> i \<and> i < off + length xs then xs ! (i - off) else m ! i)"
  using assms by (auto simp: splice_def nth_append min_def)

lemma slice_splice_same:
  "off + length xs \<le> length m \<Longrightarrow> length xs = n \<Longrightarrow> slice (splice m off xs) off n = xs"
  by (simp add: slice_def splice_def)

lemma slice_splice_disjoint:
  assumes "off + length xs \<le> length m"
    and "p + n \<le> off \<or> off + length xs \<le> p"
  shows "slice (splice m off xs) p n = slice m p n"
proof (rule nth_equalityI)
  show "length (slice (splice m off xs) p n) = length (slice m p n)"
    using assms(1) by (simp add: length_slice_min length_splice)
  fix i assume i: "i < length (slice (splice m off xs) p n)"
  then have "i < n" "p + i < length m"
    using assms(1) by (auto simp: length_slice_min length_splice)
  then show "slice (splice m off xs) p n ! i = slice m p n ! i"
    using assms by (auto simp: slice_def nth_splice length_splice)
qed

lemma slice_slice: "k + j \<le> n \<Longrightarrow> slice (slice m off n) k j = slice m (off + k) j"
  by (simp add: slice_def drop_take add.commute min_def)

lemma slice_drop: "slice (drop a m) off n = slice m (a + off) n"
  by (simp add: slice_def add.commute)

lemma slice_0 [simp]: "slice m off 0 = []"
  by (simp add: slice_def)

lemma slice_all [simp]: "slice m 0 (length m) = m"
  by (simp add: slice_def)

lemma slice_append_adjacent:
  "slice m off a @ slice m (off + a) b = slice m off (a + b)"
  by (simp add: slice_def take_add add.commute)

text \<open>Writes and reads of a memory laid out as a concatenation of fields.\<close>

named_theorems layout_simps \<open>writes and reads of consecutive fields\<close>

lemma splice_skip [layout_simps]:
  "length xs \<le> off \<Longrightarrow> splice (xs @ ys) off zs = xs @ splice ys (off - length xs) zs"
  by (simp add: splice_def)

lemma splice_start [layout_simps]: "splice ys 0 zs = zs @ drop (length zs) ys"
  by (simp add: splice_def)

lemma slice_skip [layout_simps]:
  "length xs \<le> off \<Longrightarrow> slice (xs @ ys) off n = slice ys (off - length xs) n"
  by (simp add: slice_def)

lemma slice_start [layout_simps]: "length xs = n \<Longrightarrow> slice (xs @ ys) 0 n = xs"
  by (simp add: slice_def)

section \<open>Little-endian integers\<close>

fun le_nat :: "byte list \<Rightarrow> nat" where
  "le_nat [] = 0"
| "le_nat (b # bs) = unat b + 256 * le_nat bs"

fun le_bytes :: "nat \<Rightarrow> nat \<Rightarrow> byte list" where
  "le_bytes 0 x = []"
| "le_bytes (Suc n) x = word_of_nat x # le_bytes n (x div 256)"

lemma length_le_bytes [simp]: "length (le_bytes n x) = n"
  by (induction n arbitrary: x) auto

lemma unat_byte_of_nat: "unat (word_of_nat x :: byte) = x mod 256"
  by (simp add: unat_of_nat)

lemma unat_byte_lt: "unat (b :: byte) < 256"
  using unsigned_less [of b, where ?'a=nat] by simp

lemma le_nat_le_bytes: "le_nat (le_bytes n x) = x mod 256 ^ n"
proof (induction n arbitrary: x)
  case (Suc n)
  have "x mod (256 * 256 ^ n) = 256 * (x div 256 mod 256 ^ n) + x mod 256"
    by (rule mod_mult2_eq)
  then show ?case by (simp add: Suc unat_byte_of_nat)
qed simp

lemma le_bytes_le_nat: "length bs = n \<Longrightarrow> le_bytes n (le_nat bs) = bs"
proof (induction bs arbitrary: n)
  case (Cons b bs)
  have "(unat b + 256 * le_nat bs) div 256 = le_nat bs"
    using unat_byte_lt [of b] by simp
  moreover have "word_of_nat (unat b + 256 * le_nat bs) = b"
    using unat_byte_lt [of b]
    by (simp only: word_unat_eq_iff unat_byte_of_nat) simp
  ultimately show ?case using Cons by (cases n) auto
qed simp

lemma le_nat_lt: "le_nat bs < 256 ^ length bs"
proof (induction bs)
  case (Cons b bs)
  then show ?case using unat_byte_lt [of b] by simp
qed simp

section \<open>The accessors of \<open>binary.LittleEndian\<close>\<close>

text \<open>
  \<open>Uint16(m[off:])\<close>, \<open>PutUint16(m[off:], v)\<close> and their 32 and 64 bit siblings. The same
  functions model the 32 and 64 bit atomic loads and stores on mapped memory: the host
  platforms of the bus are little-endian.
\<close>

definition get_u16 :: "mem \<Rightarrow> nat \<Rightarrow> u16" where
  "get_u16 m off = word_of_nat (le_nat (slice m off 2))"

definition get_u32 :: "mem \<Rightarrow> nat \<Rightarrow> u32" where
  "get_u32 m off = word_of_nat (le_nat (slice m off 4))"

definition get_u64 :: "mem \<Rightarrow> nat \<Rightarrow> u64" where
  "get_u64 m off = word_of_nat (le_nat (slice m off 8))"

definition put_u16 :: "mem \<Rightarrow> nat \<Rightarrow> u16 \<Rightarrow> mem" where
  "put_u16 m off v = splice m off (le_bytes 2 (unat v))"

definition put_u32 :: "mem \<Rightarrow> nat \<Rightarrow> u32 \<Rightarrow> mem" where
  "put_u32 m off v = splice m off (le_bytes 4 (unat v))"

definition put_u64 :: "mem \<Rightarrow> nat \<Rightarrow> u64 \<Rightarrow> mem" where
  "put_u64 m off v = splice m off (le_bytes 8 (unat v))"

lemma length_put_u16 [mem_simps]: "off + 2 \<le> length m \<Longrightarrow> length (put_u16 m off v) = length m"
  by (simp add: put_u16_def length_splice)

lemma length_put_u32 [mem_simps]: "off + 4 \<le> length m \<Longrightarrow> length (put_u32 m off v) = length m"
  by (simp add: put_u32_def length_splice)

lemma length_put_u64 [mem_simps]: "off + 8 \<le> length m \<Longrightarrow> length (put_u64 m off v) = length m"
  by (simp add: put_u64_def length_splice)

lemma le_roundtrip_u16 [le_simps]: "word_of_nat (le_nat (le_bytes 2 (unat v))) = (v :: u16)"
  using unsigned_less [of v, where ?'a = nat] by (simp add: le_nat_le_bytes)

lemma le_roundtrip_u32 [le_simps]: "word_of_nat (le_nat (le_bytes 4 (unat v))) = (v :: u32)"
  using unsigned_less [of v, where ?'a = nat] by (simp add: le_nat_le_bytes)

lemma le_roundtrip_u64 [le_simps]: "word_of_nat (le_nat (le_bytes 8 (unat v))) = (v :: u64)"
  using unsigned_less [of v, where ?'a = nat] by (simp add: le_nat_le_bytes)

lemma get_put_u16 [mem_simps]: "off + 2 \<le> length m \<Longrightarrow> get_u16 (put_u16 m off v) off = v"
  by (simp add: get_u16_def put_u16_def slice_splice_same le_simps)

lemma get_put_u32 [mem_simps]: "off + 4 \<le> length m \<Longrightarrow> get_u32 (put_u32 m off v) off = v"
  by (simp add: get_u32_def put_u32_def slice_splice_same le_simps)

lemma get_put_u64 [mem_simps]: "off + 8 \<le> length m \<Longrightarrow> get_u64 (put_u64 m off v) off = v"
  by (simp add: get_u64_def put_u64_def slice_splice_same le_simps)

lemma slice_put_u16 [mem_simps]:
  "off + 2 \<le> length m \<Longrightarrow> p + n \<le> off \<or> off + 2 \<le> p \<Longrightarrow> slice (put_u16 m off v) p n = slice m p n"
  by (simp add: put_u16_def slice_splice_disjoint)

lemma slice_put_u32 [mem_simps]:
  "off + 4 \<le> length m \<Longrightarrow> p + n \<le> off \<or> off + 4 \<le> p \<Longrightarrow> slice (put_u32 m off v) p n = slice m p n"
  by (simp add: put_u32_def slice_splice_disjoint)

lemma slice_put_u64 [mem_simps]:
  "off + 8 \<le> length m \<Longrightarrow> p + n \<le> off \<or> off + 8 \<le> p \<Longrightarrow> slice (put_u64 m off v) p n = slice m p n"
  by (simp add: put_u64_def slice_splice_disjoint)

text \<open>An accessor depends on its own bytes only.\<close>

lemma get_u16_slice_cong: "slice m p 2 = slice m' p' 2 \<Longrightarrow> get_u16 m p = get_u16 m' p'"
  by (simp add: get_u16_def)

lemma get_u32_slice_cong: "slice m p 4 = slice m' p' 4 \<Longrightarrow> get_u32 m p = get_u32 m' p'"
  by (simp add: get_u32_def)

lemma get_u64_slice_cong: "slice m p 8 = slice m' p' 8 \<Longrightarrow> get_u64 m p = get_u64 m' p'"
  by (simp add: get_u64_def)

lemmas get_disjoint [mem_simps] =
  get_u16_slice_cong [OF slice_put_u16] get_u16_slice_cong [OF slice_put_u32]
  get_u16_slice_cong [OF slice_put_u64]
  get_u32_slice_cong [OF slice_put_u16] get_u32_slice_cong [OF slice_put_u32]
  get_u32_slice_cong [OF slice_put_u64]
  get_u64_slice_cong [OF slice_put_u16] get_u64_slice_cong [OF slice_put_u32]
  get_u64_slice_cong [OF slice_put_u64]

lemma get_u64_splice [mem_simps]:
  "off + length xs \<le> length m \<Longrightarrow> p + 8 \<le> off \<or> off + length xs \<le> p \<Longrightarrow>
    get_u64 (splice m off xs) p = get_u64 m p"
  by (rule get_u64_slice_cong) (rule slice_splice_disjoint)

lemma get_u32_splice [mem_simps]:
  "off + length xs \<le> length m \<Longrightarrow> p + 4 \<le> off \<or> off + length xs \<le> p \<Longrightarrow>
    get_u32 (splice m off xs) p = get_u32 m p"
  by (rule get_u32_slice_cong) (rule slice_splice_disjoint)

text \<open>Reading a field and writing it back leaves its bytes as they were.\<close>

lemma le_bytes_get_u16 [le_simps]: "off + 2 \<le> length m \<Longrightarrow> le_bytes 2 (unat (get_u16 m off)) = slice m off 2"
  using le_nat_lt [of "slice m off 2"]
  by (simp add: get_u16_def unat_of_nat length_slice le_bytes_le_nat)

lemma le_bytes_get_u32 [le_simps]: "off + 4 \<le> length m \<Longrightarrow> le_bytes 4 (unat (get_u32 m off)) = slice m off 4"
  using le_nat_lt [of "slice m off 4"]
  by (simp add: get_u32_def unat_of_nat length_slice le_bytes_le_nat)

lemma le_bytes_get_u64 [le_simps]: "off + 8 \<le> length m \<Longrightarrow> le_bytes 8 (unat (get_u64 m off)) = slice m off 8"
  using le_nat_lt [of "slice m off 8"]
  by (simp add: get_u64_def unat_of_nat length_slice le_bytes_le_nat)

lemma splice_eqI:
  assumes "off + length xs \<le> length m" and "slice m off (length xs) = xs"
  shows "splice m off xs = m"
  using assms unfolding splice_def slice_def
  by (metis append_take_drop_id drop_drop add.commute)

lemma get_drop [mem_simps]:
  "get_u16 (drop a m) off = get_u16 m (a + off)"
  "get_u32 (drop a m) off = get_u32 m (a + off)"
  "get_u64 (drop a m) off = get_u64 m (a + off)"
  by (simp_all add: get_u16_def get_u32_def get_u64_def slice_drop)

end
