(* ===== verification/Wire.thy ===== *)
theory Wire
  imports Prelude
begin

text \<open>
  The frame codec of \<open>server-go/bus/wire.go\<close>: the 64-byte event header, the rules
  \<open>Validate\<close> applies, \<open>Encode\<close>, \<open>Decode\<close> and \<open>CheckPlacement\<close>. The declarative
  specification of a valid header is \<open>frame_wf\<close>; the codec is shown to be a bijection
  between valid frames and the byte strings it accepts.
\<close>

section \<open>Constants and data\<close>

definition WireMagic :: u32 where [simp]: "WireMagic = 0x30535542"
definition WireVersion :: u16 where [simp]: "WireVersion = 3"
definition HdrLen :: nat where [simp]: "HdrLen = 64"
definition MaxPayload :: u32 where [simp]: "MaxPayload = 0x100000"

definition FInline :: u16 where [simp]: "FInline = 0x0001"
definition FArena :: u16 where [simp]: "FArena = 0x0002"
definition FNotification :: u16 where [simp]: "FNotification = 0x0004"
definition FRequest :: u16 where [simp]: "FRequest = 0x0008"
definition FReply :: u16 where [simp]: "FReply = 0x0010"
definition FCancel :: u16 where [simp]: "FCancel = 0x0020"
definition FControl :: u16 where [simp]: "FControl = 0x0040"
definition FMore :: u16 where [simp]: "FMore = 0x0080"

definition fPlacementMask :: u16 where [simp]: "fPlacementMask = FInline OR FArena"
definition fPatternMask :: u16 where
  [simp]: "fPatternMask = FNotification OR FRequest OR FReply OR FCancel"
definition fKnownMask :: u16 where
  [simp]: "fKnownMask = fPlacementMask OR fPatternMask OR FControl OR FMore"

definition KindCapabilityAbsent :: u32 where [simp]: "KindCapabilityAbsent = 4"
definition KindError :: u32 where [simp]: "KindError = 3"

record frame =
  HdrFlags :: u16
  FrameVersion :: u16  \<comment> \<open>the field \<open>WireVersion\<close>\<close>
  EventKind :: u32
  PrincipalRef :: u32
  CorrelationID :: u64
  Seq :: u64
  LogicalTS :: u64
  PayloadRef :: u64
  PayloadLen :: u32
  SrcHandle :: u32
  DstHandle :: u32
  Generation :: u32

definition zero_frame :: frame where
  \<comment> \<open>the zero value \<open>Frame{}\<close>\<close>
  "zero_frame = \<lparr>HdrFlags = 0, FrameVersion = 0, EventKind = 0, PrincipalRef = 0,
     CorrelationID = 0, Seq = 0, LogicalTS = 0, PayloadRef = 0, PayloadLen = 0,
     SrcHandle = 0, DstHandle = 0, Generation = 0\<rparr>"

datatype wire_result = OK | ErrShort | ErrMagic | ErrVersion | ErrFlags | ErrPayloadLen
  | ErrCorrelation | ErrReserved

section \<open>Operations\<close>

definition exactlyOne :: "u16 \<Rightarrow> bool" where
  "exactlyOne v \<longleftrightarrow> v \<noteq> 0 \<and> v AND (v - 1) = 0"

definition Validate :: "frame \<Rightarrow> wire_result" where
  "Validate f =
    (let placement = HdrFlags f AND fPlacementMask;
         pattern = HdrFlags f AND fPatternMask
     in if FrameVersion f \<noteq> WireVersion then ErrVersion
        else if HdrFlags f AND NOT fKnownMask \<noteq> 0 then ErrFlags
        else if \<not> exactlyOne pattern then ErrFlags
        else if PayloadLen f > 0 \<and> \<not> exactlyOne placement then ErrFlags
        else if PayloadLen f > 0 \<and> PayloadLen f > MaxPayload then ErrPayloadLen
        else if \<not> PayloadLen f > 0 \<and> placement \<noteq> 0 then ErrFlags
        else if \<not> PayloadLen f > 0 \<and> PayloadRef f \<noteq> 0 then ErrPayloadLen
        else if HdrFlags f AND FMore \<noteq> 0 \<and>
          ((pattern \<noteq> FRequest \<and> pattern \<noteq> FReply) \<or> placement \<noteq> FInline \<or> PayloadLen f = 0)
          then ErrFlags
        else if HdrFlags f AND FArena = 0 \<and> Generation f \<noteq> 0 then ErrFlags
        else if HdrFlags f AND FNotification \<noteq> 0
          then (if CorrelationID f \<noteq> 0 then ErrCorrelation else OK)
        else if CorrelationID f = 0 then ErrCorrelation
        else OK)"

definition put_frame :: "frame \<Rightarrow> mem \<Rightarrow> mem" where
  \<comment> \<open>the twelve stores of \<open>Encode\<close>, in the order of the code\<close>
  "put_frame f b =
    (let b = put_u32 b 0 WireMagic;
         b = put_u16 b 4 (HdrFlags f);
         b = put_u16 b 6 (FrameVersion f);
         b = put_u32 b 8 (EventKind f);
         b = put_u32 b 12 (PrincipalRef f);
         b = put_u64 b 16 (CorrelationID f);
         b = put_u64 b 24 (Seq f);
         b = put_u64 b 32 (LogicalTS f);
         b = put_u64 b 40 (PayloadRef f);
         b = put_u32 b 48 (PayloadLen f);
         b = put_u32 b 52 (SrcHandle f);
         b = put_u32 b 56 (DstHandle f)
     in put_u32 b 60 (Generation f))"

definition Encode :: "frame \<Rightarrow> mem \<Rightarrow> nat \<times> mem" where
  \<comment> \<open>\<open>f.Encode(out)\<close>: the number of bytes written, and \<open>out\<close> afterwards\<close>
  "Encode f out =
    (if length out < HdrLen then (0, out)
     else if Validate f \<noteq> OK then (0, out)
     else (HdrLen, splice out 0 (put_frame f (replicate HdrLen 0))))"

definition get_frame :: "mem \<Rightarrow> frame" where
  "get_frame b = \<lparr>HdrFlags = get_u16 b 4, FrameVersion = get_u16 b 6, EventKind = get_u32 b 8,
     PrincipalRef = get_u32 b 12, CorrelationID = get_u64 b 16, Seq = get_u64 b 24,
     LogicalTS = get_u64 b 32, PayloadRef = get_u64 b 40, PayloadLen = get_u32 b 48,
     SrcHandle = get_u32 b 52, DstHandle = get_u32 b 56, Generation = get_u32 b 60\<rparr>"

definition Decode :: "mem \<Rightarrow> frame \<Rightarrow> wire_result \<times> frame" where
  \<comment> \<open>\<open>Decode(in, out)\<close>: the result, and \<open>*out\<close> afterwards\<close>
  "Decode b out =
    (if length b < HdrLen then (ErrShort, out)
     else if get_u32 b 0 \<noteq> WireMagic then (ErrMagic, out)
     else let f = get_frame b; r = Validate f
          in if r \<noteq> OK then (r, out) else (OK, f))"

definition CheckPlacement :: "frame \<Rightarrow> u32 \<Rightarrow> u64 \<Rightarrow> wire_result" where
  "CheckPlacement f slotSize arenaSize =
    (let r = Validate f
     in if r \<noteq> OK then r
        else if PayloadLen f = 0 then OK
        else if HdrFlags f AND FInline \<noteq> 0 then
          (let end' = PayloadRef f + ucast (PayloadLen f)
           in if end' < PayloadRef f then ErrPayloadLen
              else if PayloadRef f < word_of_nat HdrLen \<or> end' > ucast slotSize then ErrPayloadLen
              else OK)
        else if ucast (PayloadLen f) > arenaSize then ErrPayloadLen
        else OK)"

section \<open>What a valid header is\<close>

text \<open>The message patterns and payload placements, each carried by exactly one flag.\<close>

definition pattern_flags :: "u16 set" where
  "pattern_flags = {FNotification, FRequest, FReply, FCancel}"

definition placement_wf :: "frame \<Rightarrow> bool" where
  "placement_wf f \<longleftrightarrow>
    (if PayloadLen f = 0
     then HdrFlags f AND fPlacementMask = 0 \<and> PayloadRef f = 0
     else HdrFlags f AND fPlacementMask \<in> {FInline, FArena} \<and> unat (PayloadLen f) \<le> 2 ^ 20)"

definition frame_wf :: "frame \<Rightarrow> bool" where
  "frame_wf f \<longleftrightarrow>
     FrameVersion f = 3 \<and>
     HdrFlags f AND NOT 0xFF = 0 \<and>
     HdrFlags f AND fPatternMask \<in> pattern_flags \<and>
     placement_wf f \<and>
     (HdrFlags f AND FMore \<noteq> 0 \<longrightarrow>
        HdrFlags f AND fPatternMask \<in> {FRequest, FReply} \<and>
        HdrFlags f AND fPlacementMask = FInline) \<and>
     (HdrFlags f AND fPlacementMask \<noteq> FArena \<longrightarrow> Generation f = 0) \<and>
     (CorrelationID f = 0 \<longleftrightarrow> HdrFlags f AND fPatternMask = FNotification)"

section \<open>Flag arithmetic\<close>

lemma small_word_cases:
  fixes y :: u16
  assumes "\<And>n. n < k \<Longrightarrow> P (word_of_nat n)" and "unat y < k"
  shows "P y"
  using assms(1) [OF assms(2)] by simp

lemma exactlyOne_small:
  assumes "unat y < 64"
  shows "exactlyOne y \<longleftrightarrow> y \<in> {1, 2, 4, 8, 16, 32}"
proof -
  have "\<forall>n \<in> {..<64}. exactlyOne (word_of_nat n) \<longleftrightarrow>
      (word_of_nat n :: u16) \<in> {1, 2, 4, 8, 16, 32}"
    by (simp add: exactlyOne_def lessThan_nat_numeral)
  then have "\<And>n. n < 64 \<Longrightarrow> exactlyOne (word_of_nat n) \<longleftrightarrow>
      (word_of_nat n :: u16) \<in> {1, 2, 4, 8, 16, 32}"
    by blast
  then show ?thesis using assms by (rule small_word_cases)
qed

lemma and_mask_bound: "unat (h AND m :: u16) \<le> unat m"
  by (metis word_and_le1 word_le_nat_alt)

lemma pattern_exactlyOne:
  "exactlyOne (h AND fPatternMask) \<longleftrightarrow> h AND fPatternMask \<in> pattern_flags"
proof -
  have b: "unat (h AND 0x3C) \<le> 0x3C" using and_mask_bound [of h "0x3C"] by simp
  have "(h AND 0x3C) AND 3 = 0" by (simp add: and.assoc)
  then have "h AND 0x3C \<noteq> 1" "h AND 0x3C \<noteq> 2" by (auto simp del: and.assoc)
  then show ?thesis using exactlyOne_small [of "h AND 0x3C"] b
    by (simp add: pattern_flags_def)
qed

lemma placement_exactlyOne:
  "exactlyOne (h AND fPlacementMask) \<longleftrightarrow> h AND fPlacementMask \<in> {FInline, FArena}"
proof -
  have b: "unat (h AND 3) \<le> 3" using and_mask_bound [of h 3] by simp
  then have "h AND 3 \<notin> {4, 8, 16, 32}" by auto
  then show ?thesis using exactlyOne_small [of "h AND 3"] b by simp
qed

lemma flag_of_pattern:
  "k \<in> {FNotification, FRequest, FReply, FCancel} \<Longrightarrow> h AND k = (h AND fPatternMask) AND k"
  by (auto simp: and.assoc)

lemma flag_of_placement: "k \<in> {FInline, FArena} \<Longrightarrow> h AND k = (h AND fPlacementMask) AND k"
  by (auto simp: and.assoc)

lemma arena_flag:
  "h AND fPlacementMask \<in> {0, FInline, FArena} \<Longrightarrow>
    h AND FArena = 0 \<longleftrightarrow> h AND fPlacementMask \<noteq> FArena"
  using flag_of_placement [of FArena h] by auto

lemma inline_flag:
  "h AND fPlacementMask \<in> {0, FInline, FArena} \<Longrightarrow>
    h AND FInline \<noteq> 0 \<longleftrightarrow> h AND fPlacementMask = FInline"
  using flag_of_placement [of FInline h] by auto

lemma notification_flag:
  "h AND fPatternMask \<in> pattern_flags \<Longrightarrow>
    h AND FNotification \<noteq> 0 \<longleftrightarrow> h AND fPatternMask = FNotification"
  using flag_of_pattern [of FNotification h] by (auto simp: pattern_flags_def)

section \<open>Validate decides the specification\<close>

lemma len_bound: "(PayloadLen f > MaxPayload) \<longleftrightarrow> \<not> unat (PayloadLen f) \<le> 2 ^ 20"
  by (simp add: word_less_nat_alt not_le)

lemma Validate_rules:
  "Validate f = OK \<longleftrightarrow>
     FrameVersion f = WireVersion \<and> HdrFlags f AND NOT fKnownMask = 0 \<and>
     exactlyOne (HdrFlags f AND fPatternMask) \<and>
     (PayloadLen f > 0 \<longrightarrow>
       exactlyOne (HdrFlags f AND fPlacementMask) \<and> \<not> PayloadLen f > MaxPayload) \<and>
     (\<not> PayloadLen f > 0 \<longrightarrow> HdrFlags f AND fPlacementMask = 0 \<and> PayloadRef f = 0) \<and>
     (HdrFlags f AND FMore \<noteq> 0 \<longrightarrow>
       (HdrFlags f AND fPatternMask = FRequest \<or> HdrFlags f AND fPatternMask = FReply) \<and>
       HdrFlags f AND fPlacementMask = FInline \<and> PayloadLen f \<noteq> 0) \<and>
     (HdrFlags f AND FArena = 0 \<longrightarrow> Generation f = 0) \<and>
     (HdrFlags f AND FNotification \<noteq> 0 \<longleftrightarrow> CorrelationID f = 0)"
  unfolding Validate_def Let_def
  by (simp del: fPatternMask_def fPlacementMask_def fKnownMask_def) blast

lemma known_mask: "fKnownMask = 0xFF"
  by simp

lemma Validate_iff_wf: "Validate f = OK \<longleftrightarrow> frame_wf f"
proof -
  have len: "0 < PayloadLen f \<longleftrightarrow> PayloadLen f \<noteq> 0" by (simp add: word_gt_0)
  show ?thesis
    unfolding Validate_rules frame_wf_def known_mask placement_wf_def pattern_exactlyOne
      placement_exactlyOne len_bound len not_not
    using arena_flag [of "HdrFlags f"] notification_flag [of "HdrFlags f"]
    by (cases "PayloadLen f = 0") (auto simp del: fPatternMask_def fPlacementMask_def)
qed

lemma wf_More_len: "frame_wf f \<Longrightarrow> HdrFlags f AND FMore \<noteq> 0 \<Longrightarrow> PayloadLen f \<noteq> 0"
  by (auto simp: frame_wf_def placement_wf_def split: if_splits)

section \<open>The codec\<close>

text \<open>The stores of \<open>Encode\<close> lay the twelve fields out one after the other.\<close>

definition frame_bytes :: "frame \<Rightarrow> byte list" where
  "frame_bytes f =
     le_bytes 4 (unat WireMagic) @ le_bytes 2 (unat (HdrFlags f)) @
     le_bytes 2 (unat (FrameVersion f)) @ le_bytes 4 (unat (EventKind f)) @
     le_bytes 4 (unat (PrincipalRef f)) @ le_bytes 8 (unat (CorrelationID f)) @
     le_bytes 8 (unat (Seq f)) @ le_bytes 8 (unat (LogicalTS f)) @
     le_bytes 8 (unat (PayloadRef f)) @ le_bytes 4 (unat (PayloadLen f)) @
     le_bytes 4 (unat (SrcHandle f)) @ le_bytes 4 (unat (DstHandle f)) @
     le_bytes 4 (unat (Generation f)) @ []"

lemma length_frame_bytes [simp]: "length (frame_bytes f) = 64"
  by (simp add: frame_bytes_def)

lemma put_frame_bytes: "length b = 64 \<Longrightarrow> put_frame f b = frame_bytes f"
  by (simp add: put_frame_def frame_bytes_def Let_def put_u16_def put_u32_def put_u64_def
      layout_simps del: WireMagic_def)

lemma get_frame_bytes: "get_frame (frame_bytes f @ rest) = f"
  by (simp add: get_frame_def frame_bytes_def get_u16_def get_u32_def get_u64_def
      layout_simps le_simps del: WireMagic_def)

lemma magic_frame_bytes: "get_u32 (frame_bytes f @ rest) 0 = WireMagic"
  by (simp add: frame_bytes_def get_u32_def layout_simps le_simps del: WireMagic_def)

lemma Encode_OK:
  "Validate f = OK \<Longrightarrow> 64 \<le> length out \<Longrightarrow> Encode f out = (64, frame_bytes f @ drop 64 out)"
  by (simp add: Encode_def put_frame_bytes layout_simps)

lemma Decode_frame_bytes:
  "Validate f = OK \<Longrightarrow> Decode (frame_bytes f @ rest) g = (OK, f)"
  by (simp add: Decode_def Let_def magic_frame_bytes get_frame_bytes del: WireMagic_def)

lemma Decode_OK_iff:
  "Decode b g = (OK, f) \<longleftrightarrow>
    64 \<le> length b \<and> get_u32 b 0 = WireMagic \<and> f = get_frame b \<and> frame_wf f"
  by (auto simp: Decode_def Let_def Validate_iff_wf [symmetric] not_less split: if_splits)

lemma frame_bytes_get_frame:
  assumes "64 \<le> length b" and "get_u32 b 0 = WireMagic"
  shows "frame_bytes (get_frame b) = take 64 b"
proof -
  have "frame_bytes (get_frame b) = slice b 0 4 @ slice b 4 2 @ slice b 6 2 @ slice b 8 4 @
      slice b 12 4 @ slice b 16 8 @ slice b 24 8 @ slice b 32 8 @ slice b 40 8 @ slice b 48 4 @
      slice b 52 4 @ slice b 56 4 @ slice b 60 4"
    unfolding frame_bytes_def assms(2) [symmetric]
    using assms(1) by (simp add: get_frame_def le_simps)
  also have "\<dots> = slice b 0 64"
    using slice_append_adjacent [of b 56 4 4] slice_append_adjacent [of b 52 4 8]
      slice_append_adjacent [of b 48 4 12] slice_append_adjacent [of b 40 8 16]
      slice_append_adjacent [of b 32 8 24] slice_append_adjacent [of b 24 8 32]
      slice_append_adjacent [of b 16 8 40] slice_append_adjacent [of b 12 4 48]
      slice_append_adjacent [of b 8 4 52] slice_append_adjacent [of b 6 2 56]
      slice_append_adjacent [of b 4 2 58] slice_append_adjacent [of b 0 4 60]
    by simp
  finally show ?thesis by (simp add: slice_def)
qed

lemma wf_placement_cases:
  assumes "frame_wf f"
  obtains (none) "PayloadLen f = 0"
  | (inline) "PayloadLen f \<noteq> 0" "HdrFlags f AND fPlacementMask = FInline" "HdrFlags f AND FInline \<noteq> 0"
  | (arena) "PayloadLen f \<noteq> 0" "HdrFlags f AND fPlacementMask = FArena" "HdrFlags f AND FInline = 0"
  using assms flag_of_placement [of FInline "HdrFlags f"]
  by (auto simp: frame_wf_def placement_wf_def simp del: fPlacementMask_def split: if_splits)

lemma inline_placement_arith:
  fixes ref :: u64 and len slot :: u32
  shows "\<not> ref + ucast len < ref \<and> \<not> (ref < word_of_nat HdrLen \<or> ref + ucast len > ucast slot) \<longleftrightarrow>
    HdrLen \<le> unat ref \<and> unat ref + unat len \<le> unat slot"
proof (cases "unat ref + unat len < 2 ^ 64")
  case True
  then have "unat (ref + ucast len) = unat ref + unat len"
    by (subst unat_add_no_wrap) simp_all
  with True show ?thesis
    by (simp add: add_wraps_iff word_less_nat_alt word_le_nat_alt not_less)
next
  case False
  moreover have "unat slot < 2 ^ 64" using unsigned_less [of slot, where ?'a = nat] by simp
  ultimately show ?thesis by (simp add: add_wraps_iff)
qed

lemma CheckPlacement_iff:
  "CheckPlacement f slotSize arenaSize = OK \<longleftrightarrow>
    frame_wf f \<and>
    (PayloadLen f = 0 \<or>
     HdrFlags f AND fPlacementMask = FInline \<and> HdrLen \<le> unat (PayloadRef f) \<and>
       unat (PayloadRef f) + unat (PayloadLen f) \<le> unat slotSize \<or>
     HdrFlags f AND fPlacementMask = FArena \<and> unat (PayloadLen f) \<le> unat arenaSize)"
proof (cases "frame_wf f")
  case False
  then show ?thesis by (simp add: CheckPlacement_def Let_def flip: Validate_iff_wf)
next
  case True
  then have ok: "Validate f = OK" by (simp add: Validate_iff_wf)
  from True show ?thesis
  proof (cases rule: wf_placement_cases)
    case none
    with True ok show ?thesis by (simp add: CheckPlacement_def)
  next
    case inline
    with True ok show ?thesis
      using inline_placement_arith [of "PayloadRef f" "PayloadLen f" slotSize]
      by (auto simp: CheckPlacement_def Let_def simp del: fPlacementMask_def split: if_splits)
  next
    case arena
    with True ok show ?thesis
      by (simp add: CheckPlacement_def Let_def word_less_nat_alt not_less del: fPlacementMask_def)
  qed
qed

section \<open>Properties of the codec\<close>

text \<open>
  C28. \<open>Validate\<close> decides the declarative header specification: the known version and
  flags only, exactly one message pattern, a placement flag and a bounded length exactly
  when there is a payload, fragments only on inline requests and replies, a lease
  generation only on arena payloads, and a correlation exactly on non-notifications.
\<close>

theorem Validate_spec: "Validate f = OK \<longleftrightarrow> frame_wf f"
  by (rule Validate_iff_wf)

text \<open>
  C29. Encode then decode: a valid frame encoded into a buffer that has room is written in
  full, decodes to the same frame, and leaves the buffer behind the header untouched.
\<close>

theorem wire_encode_decode:
  assumes "Validate f = OK" and "HdrLen \<le> length out"
  shows "\<exists>out'. Encode f out = (HdrLen, out') \<and> Decode out' g = (OK, f) \<and>
    length out' = length out \<and> drop HdrLen out' = drop HdrLen out"
  using assms by (simp add: Encode_OK Decode_frame_bytes)

theorem wire_encode_decode_witness:
  "\<exists>out'. Encode (zero_frame\<lparr>HdrFlags := 8, FrameVersion := 3, CorrelationID := 7\<rparr>)
      (replicate 70 1) = (HdrLen, out') \<and>
    Decode out' zero_frame = (OK, zero_frame\<lparr>HdrFlags := 8, FrameVersion := 3, CorrelationID := 7\<rparr>) \<and>
    length out' = length (replicate 70 (1 :: byte)) \<and>
    drop HdrLen out' = drop HdrLen (replicate 70 1)"
  by (rule wire_encode_decode) (simp_all add: Validate_def zero_frame_def exactlyOne_def Let_def)

text \<open>
  C30. Decode then encode: the header has one encoding. Whatever bytes decode, encoding the
  decoded frame writes exactly those 64 bytes back.
\<close>

theorem wire_decode_encode:
  assumes "Decode b g = (OK, f)" and "HdrLen \<le> length out"
  shows "Encode f out = (HdrLen, take HdrLen b @ drop HdrLen out)"
  using assms by (auto simp: Decode_OK_iff Encode_OK Validate_iff_wf frame_bytes_get_frame)

theorem wire_decode_encode_witness:
  "Encode (zero_frame\<lparr>HdrFlags := 4, FrameVersion := 3, EventKind := 9\<rparr>) (replicate 64 1) =
    (HdrLen, take HdrLen (frame_bytes (zero_frame\<lparr>HdrFlags := 4, FrameVersion := 3, EventKind := 9\<rparr>) @ [])
       @ drop HdrLen (replicate 64 1))"
  by (rule wire_decode_encode [where g = zero_frame, OF Decode_frame_bytes])
    (simp_all add: Validate_def zero_frame_def exactlyOne_def Let_def)

text \<open>
  A refused frame leaves no trace: on any error \<open>Decode\<close> keeps \<open>*out\<close> as it was, and an
  \<open>Encode\<close> that does not report the full header length reports 0 and keeps the buffer.
\<close>

theorem wire_errors_leave_no_trace:
  "(fst (Decode b g) = OK \<or> snd (Decode b g) = g) \<and>
   (fst (Encode f out) = HdrLen \<or> Encode f out = (0, out))"
  by (auto simp: Decode_def Encode_def Let_def)

text \<open>
  C31. \<open>CheckPlacement\<close> accepts exactly the valid frames whose payload lies inside the live
  geometry, computed without wrap-around: an inline payload behind the header and inside
  the slot, an arena payload no longer than the arena.
\<close>

theorem CheckPlacement_spec:
  "CheckPlacement f slotSize arenaSize = OK \<longleftrightarrow>
    frame_wf f \<and>
    (PayloadLen f = 0 \<or>
     HdrFlags f AND fPlacementMask = FInline \<and> HdrLen \<le> unat (PayloadRef f) \<and>
       unat (PayloadRef f) + unat (PayloadLen f) \<le> unat slotSize \<or>
     HdrFlags f AND fPlacementMask = FArena \<and> unat (PayloadLen f) \<le> unat arenaSize)"
  by (rule CheckPlacement_iff)

end
