(* ===== verification/Module_Protocol.thy ===== *)
theory Module_Protocol
  imports Prelude
begin

text \<open>
  The module payload envelope of \<open>server-go/bus/module_protocol.go\<close>: the 40-byte \<open>AMOD\<close>
  header that precedes the body of every module request and reply.
\<close>

section \<open>Constants and data\<close>

definition ModuleMessageMagic :: u32 where [simp]: "ModuleMessageMagic = 0x444f4d41"
definition ModuleMessageVersion :: u16 where [simp]: "ModuleMessageVersion = 1"
definition ModuleMessageHeaderLen :: nat where [simp]: "ModuleMessageHeaderLen = 40"
definition ModuleMessageMaxBody :: u32 where [simp]: "ModuleMessageMaxBody = 0x1000000"

definition ModuleOpInvoke :: u16 where [simp]: "ModuleOpInvoke = 1"
definition ModuleOpResult :: u16 where [simp]: "ModuleOpResult = 2"

definition ModuleStatusOK :: u16 where [simp]: "ModuleStatusOK = 0"
definition ModuleStatusCapabilityAbsent :: u16 where [simp]: "ModuleStatusCapabilityAbsent = 1"
definition ModuleStatusCancelled :: u16 where [simp]: "ModuleStatusCancelled = 2"
definition ModuleStatusDeadlineExceeded :: u16 where [simp]: "ModuleStatusDeadlineExceeded = 3"
definition ModuleStatusInvalidRequest :: u16 where [simp]: "ModuleStatusInvalidRequest = 4"
definition ModuleStatusInternal :: u16 where [simp]: "ModuleStatusInternal = 5"

record module_message =
  Operation :: u16
  Status :: u16
  StageID :: u32
  Flags :: u32
  BodyLen :: u32
  DeadlineNS :: u64
  TraceID :: u64

definition zero_message :: module_message where
  \<comment> \<open>the zero value \<open>ModuleMessage{}\<close>\<close>
  "zero_message = \<lparr>Operation = 0, Status = 0, StageID = 0, Flags = 0, BodyLen = 0,
     DeadlineNS = 0, TraceID = 0\<rparr>"

section \<open>Operations\<close>

definition message_valid :: "module_message \<Rightarrow> bool" where
  "message_valid m =
    (if Operation m \<noteq> ModuleOpInvoke \<and> Operation m \<noteq> ModuleOpResult then False
     else if Status m > ModuleStatusInternal \<or>
       (Operation m = ModuleOpInvoke \<and> Status m \<noteq> ModuleStatusOK) then False
     else StageID m \<noteq> 0 \<and> Flags m = 0 \<and> BodyLen m \<le> ModuleMessageMaxBody)"

definition put_message :: "module_message \<Rightarrow> mem \<Rightarrow> mem" where
  "put_message m b =
    (let b = put_u32 b 0 ModuleMessageMagic;
         b = put_u16 b 4 ModuleMessageVersion;
         b = put_u16 b 6 (word_of_nat ModuleMessageHeaderLen);
         b = put_u16 b 8 (Operation m);
         b = put_u16 b 10 (Status m);
         b = put_u32 b 12 (StageID m);
         b = put_u32 b 16 (Flags m);
         b = put_u32 b 20 (BodyLen m);
         b = put_u64 b 24 (DeadlineNS m)
     in put_u64 b 32 (TraceID m))"

definition message_Encode :: "module_message \<Rightarrow> mem \<Rightarrow> bus_error + nat \<times> mem" where
  \<comment> \<open>\<open>m.Encode(out)\<close>: an error, or the number of bytes written and \<open>out\<close> afterwards\<close>
  "message_Encode m out =
    (if length out < ModuleMessageHeaderLen \<or> \<not> message_valid m then Inl ErrModuleMessage
     else Inr (ModuleMessageHeaderLen,
       splice out 0 (put_message m (replicate ModuleMessageHeaderLen 0))))"

definition get_message :: "mem \<Rightarrow> module_message" where
  "get_message b = \<lparr>Operation = get_u16 b 8, Status = get_u16 b 10, StageID = get_u32 b 12,
     Flags = get_u32 b 16, BodyLen = get_u32 b 20, DeadlineNS = get_u64 b 24,
     TraceID = get_u64 b 32\<rparr>"

definition DecodeModuleMessage :: "mem \<Rightarrow> bus_error + module_message" where
  "DecodeModuleMessage b =
    (if length b < ModuleMessageHeaderLen \<or> get_u32 b 0 \<noteq> ModuleMessageMagic \<or>
        get_u16 b 4 \<noteq> ModuleMessageVersion \<or>
        get_u16 b 6 \<noteq> word_of_nat ModuleMessageHeaderLen
     then Inl ErrModuleMessage
     else let m = get_message b
          in if \<not> message_valid m \<or> unat (BodyLen m) > length b - ModuleMessageHeaderLen
             then Inl ErrModuleMessage
             else Inr m)"

definition DeadlineExpired :: "module_message \<Rightarrow> u64 \<Rightarrow> bool" where
  "DeadlineExpired m nowNS \<longleftrightarrow> DeadlineNS m \<noteq> 0 \<and> nowNS \<ge> DeadlineNS m"

section \<open>The codec\<close>

definition message_bytes :: "module_message \<Rightarrow> byte list" where
  "message_bytes m =
     le_bytes 4 (unat ModuleMessageMagic) @ le_bytes 2 (unat ModuleMessageVersion) @
     le_bytes 2 (unat (word_of_nat ModuleMessageHeaderLen :: u16)) @
     le_bytes 2 (unat (Operation m)) @ le_bytes 2 (unat (Status m)) @
     le_bytes 4 (unat (StageID m)) @ le_bytes 4 (unat (Flags m)) @
     le_bytes 4 (unat (BodyLen m)) @ le_bytes 8 (unat (DeadlineNS m)) @
     le_bytes 8 (unat (TraceID m)) @ []"

lemmas message_consts = ModuleMessageMagic_def ModuleMessageVersion_def ModuleMessageHeaderLen_def

lemma length_message_bytes [simp]: "length (message_bytes m) = 40"
  by (simp add: message_bytes_def)

lemma put_message_bytes: "length b = 40 \<Longrightarrow> put_message m b = message_bytes m"
  by (simp add: put_message_def message_bytes_def Let_def put_u16_def put_u32_def put_u64_def
      layout_simps del: message_consts)

lemma get_message_bytes [simp]: "get_message (message_bytes m @ rest) = m"
  by (simp add: get_message_def message_bytes_def get_u16_def get_u32_def get_u64_def
      layout_simps le_simps del: message_consts)

lemma header_message_bytes:
  "get_u32 (message_bytes m @ rest) 0 = ModuleMessageMagic"
  "get_u16 (message_bytes m @ rest) 4 = ModuleMessageVersion"
  "get_u16 (message_bytes m @ rest) 6 = word_of_nat ModuleMessageHeaderLen"
  by (simp_all add: message_bytes_def get_u32_def get_u16_def layout_simps le_simps
      del: message_consts)

lemma message_Encode_OK:
  "message_valid m \<Longrightarrow> 40 \<le> length out \<Longrightarrow>
    message_Encode m out = Inr (40, message_bytes m @ drop 40 out)"
  by (simp add: message_Encode_def put_message_bytes layout_simps)

lemma DecodeModuleMessage_bytes:
  assumes "message_valid m" and "unat (BodyLen m) \<le> length body"
  shows "DecodeModuleMessage (message_bytes m @ body) = Inr m"
  using assms unfolding DecodeModuleMessage_def header_message_bytes get_message_bytes
  by (simp add: Let_def)

lemma DecodeModuleMessage_OK_iff:
  "DecodeModuleMessage b = Inr m \<longleftrightarrow>
    40 \<le> length b \<and> get_u32 b 0 = ModuleMessageMagic \<and> get_u16 b 4 = ModuleMessageVersion \<and>
    get_u16 b 6 = word_of_nat ModuleMessageHeaderLen \<and> m = get_message b \<and> message_valid m \<and>
    40 + unat (BodyLen m) \<le> length b"
  by (auto simp: DecodeModuleMessage_def Let_def not_less split: if_splits)

lemma message_bytes_get_message:
  assumes "DecodeModuleMessage b = Inr m"
  shows "message_bytes m = take 40 b"
proof -
  from assms have b: "40 \<le> length b" and h: "get_u32 b 0 = ModuleMessageMagic"
    "get_u16 b 4 = ModuleMessageVersion" "get_u16 b 6 = word_of_nat ModuleMessageHeaderLen"
    and m: "m = get_message b"
    by (simp_all only: DecodeModuleMessage_OK_iff)
  have "message_bytes m = slice b 0 4 @ slice b 4 2 @ slice b 6 2 @ slice b 8 2 @ slice b 10 2 @
      slice b 12 4 @ slice b 16 4 @ slice b 20 4 @ slice b 24 8 @ slice b 32 8"
    unfolding message_bytes_def h [symmetric] m
    using b by (simp add: get_message_def le_simps)
  also have "\<dots> = slice b 0 40"
    using slice_append_adjacent [of b 24 8 8] slice_append_adjacent [of b 20 4 16]
      slice_append_adjacent [of b 16 4 20] slice_append_adjacent [of b 12 4 24]
      slice_append_adjacent [of b 10 2 28] slice_append_adjacent [of b 8 2 30]
      slice_append_adjacent [of b 6 2 32] slice_append_adjacent [of b 4 2 34]
      slice_append_adjacent [of b 0 4 36]
    by simp
  finally show ?thesis by (simp add: slice_def)
qed

section \<open>Properties of the envelope\<close>

text \<open>
  Encode then decode: a valid envelope encoded at the start of a buffer decodes to
  itself as soon as the buffer holds the announced body behind the header, and the bytes
  behind the header are untouched.
\<close>

theorem message_encode_decode:
  assumes "message_valid m" and "ModuleMessageHeaderLen + unat (BodyLen m) \<le> length out"
  shows "\<exists>out'. message_Encode m out = Inr (ModuleMessageHeaderLen, out') \<and>
    DecodeModuleMessage out' = Inr m \<and>
    drop ModuleMessageHeaderLen out' = drop ModuleMessageHeaderLen out"
  using assms by (simp add: message_Encode_OK DecodeModuleMessage_bytes)

theorem message_encode_decode_witness:
  "\<exists>out'. message_Encode (zero_message\<lparr>Operation := 1, StageID := 3, BodyLen := 2\<rparr>)
      (replicate 42 7) = Inr (ModuleMessageHeaderLen, out') \<and>
    DecodeModuleMessage out' = Inr (zero_message\<lparr>Operation := 1, StageID := 3, BodyLen := 2\<rparr>) \<and>
    drop ModuleMessageHeaderLen out' = drop ModuleMessageHeaderLen (replicate 42 7)"
  by (rule message_encode_decode) (simp_all add: message_valid_def zero_message_def)

text \<open>What \<open>DecodeModuleMessage\<close> accepts: an envelope it returns is valid, its announced body
  lies inside the input (so the caller's slice of the body cannot go out of range), and
  encoding it gives back the header bytes it was read from.
\<close>

theorem message_decode_sound:
  assumes "DecodeModuleMessage b = Inr m"
  shows "message_valid m \<and> ModuleMessageHeaderLen + unat (BodyLen m) \<le> length b \<and>
    message_Encode m b = Inr (ModuleMessageHeaderLen, b)"
proof -
  from assms have "message_valid m" "40 + unat (BodyLen m) \<le> length b"
    unfolding DecodeModuleMessage_OK_iff by blast+
  then show ?thesis
    by (simp add: message_Encode_OK message_bytes_get_message [OF assms])
qed

theorem message_decode_sound_witness:
  "message_valid (zero_message\<lparr>Operation := 2, Status := 5, StageID := 1\<rparr>) \<and>
   ModuleMessageHeaderLen + unat (BodyLen (zero_message\<lparr>Operation := 2, Status := 5, StageID := 1\<rparr>))
     \<le> length (message_bytes (zero_message\<lparr>Operation := 2, Status := 5, StageID := 1\<rparr>) @ []) \<and>
   message_Encode (zero_message\<lparr>Operation := 2, Status := 5, StageID := 1\<rparr>)
     (message_bytes (zero_message\<lparr>Operation := 2, Status := 5, StageID := 1\<rparr>) @ []) =
   Inr (ModuleMessageHeaderLen,
     message_bytes (zero_message\<lparr>Operation := 2, Status := 5, StageID := 1\<rparr>) @ [])"
  by (rule message_decode_sound, rule DecodeModuleMessage_bytes)
    (simp_all add: message_valid_def zero_message_def)

end
