(* ===== verification/Ring.thy ===== *)
theory Ring
  imports Prelude
begin

text \<open>
  The single-producer single-consumer ring of \<open>server-go/bus/ring.go\<close>.

  A \<open>Ring\<close> is a view of a mapping: its Go field \<open>mem\<close> is a slice of a mapped region, here the
  offset \<open>ring_base\<close> and length \<open>ring_len\<close> of that slice. The operations take the region's
  bytes and return them updated. The abstract value of a ring is the list of the contents of
  its occupied slots, oldest first (\<open>ring_abs\<close>); \<open>spsc_queue\<close> is the queue contract the rest of the
  bus relies on, and the ring is shown to implement it, across the wrap-around of the
  64-bit head and tail counters.
\<close>

section \<open>Layout\<close>

definition ringMagic :: u32 where [simp]: "ringMagic = 0x474e4952"
definition ringOffMagic :: nat where [simp]: "ringOffMagic = 0"
definition ringOffSlot :: nat where [simp]: "ringOffSlot = 4"
definition ringOffCap :: nat where [simp]: "ringOffCap = 8"
definition ringOffMask :: nat where [simp]: "ringOffMask = 12"
definition ringOffSlots :: nat where [simp]: "ringOffSlots = 16"
definition ringOffHead :: nat where [simp]: "ringOffHead = 64"
definition ringOffTail :: nat where [simp]: "ringOffTail = 128"
definition ringHdrBytes :: nat where [simp]: "ringHdrBytes = 192"

record ring =
  ring_base :: nat     \<comment> \<open>where the slice \<open>mem\<close> starts in the region\<close>
  ring_len :: nat      \<comment> \<open>\<open>len(mem)\<close>\<close>
  ring_slotSize :: u32
  ring_capacity :: u32
  ring_mask :: u32
  ring_slotsOff :: u32

section \<open>Operations\<close>

definition ring_head :: "ring \<Rightarrow> mem \<Rightarrow> u64" where
  "ring_head r m = get_u64 m (ring_base r + ringOffHead)"

definition ring_tail :: "ring \<Rightarrow> mem \<Rightarrow> u64" where
  "ring_tail r m = get_u64 m (ring_base r + ringOffTail)"

definition AttachRing :: "mem \<Rightarrow> nat \<Rightarrow> bus_error + ring" where
  \<comment> \<open>\<open>AttachRing(m[base:])\<close>\<close>
  "AttachRing m base =
    (let mem = drop base m in
     if length mem < ringHdrBytes then Inl ErrRingLayout
     else if get_u32 mem ringOffMagic \<noteq> ringMagic then Inl ErrRingLayout
     else
       let slot = get_u32 mem ringOffSlot;
           capv = get_u32 mem ringOffCap;
           mask = get_u32 mem ringOffMask;
           slotsOff = get_u32 mem ringOffSlots
       in if capv < 2 \<or> capv AND (capv - 1) \<noteq> 0 \<or> slot = 0 \<or> mask \<noteq> capv - 1 \<or>
             slotsOff \<noteq> word_of_nat ringHdrBytes then Inl ErrRingLayout
          else if length mem < unat slotsOff + unat slot * unat capv then Inl ErrRingLayout
          else if get_u64 mem ringOffHead - get_u64 mem ringOffTail > ucast capv
            then Inl ErrRingLayout
          else Inr \<lparr>ring_base = base, ring_len = length mem, ring_slotSize = slot, ring_capacity = capv,
                 ring_mask = mask, ring_slotsOff = slotsOff\<rparr>)"

definition Count :: "ring \<Rightarrow> mem \<Rightarrow> u64" where
  "Count r m = ring_head r m - ring_tail r m"

definition slot_off :: "ring \<Rightarrow> u64 \<Rightarrow> nat" where
  \<comment> \<open>where \<open>r.slot(index)\<close> starts in the region\<close>
  "slot_off r index =
     ring_base r + (unat (ring_slotsOff r) + unat (index AND ucast (ring_mask r)) * unat (ring_slotSize r))"

definition slot :: "ring \<Rightarrow> mem \<Rightarrow> u64 \<Rightarrow> byte list" where
  \<comment> \<open>the bytes of \<open>r.slot(index)\<close>\<close>
  "slot r m index = slice m (slot_off r index) (unat (ring_slotSize r))"

definition ProduceBegin :: "ring \<Rightarrow> mem \<Rightarrow> nat option" where
  \<comment> \<open>the writable slot, as its offset in the region; \<open>None\<close> is \<open>nil\<close>\<close>
  "ProduceBegin r m =
    (let head = ring_head r m; tail = ring_tail r m
     in if head - tail \<ge> ucast (ring_capacity r) then None else Some (slot_off r head))"

definition ProduceCommit :: "ring \<Rightarrow> mem \<Rightarrow> mem" where
  "ProduceCommit r m = put_u64 m (ring_base r + ringOffHead) (ring_head r m + 1)"

definition ConsumeBegin :: "ring \<Rightarrow> mem \<Rightarrow> nat option" where
  "ConsumeBegin r m =
    (let tail = ring_tail r m; head = ring_head r m
     in if head = tail then None else Some (slot_off r tail))"

definition ConsumeCommit :: "ring \<Rightarrow> mem \<Rightarrow> mem" where
  "ConsumeCommit r m = put_u64 m (ring_base r + ringOffTail) (ring_tail r m + 1)"

definition initRing :: "mem \<Rightarrow> u32 \<Rightarrow> u32 \<Rightarrow> mem \<times> (bus_error + ring)" where
  \<comment> \<open>\<open>initRing(mem, slotSize, capacity)\<close>: \<open>mem\<close> afterwards, and the result\<close>
  "initRing m slot_size cap =
    (if cap < 2 \<or> cap AND (cap - 1) \<noteq> 0 \<or> slot_size = 0 then (m, Inl ErrRingLayout)
     else
       let need = ringHdrBytes + unat slot_size * unat cap
       in if length m < need then (m, Inl ErrRingLayout)
          else
            let m = splice m 0 (replicate need 0);
                m = put_u32 m ringOffSlot slot_size;
                m = put_u32 m ringOffCap cap;
                m = put_u32 m ringOffMask (cap - 1);
                m = put_u32 m ringOffSlots (word_of_nat ringHdrBytes);
                m = put_u64 m ringOffHead 0;
                m = put_u64 m ringOffTail 0;
                m = put_u32 m ringOffMagic ringMagic
            in (m, AttachRing m 0))"

section \<open>The ring invariant and its abstract value\<close>

definition ring_geom :: "ring \<Rightarrow> nat \<Rightarrow> bool" where
  \<comment> \<open>what \<open>AttachRing\<close> establishes about the view, for a region of \<open>n\<close> bytes\<close>
  "ring_geom r n \<longleftrightarrow>
     ring_base r + ring_len r = n \<and>
     unat (ring_capacity r) \<ge> 2 \<and> (\<exists>k. ring_capacity r = 2 ^ k \<and> k < 32) \<and>
     ring_mask r = ring_capacity r - 1 \<and> unat (ring_slotsOff r) = ringHdrBytes \<and> ring_slotSize r \<noteq> 0 \<and>
     ringHdrBytes + unat (ring_slotSize r) * unat (ring_capacity r) \<le> ring_len r"

definition ring_inv :: "ring \<Rightarrow> mem \<Rightarrow> bool" where
  "ring_inv r m \<longleftrightarrow> ring_geom r (length m) \<and> unat (Count r m) \<le> unat (ring_capacity r)"

definition ring_abs :: "ring \<Rightarrow> mem \<Rightarrow> byte list list" where
  "ring_abs r m =
     map (\<lambda>i. slot r m (ring_tail r m + word_of_nat i)) [0..<unat (Count r m)]"

section \<open>Slots and counters\<close>

text \<open>
  The facts below are about a view with a checked geometry over a region of the right size;
  they are collected in \<open>ring_simps\<close> for the proofs about the operations.
\<close>

named_theorems ring_simps \<open>counters and slots after a write to the ring\<close>

lemma ring_geom_bounds:
  assumes "ring_geom r n"
  shows "ring_base r + ringHdrBytes \<le> n" and "2 \<le> unat (ring_capacity r)"
    and "unat (ring_capacity r) < 2 ^ 32" and "0 < unat (ring_slotSize r)"
  using assms unsigned_less [of "ring_capacity r", where ?'a = nat]
  by (auto simp: ring_geom_def unat_gt_0)

lemma ring_cap_dvd:
  assumes "ring_geom r n"
  shows "unat (ring_capacity r) dvd 2 ^ 64"
proof -
  from assms obtain k where "ring_capacity r = 2 ^ k" "k < 32" by (auto simp: ring_geom_def)
  then have "unat (ring_capacity r) = 2 ^ k" by (simp add: unat_two_power)
  moreover have "(2 :: nat) ^ k dvd 2 ^ 64" using \<open>k < 32\<close> by (intro le_imp_power_dvd) simp
  ultimately show ?thesis by simp
qed

lemma slot_off_eq:
  assumes "ring_geom r n"
  shows "slot_off r i =
    ring_base r + ringHdrBytes + (unat i mod unat (ring_capacity r)) * unat (ring_slotSize r)"
proof -
  from assms obtain k where "ring_capacity r = 2 ^ k" "k < 32"
    and "ring_mask r = ring_capacity r - 1" "unat (ring_slotsOff r) = ringHdrBytes"
    by (auto simp: ring_geom_def)
  then show ?thesis
    using and_mask_index [of "ring_capacity r" k i] by (simp add: slot_off_def)
qed

lemma slot_off_bounds:
  assumes "ring_geom r n"
  shows "ring_base r + ringHdrBytes \<le> slot_off r i"
    and "slot_off r i + unat (ring_slotSize r) \<le> n"
proof -
  let ?c = "unat (ring_capacity r)" and ?s = "unat (ring_slotSize r)"
  have "Suc (unat i mod ?c) \<le> ?c"
    using ring_geom_bounds(2) [OF assms] by (simp add: Suc_leI)
  then have "Suc (unat i mod ?c) * ?s \<le> ?c * ?s" by (rule mult_le_mono1)
  then have "(unat i mod ?c) * ?s + ?s \<le> ?s * ?c" by (simp add: mult.commute)
  moreover have "ringHdrBytes + ?s * ?c \<le> ring_len r" "ring_base r + ring_len r = n"
    using assms by (simp_all add: ring_geom_def)
  ultimately show "slot_off r i + ?s \<le> n" by (simp add: slot_off_eq [OF assms])
  show "ring_base r + ringHdrBytes \<le> slot_off r i" by (simp add: slot_off_eq [OF assms])
qed

lemma index_shift:
  assumes "ring_geom r n"
  shows "unat (t + word_of_nat i :: u64) mod unat (ring_capacity r) =
    (unat t + i) mod unat (ring_capacity r)"
  using ring_cap_dvd [OF assms]
  by (simp add: unat_word_ariths unat_of_nat mod_mod_cancel mod_add_right_eq)

lemma slots_disjoint:
  assumes "ring_geom r n" and "i \<noteq> j" and "i < unat (ring_capacity r)" and "j < unat (ring_capacity r)"
  shows "slot_off r (t + word_of_nat i) + unat (ring_slotSize r) \<le> slot_off r (t + word_of_nat j) \<or>
    slot_off r (t + word_of_nat j) + unat (ring_slotSize r) \<le> slot_off r (t + word_of_nat i)"
proof -
  let ?c = "unat (ring_capacity r)" and ?s = "unat (ring_slotSize r)"
  let ?a = "(unat t + i) mod ?c" and ?b = "(unat t + j) mod ?c"
  have "?a \<noteq> ?b"
    using mod_shift_inj assms(2-4) by blast
  then have "Suc ?a * ?s \<le> ?b * ?s \<or> Suc ?b * ?s \<le> ?a * ?s"
    by (metis Suc_leI linorder_neqE_nat mult_le_mono1)
  then show ?thesis
    by (auto simp: slot_off_eq [OF assms(1)] index_shift [OF assms(1)])
qed

section \<open>The operations on the abstract value\<close>

lemma ring_inv_geom: "ring_inv r m \<Longrightarrow> ring_geom r (length m)"
  by (simp add: ring_inv_def)

lemma length_ring_abs [simp]: "length (ring_abs r m) = unat (Count r m)"
  by (simp add: ring_abs_def)

lemma length_slot:
  "ring_geom r (length m) \<Longrightarrow> length (slot r m i) = unat (ring_slotSize r)"
  unfolding slot_def by (rule length_slice) (rule slot_off_bounds(2))

lemma ring_abs_slots: "ring_inv r m \<Longrightarrow> x \<in> set (ring_abs r m) \<Longrightarrow> length x = unat (ring_slotSize r)"
  by (auto simp: ring_abs_def length_slot ring_inv_geom)

lemma tail_Count: "ring_tail r m + Count r m = ring_head r m"
  by (simp add: Count_def)

text \<open>Writes to a slot leave the counters and the other slots alone.\<close>

lemma counters_splice_slot [ring_simps]:
  assumes "ring_geom r (length m)" and "length xs \<le> unat (ring_slotSize r)"
  shows "ring_head r (splice m (slot_off r i) xs) = ring_head r m"
    and "ring_tail r (splice m (slot_off r i) xs) = ring_tail r m"
    and "Count r (splice m (slot_off r i) xs) = Count r m"
    and "length (splice m (slot_off r i) xs) = length m"
  using slot_off_bounds [OF assms(1), of i] assms(2)
  by (simp_all add: ring_head_def ring_tail_def Count_def mem_simps)

lemma slot_splice_other:
  assumes "ring_geom r (length m)" and "length xs \<le> unat (ring_slotSize r)"
    and "i \<noteq> j" and "i < unat (ring_capacity r)" and "j < unat (ring_capacity r)"
  shows "slot r (splice m (slot_off r (t + word_of_nat i)) xs) (t + word_of_nat j) =
    slot r m (t + word_of_nat j)"
  unfolding slot_def
  using slot_off_bounds(2) [OF assms(1), of "t + word_of_nat i"] assms(2)
    slots_disjoint [OF assms(1,3,4,5), of t]
  by (intro slice_splice_disjoint) auto

lemma ring_abs_write:
  assumes inv: "ring_inv r m" and room: "unat (Count r m) < unat (ring_capacity r)"
    and len: "length xs \<le> unat (ring_slotSize r)"
  shows "ring_abs r (splice m (slot_off r (ring_head r m)) xs) = ring_abs r m"
    and "ring_inv r (splice m (slot_off r (ring_head r m)) xs)"
proof -
  note g = ring_inv_geom [OF inv]
  have "slot r (splice m (slot_off r (ring_head r m)) xs) (ring_tail r m + word_of_nat i) =
      slot r m (ring_tail r m + word_of_nat i)" if "i < unat (Count r m)" for i
    using slot_splice_other [OF g len, of "unat (Count r m)" i "ring_tail r m"] that room
    by (simp add: tail_Count)
  then show "ring_abs r (splice m (slot_off r (ring_head r m)) xs) = ring_abs r m"
    by (simp add: ring_abs_def ring_simps g len)
  show "ring_inv r (splice m (slot_off r (ring_head r m)) xs)"
    using inv by (simp add: ring_inv_def ring_simps g len)
qed

text \<open>Moving a counter leaves the other counter and every slot alone.\<close>

lemma commit_frame [ring_simps]:
  assumes "ring_geom r (length m)"
  shows "ring_head r (ProduceCommit r m) = ring_head r m + 1"
    and "ring_tail r (ProduceCommit r m) = ring_tail r m"
    and "ring_head r (ConsumeCommit r m) = ring_head r m"
    and "ring_tail r (ConsumeCommit r m) = ring_tail r m + 1"
    and "length (ProduceCommit r m) = length m"
    and "length (ConsumeCommit r m) = length m"
    and "slot r (ProduceCommit r m) i = slot r m i"
    and "slot r (ConsumeCommit r m) i = slot r m i"
  using ring_geom_bounds(1) [OF assms] slot_off_bounds(1) [OF assms, of i]
  by (simp_all add: ring_head_def ring_tail_def slot_def ProduceCommit_def ConsumeCommit_def mem_simps)

lemma Count_commit:
  assumes "ring_inv r m"
  shows "unat (Count r m) < unat (ring_capacity r) \<Longrightarrow>
      unat (Count r (ProduceCommit r m)) = Suc (unat (Count r m))"
    and "0 < unat (Count r m) \<Longrightarrow>
      unat (Count r (ConsumeCommit r m)) = unat (Count r m) - 1"
proof -
  note g = ring_inv_geom [OF assms]
  have p: "Count r (ProduceCommit r m) = Count r m + 1"
    and c: "Count r (ConsumeCommit r m) = Count r m - 1"
    by (simp_all add: Count_def ring_simps g)
  show "unat (Count r (ProduceCommit r m)) = Suc (unat (Count r m))"
    if "unat (Count r m) < unat (ring_capacity r)"
    using that ring_geom_bounds(3) [OF g] unfolding p by (subst unat_add_no_wrap) auto
  show "unat (Count r (ConsumeCommit r m)) = unat (Count r m) - 1" if "0 < unat (Count r m)"
    using that unfolding c by (simp add: unat_minus_one unat_gt_0)
qed

lemma ring_inv_ProduceCommit:
  "ring_inv r m \<Longrightarrow> unat (Count r m) < unat (ring_capacity r) \<Longrightarrow> ring_inv r (ProduceCommit r m)"
  using Count_commit(1) [of r m] by (simp add: ring_inv_def ring_simps)

lemma ring_inv_ConsumeCommit:
  "ring_inv r m \<Longrightarrow> 0 < unat (Count r m) \<Longrightarrow> ring_inv r (ConsumeCommit r m)"
  using Count_commit(2) [of r m] by (auto simp add: ring_inv_def ring_simps)

lemma ring_abs_ProduceCommit:
  assumes "ring_inv r m" and "unat (Count r m) < unat (ring_capacity r)"
  shows "ring_abs r (ProduceCommit r m) = ring_abs r m @ [slot r m (ring_head r m)]"
  using Count_commit(1) [OF assms] ring_inv_geom [OF assms(1)]
  by (simp add: ring_abs_def ring_simps tail_Count)

lemma ring_abs_ConsumeCommit:
  assumes "ring_inv r m" and "0 < unat (Count r m)"
  shows "ring_abs r m = slot r m (ring_tail r m) # ring_abs r (ConsumeCommit r m)"
proof -
  note g = ring_inv_geom [OF assms(1)]
  obtain n where n: "unat (Count r m) = Suc n" using assms(2) by (auto dest: gr0_implies_Suc)
  have "[0..<Suc n] = 0 # map Suc [0..<n]" by (simp add: map_Suc_upt upt_conv_Cons)
  then show ?thesis
    using Count_commit(2) [OF assms]
    by (simp add: ring_abs_def n ring_simps g o_def add.assoc del: upt_Suc)
qed

lemma ConsumeCommit_tl:
  assumes "ring_inv r m" and "ring_abs r m \<noteq> []"
  shows "ring_abs r (ConsumeCommit r m) = tl (ring_abs r m)" and "ring_inv r (ConsumeCommit r m)"
    and "slot r m (ring_tail r m) = hd (ring_abs r m)"
proof -
  have "0 < unat (Count r m)" using assms(2) by (metis length_ring_abs length_greater_0_conv)
  note ring_abs_ConsumeCommit [OF assms(1) this] ring_inv_ConsumeCommit [OF assms(1) this]
  then show "ring_abs r (ConsumeCommit r m) = tl (ring_abs r m)" "ring_inv r (ConsumeCommit r m)"
    "slot r m (ring_tail r m) = hd (ring_abs r m)" by (metis list.sel)+
qed

lemma ProduceBegin_iff:
  assumes "ring_inv r m"
  shows "ProduceBegin r m =
    (if length (ring_abs r m) = unat (ring_capacity r) then None
     else Some (slot_off r (ring_head r m)))"
  using assms by (auto simp: ProduceBegin_def Let_def ring_inv_def word_le_nat_alt
      Count_def [symmetric])

lemma ConsumeBegin_iff:
  "ConsumeBegin r m = (if ring_abs r m = [] then None else Some (slot_off r (ring_tail r m)))"
  by (simp add: ConsumeBegin_def Let_def ring_abs_def Count_def unat_eq_0)

section \<open>Attaching\<close>

definition ring_header :: "ring \<Rightarrow> mem \<Rightarrow> bool" where
  \<comment> \<open>the header in the mapping announces the geometry of the view\<close>
  "ring_header r m \<longleftrightarrow>
     get_u32 m (ring_base r + ringOffMagic) = ringMagic \<and>
     get_u32 m (ring_base r + ringOffSlot) = ring_slotSize r \<and>
     get_u32 m (ring_base r + ringOffCap) = ring_capacity r \<and>
     get_u32 m (ring_base r + ringOffMask) = ring_mask r \<and>
     get_u32 m (ring_base r + ringOffSlots) = ring_slotsOff r"

lemma unat_192_iff: "unat (w :: u32) = 192 \<longleftrightarrow> w = 192"
  by (simp add: word_unat_eq_iff)

lemma power_of_two_iff:
  fixes c :: u32
  shows "\<not> c < 2 \<and> c AND (c - 1) = 0 \<longleftrightarrow> 2 \<le> unat c \<and> (\<exists>k. c = 2 ^ k \<and> k < 32)"
proof
  assume c: "\<not> c < 2 \<and> c AND (c - 1) = 0"
  then have "c \<noteq> 0" by auto
  with c word_pow2 [of c] show "2 \<le> unat c \<and> (\<exists>k. c = 2 ^ k \<and> k < 32)"
    by (auto simp: word_less_nat_alt not_less)
next
  assume "2 \<le> unat c \<and> (\<exists>k. c = 2 ^ k \<and> k < 32)"
  then obtain k where k: "2 \<le> unat c" "c = 2 ^ k" by blast
  have "c - 1 = mask k" by (simp add: k(2) mask_eq_exp_minus_1)
  then have "c AND (c - 1) = take_bit k c" by (simp add: take_bit_eq_mask)
  also have "\<dots> = 0" by (simp add: k(2) take_bit_eq_mod)
  finally have "c AND (c - 1) = 0" .
  with k show "\<not> c < 2 \<and> c AND (c - 1) = 0" by (simp add: word_less_nat_alt)
qed

lemma AttachRing_iff:
  "AttachRing m base = Inr r \<longleftrightarrow> ring_base r = base \<and> ring_header r m \<and> ring_inv r m"
proof -
  let ?slot = "get_u32 m (base + 4)" and ?cap = "get_u32 m (base + 8)"
    and ?count = "get_u64 m (base + 64) - get_u64 m (base + 128)"
  have "AttachRing m base = Inr r \<longleftrightarrow>
    192 \<le> length m - base \<and> get_u32 m base = ringMagic \<and>
    (\<not> ?cap < 2 \<and> ?cap AND (?cap - 1) = 0) \<and> ?slot \<noteq> 0 \<and>
    get_u32 m (base + 12) = ?cap - 1 \<and> get_u32 m (base + 16) = 192 \<and>
    192 + unat ?slot * unat ?cap \<le> length m - base \<and> unat ?count \<le> unat ?cap \<and>
    r = \<lparr>ring_base = base, ring_len = length m - base, ring_slotSize = ?slot,
      ring_capacity = ?cap, ring_mask = ?cap - 1, ring_slotsOff = 192\<rparr>"
    by (auto simp: AttachRing_def Let_def mem_simps word_less_nat_alt not_less)
  also have "\<dots> \<longleftrightarrow> ring_base r = base \<and> ring_header r m \<and> ring_inv r m"
    unfolding power_of_two_iff
    by (cases r) (auto simp: ring_header_def ring_inv_def ring_geom_def Count_def ring_head_def
        ring_tail_def unat_192_iff)
  finally show ?thesis .
qed

section \<open>The queue contract\<close>

text \<open>
  What the clients of a ring rely on: a bounded first-in first-out queue. \<open>run_queue\<close> executes
  a sequence of operations and collects what each of them reports; \<open>list_enq\<close> and
  \<open>list_deq\<close> are the reference queue on lists.
\<close>

datatype 'a queue_op = Enq 'a | Deq
datatype 'a queue_out = Enqueued | Full | Dequeued 'a | Empty

fun run_queue :: "('a \<Rightarrow> 's \<Rightarrow> 's option) \<Rightarrow> ('s \<Rightarrow> ('a \<times> 's) option) \<Rightarrow> 's \<Rightarrow>
    'a queue_op list \<Rightarrow> 'a queue_out list \<times> 's" where
  "run_queue enq deq s [] = ([], s)"
| "run_queue enq deq s (Enq x # ops) =
     (case enq x s of
        None \<Rightarrow> (let (os, s') = run_queue enq deq s ops in (Full # os, s'))
      | Some t \<Rightarrow> (let (os, s') = run_queue enq deq t ops in (Enqueued # os, s')))"
| "run_queue enq deq s (Deq # ops) =
     (case deq s of
        None \<Rightarrow> (let (os, s') = run_queue enq deq s ops in (Empty # os, s'))
      | Some (x, t) \<Rightarrow> (let (os, s') = run_queue enq deq t ops in (Dequeued x # os, s')))"

definition list_enq :: "nat \<Rightarrow> 'a \<Rightarrow> 'a list \<Rightarrow> 'a list option" where
  "list_enq c x xs = (if length xs < c then Some (xs @ [x]) else None)"

lemma list_enq_full: "length xs = c \<Longrightarrow> list_enq c x xs = None"
  and list_enq_room: "length xs < c \<Longrightarrow> list_enq c x xs = Some (xs @ [x])"
  by (simp_all add: list_enq_def)

fun list_deq :: "'a list \<Rightarrow> ('a \<times> 'a list) option" where
  "list_deq [] = None"
| "list_deq (x # xs) = Some (x, xs)"

definition enq_args :: "'a queue_op list \<Rightarrow> 'a set" where
  "enq_args ops = {x. Enq x \<in> set ops}"

lemma enq_args_Cons [simp]:
  "enq_args (Enq x # ops) = insert x (enq_args ops)" "enq_args (Deq # ops) = enq_args ops"
  by (auto simp: enq_args_def)

locale spsc_queue =
  fixes inv :: "'s \<Rightarrow> bool" and abs :: "'s \<Rightarrow> 'a list" and cap :: "'s \<Rightarrow> nat"
    and fits :: "'s \<Rightarrow> 'a \<Rightarrow> bool"
    and enq :: "'a \<Rightarrow> 's \<Rightarrow> 's option" and deq :: "'s \<Rightarrow> ('a \<times> 's) option"
  assumes bounded: "inv s \<Longrightarrow> length (abs s) \<le> cap s"
    and enq_full: "inv s \<Longrightarrow> length (abs s) = cap s \<Longrightarrow> enq x s = None"
    and enq_room: "inv s \<Longrightarrow> fits s x \<Longrightarrow> length (abs s) < cap s \<Longrightarrow>
      \<exists>t. enq x s = Some t \<and> inv t \<and> abs t = abs s @ [x] \<and> cap t = cap s \<and> fits t = fits s"
    and deq_empty: "inv s \<Longrightarrow> abs s = [] \<Longrightarrow> deq s = None"
    and deq_first: "inv s \<Longrightarrow> abs s = x # xs \<Longrightarrow>
      \<exists>t. deq s = Some (x, t) \<and> inv t \<and> abs t = xs \<and> cap t = cap s \<and> fits t = fits s"
begin

lemma run_refines:
  "inv s \<Longrightarrow> \<forall>x \<in> enq_args ops. fits s x \<Longrightarrow>
    fst (run_queue enq deq s ops) = fst (run_queue (list_enq (cap s)) list_deq (abs s) ops) \<and>
    inv (snd (run_queue enq deq s ops)) \<and>
    abs (snd (run_queue enq deq s ops)) =
      snd (run_queue (list_enq (cap s)) list_deq (abs s) ops)"
proof (induction ops arbitrary: s)
  case (Cons op ops)
  show ?case
  proof (cases op)
    case (Enq x)
    show ?thesis
    proof (cases "length (abs s) = cap s")
      case True
      with Cons.IH [of s] Cons.prems Enq enq_full [of s x] show ?thesis
        by (simp add: list_enq_full case_prod_beta Let_def)
    next
      case False
      with Cons.prems bounded have "length (abs s) < cap s" by (simp add: le_neq_trans)
      moreover obtain t where "enq x s = Some t" "inv t" "abs t = abs s @ [x]" "cap t = cap s"
        "fits t = fits s"
        using enq_room [of s x] Cons.prems Enq calculation by auto
      ultimately show ?thesis
        using Cons.IH [of t] Cons.prems Enq by (simp add: list_enq_room case_prod_beta Let_def)
    qed
  next
    case Deq
    show ?thesis
    proof (cases "abs s")
      case Nil
      with Cons.IH [of s] Cons.prems Deq deq_empty [of s] show ?thesis
        by (simp add: case_prod_beta Let_def)
    next
      case (Cons y ys)
      with deq_first [of s y ys] Cons.prems obtain t where "deq s = Some (y, t)" "inv t"
        "abs t = ys" "cap t = cap s" "fits t = fits s" by auto
      with Cons.IH [of t] Cons.prems Deq Cons show ?thesis
        by (simp add: case_prod_beta Let_def)
    qed
  qed
qed simp

end

text \<open>
  A push is what \<open>emit\<close> does with the outbound ring and a pop what \<open>Poll\<close> does with the
  inbound one: begin, access the slot, commit.
\<close>

definition ring_push :: "byte list \<Rightarrow> ring \<times> mem \<Rightarrow> (ring \<times> mem) option" where
  "ring_push x s =
    (case s of (r, m) \<Rightarrow>
      (case ProduceBegin r m of None \<Rightarrow> None
       | Some off \<Rightarrow> Some (r, ProduceCommit r (splice m off x))))"

definition ring_pop :: "ring \<times> mem \<Rightarrow> (byte list \<times> ring \<times> mem) option" where
  "ring_pop s =
    (case s of (r, m) \<Rightarrow>
      (case ConsumeBegin r m of None \<Rightarrow> None
       | Some off \<Rightarrow> Some (slice m off (unat (ring_slotSize r)), r, ConsumeCommit r m)))"

lemma slot_write_head:
  assumes "ring_geom r (length m)" and "length x = unat (ring_slotSize r)"
  shows "slot r (splice m (slot_off r i) x) i = x"
  using slot_off_bounds(2) [OF assms(1), of i] assms(2)
  by (simp add: slot_def slice_splice_same)

interpretation ringq: spsc_queue "\<lambda>(r, m). ring_inv r m" "\<lambda>(r, m). ring_abs r m"
  "\<lambda>(r, m). unat (ring_capacity r)" "\<lambda>(r, m) x. length x = unat (ring_slotSize r)"
  ring_push ring_pop
proof (unfold_locales; (unfold case_prod_beta)?)
  fix s :: "ring \<times> mem" and x :: "byte list"
  assume inv: "ring_inv (fst s) (snd s)" and fits: "length x = unat (ring_slotSize (fst s))"
    and room: "length (ring_abs (fst s) (snd s)) < unat (ring_capacity (fst s))"
  obtain r m where s: "s = (r, m)" by (cases s)
  note inv = inv [unfolded s, simplified] and room = room [unfolded s, simplified]
    and fits = fits [unfolded s, simplified]
  note g = ring_inv_geom [OF inv]
  define w where "w = splice m (slot_off r (ring_head r m)) x"
  have w: "ring_abs r w = ring_abs r m" "ring_inv r w" "Count r w = Count r m"
    "ring_head r w = ring_head r m"
    using ring_abs_write [OF inv room, of x] fits g by (simp_all add: w_def ring_simps)
  have "ring_abs r (ProduceCommit r w) = ring_abs r m @ [x]"
    using ring_abs_ProduceCommit [OF w(2)] room w slot_write_head [OF g fits]
    by (simp add: w_def)
  moreover have "ring_inv r (ProduceCommit r w)"
    using ring_inv_ProduceCommit [OF w(2)] room w by simp
  moreover have "ring_push x s = Some (r, ProduceCommit r w)"
    using ProduceBegin_iff [OF inv] room by (simp add: ring_push_def s w_def)
  ultimately show "\<exists>t. ring_push x s = Some t \<and> ring_inv (fst t) (snd t) \<and>
      ring_abs (fst t) (snd t) = ring_abs (fst s) (snd s) @ [x] \<and>
      unat (ring_capacity (fst t)) = unat (ring_capacity (fst s)) \<and>
      (\<lambda>x. length x = unat (ring_slotSize (fst t))) = (\<lambda>x. length x = unat (ring_slotSize (fst s)))"
    by (simp add: s)
next
  fix s :: "ring \<times> mem" and x :: "byte list" and xs
  assume inv: "ring_inv (fst s) (snd s)" and abs: "ring_abs (fst s) (snd s) = x # xs"
  obtain r m where s: "s = (r, m)" by (cases s)
  note inv = inv [unfolded s, simplified] and abs = abs [unfolded s, simplified]
  have "0 < unat (Count r m)" using abs by (metis length_ring_abs length_greater_0_conv list.simps(3))
  note pop = ring_abs_ConsumeCommit [OF inv this] ring_inv_ConsumeCommit [OF inv this]
  then show "\<exists>t. ring_pop s = Some (x, t) \<and> ring_inv (fst t) (snd t) \<and>
      ring_abs (fst t) (snd t) = xs \<and>
      unat (ring_capacity (fst t)) = unat (ring_capacity (fst s)) \<and>
      (\<lambda>x. length x = unat (ring_slotSize (fst t))) = (\<lambda>x. length x = unat (ring_slotSize (fst s)))"
    using abs by (simp add: ring_pop_def s ConsumeBegin_iff slot_def)
qed (auto simp: ring_inv_def ring_push_def ring_pop_def ProduceBegin_iff ConsumeBegin_iff)

section \<open>A fresh ring\<close>

lemma initRing_memory:
  assumes "\<not> (cap < 2 \<or> cap AND (cap - 1) \<noteq> 0 \<or> slot_size = 0)"
    and "192 + unat slot_size * unat cap \<le> length m"
  shows "\<exists>m'. initRing m slot_size cap = (m', AttachRing m' 0) \<and> length m' = length m \<and>
    get_u32 m' 0 = ringMagic \<and> get_u32 m' 4 = slot_size \<and> get_u32 m' 8 = cap \<and>
    get_u32 m' 12 = cap - 1 \<and> get_u32 m' 16 = 192 \<and> get_u64 m' 64 = 0 \<and> get_u64 m' 128 = 0"
proof -
  define z where "z = splice m 0 (replicate (192 + unat slot_size * unat cap) 0)"
  have z: "length z = length m" "192 \<le> length z"
    using assms(2) by (simp_all add: z_def length_splice)
  define m' where "m' = put_u32 (put_u64 (put_u64 (put_u32 (put_u32 (put_u32 (put_u32 z 4 slot_size)
    8 cap) 12 (cap - 1)) 16 192) 64 0) 128 0) 0 ringMagic"
  have "initRing m slot_size cap = (m', AttachRing m' 0)"
    using assms unfolding initRing_def by (simp add: Let_def z_def m'_def)
  moreover have "length m' = length m" using z by (simp add: m'_def mem_simps)
  ultimately show ?thesis using z by (intro exI [of _ m']) (simp add: m'_def mem_simps)
qed

lemma initRing_fresh:
  assumes "2 \<le> unat cap" and "cap AND (cap - 1) = 0" and "slot_size \<noteq> 0"
    and "192 + unat slot_size * unat cap \<le> length m"
  shows "\<exists>m' r. initRing m slot_size cap = (m', Inr r) \<and> length m' = length m \<and>
    AttachRing m' 0 = Inr r \<and>
    ring_inv r m' \<and> ring_abs r m' = [] \<and> ring_capacity r = cap \<and> ring_slotSize r = slot_size"
proof -
  from assms have c: "\<not> (cap < 2 \<or> cap AND (cap - 1) \<noteq> 0 \<or> slot_size = 0)"
    by (simp add: word_less_nat_alt)
  from initRing_memory [OF c assms(4)] obtain m' where m': "initRing m slot_size cap = (m', AttachRing m' 0)"
    "length m' = length m" and h: "get_u32 m' 0 = ringMagic" "get_u32 m' 4 = slot_size"
    "get_u32 m' 8 = cap" "get_u32 m' 12 = cap - 1" "get_u32 m' 16 = 192" "get_u64 m' 64 = 0"
    "get_u64 m' 128 = 0" by blast
  define r where "r = \<lparr>ring_base = 0, ring_len = length m', ring_slotSize = slot_size,
    ring_capacity = cap, ring_mask = cap - 1, ring_slotsOff = 192\<rparr>"
  have cnt: "Count r m' = 0" by (simp add: Count_def ring_head_def ring_tail_def r_def h)
  then have "ring_inv r m'" using assms m' power_of_two_iff [of cap] c
    by (auto simp: ring_inv_def ring_geom_def r_def)
  moreover have "ring_header r m'" by (simp add: ring_header_def r_def h [simplified])
  moreover have "ring_base r = 0" by (simp add: r_def)
  ultimately have a: "AttachRing m' 0 = Inr r" by (simp add: AttachRing_iff)
  have "ring_abs r m' = []" by (simp add: ring_abs_def cnt)
  with a m' \<open>ring_inv r m'\<close> show ?thesis by (auto simp: r_def)
qed

lemma small_ring: "\<exists>m r. AttachRing m 0 = Inr r \<and> ring_abs r m = [] \<and>
    ring_capacity r = 2 \<and> ring_slotSize r = 3"
  using initRing_fresh [of 2 3 "replicate 256 0"] by fastforce

lemma ring_push_view: "ring_push x s = Some t \<Longrightarrow> fst t = fst s"
  by (auto simp: ring_push_def split: option.splits prod.splits)

lemma ring_pop_view: "ring_pop s = Some (x, t) \<Longrightarrow> fst t = fst s"
  by (auto simp: ring_pop_def split: option.splits prod.splits)

lemma run_ring_view: "fst (snd (run_queue ring_push ring_pop s ops)) = fst s"
proof (induction ops arbitrary: s)
  case (Cons op ops)
  then show ?case
    by (cases op) (auto simp: case_prod_beta Let_def ring_push_view split: option.splits dest: ring_pop_view)
qed simp

section \<open>Properties of the ring\<close>

text \<open>
  C32. \<open>AttachRing\<close> adopts a mapping exactly when its header announces a consistent ring: the
  view it returns describes the header, its capacity is a power of two of at least two
  slots, all slots lie inside the bytes actually mapped, and the counters claim no more
  occupied slots than there are.
\<close>

theorem AttachRing_spec:
  "AttachRing m base = Inr r \<longleftrightarrow> ring_base r = base \<and> ring_header r m \<and> ring_inv r m"
  by (rule AttachRing_iff)

text \<open>No slot access leaves the mapping: whatever values the other side later writes to the
  counters, the slot of any index of an attached ring lies behind the ring header and inside
  the mapped region, so \<open>r.mem[off : off+slotSize]\<close> never panics.
\<close>

theorem ring_slot_in_bounds:
  assumes "AttachRing m base = Inr r"
  shows "base + ringHdrBytes \<le> slot_off r i \<and>
    slot_off r i + unat (ring_slotSize r) \<le> length m"
proof -
  from assms have "ring_geom r (length m)" and "ring_base r = base"
    by (simp_all add: AttachRing_iff ring_inv_geom)
  then show ?thesis using slot_off_bounds [of r "length m" i] by simp
qed

theorem ring_slot_in_bounds_witness:
  "\<exists>m r. AttachRing m 0 = Inr r \<and>
    0 + ringHdrBytes \<le> slot_off r 5 \<and> slot_off r 5 + unat (ring_slotSize r) \<le> length m"
  using small_ring ring_slot_in_bounds [where base = 0 and i = 5] by meson

text \<open>
  C5. The ring implements a bounded queue: started from any attached ring, with its 64-bit
  counters anywhere (their wrap-around included), every sequence of pushes and pops reports
  exactly what the reference list queue of that capacity reports, keeps the ring invariant,
  and ends in the corresponding abstract value.
\<close>

theorem ring_refines_queue:
  assumes "AttachRing m base = Inr r" and "\<forall>x \<in> enq_args ops. length x = unat (ring_slotSize r)"
  shows "\<exists>m' outs. run_queue ring_push ring_pop (r, m) ops = (outs, r, m') \<and> ring_inv r m' \<and>
    run_queue (list_enq (unat (ring_capacity r))) list_deq (ring_abs r m) ops = (outs, ring_abs r m')"
proof -
  have "case snd (run_queue ring_push ring_pop (r, m) ops) of (r, m) \<Rightarrow> ring_inv r m"
    using ringq.run_refines [of "(r, m)" ops] assms by (simp add: AttachRing_iff)
  then show ?thesis
    using ringq.run_refines [of "(r, m)" ops] assms run_ring_view [of "(r, m)" ops]
    by (cases "run_queue ring_push ring_pop (r, m) ops") (auto simp: AttachRing_iff prod_eq_iff)
qed

theorem ring_refines_queue_witness:
  "\<exists>m r m'. AttachRing m 0 = Inr r \<and>
    run_queue ring_push ring_pop (r, m) [Deq, Enq [1, 2, 3], Enq [4, 5, 6], Enq [7, 8, 9], Deq] =
      ([Empty, Enqueued, Enqueued, Full, Dequeued [1, 2, 3]], r, m')"
proof -
  let ?ops = "[Deq, Enq [1, 2, 3], Enq [4, 5, 6], Enq [7, 8, 9], Deq] :: byte list queue_op list"
  obtain m r where r: "AttachRing m 0 = Inr r" "ring_abs r m = []" "ring_capacity r = 2"
    "ring_slotSize r = 3" using small_ring by blast
  then have "\<forall>x \<in> enq_args ?ops. length x = unat (ring_slotSize r)" by (simp add: enq_args_def)
  from ring_refines_queue [OF r(1) this]
  obtain m' outs where run: "run_queue ring_push ring_pop (r, m) ?ops = (outs, r, m')"
    and "run_queue (list_enq 2) list_deq [] ?ops = (outs, ring_abs r m')"
    unfolding r by auto
  then have "outs = [Empty, Enqueued, Enqueued, Full, Dequeued [1, 2, 3]]"
    by (simp add: list_enq_def)
  with r(1) run show ?thesis by blast
qed

text \<open>\<open>initRing\<close> lays out an empty ring: given a power-of-two capacity of at least two, a
  non-zero slot size and enough memory, it succeeds with the requested geometry, nothing
  queued, and a memory of the same length.
\<close>

theorem initRing_empty:
  assumes "2 \<le> unat cap" and "cap AND (cap - 1) = 0" and "slot_size \<noteq> 0"
    and "ringHdrBytes + unat slot_size * unat cap \<le> length m"
  shows "\<exists>m' r. initRing m slot_size cap = (m', Inr r) \<and> length m' = length m \<and>
    ring_inv r m' \<and> ring_abs r m' = [] \<and> ring_capacity r = cap \<and> ring_slotSize r = slot_size"
  using initRing_fresh [of cap slot_size m] assms by simp blast

theorem initRing_empty_witness:
  "\<exists>m' r. initRing (replicate 320 9) 32 4 = (m', Inr r) \<and> length m' = length (replicate 320 (9 :: byte)) \<and>
    ring_inv r m' \<and> ring_abs r m' = [] \<and> ring_capacity r = 4 \<and> ring_slotSize r = 32"
  by (rule initRing_empty) simp_all

end
