(* ===== verification/Region.thy ===== *)
theory Region
  imports Ring
begin

text \<open>
  The mapped regions of \<open>server-go/bus/region.go\<close>: the read-only control region and the
  queue-pair region, which holds the client's inbound and outbound rings, and the layout
  \<open>qpairBytes\<close> of \<open>client.go\<close>. A view of a region is the region's bytes; \<open>AttachControl\<close> and
  \<open>AttachQueuePair\<close> check the headers. The frame lemmas say when an operation on one ring
  leaves the other one alone.
\<close>

section \<open>The control region\<close>

definition ctlMagic :: u32 where [simp]: "ctlMagic = 0x4c544342"
definition ctlOffMagic :: nat where [simp]: "ctlOffMagic = 0"
definition ctlOffSpec :: nat where [simp]: "ctlOffSpec = 4"
definition ctlOffLayout :: nat where [simp]: "ctlOffLayout = 8"
definition ctlOffSlot :: nat where [simp]: "ctlOffSlot = 16"
definition ctlOffInline :: nat where [simp]: "ctlOffInline = 20"
definition ctlOffQueueCap :: nat where [simp]: "ctlOffQueueCap = 24"
definition ctlOffArena :: nat where [simp]: "ctlOffArena = 32"
definition ctlOffEpoch :: nat where [simp]: "ctlOffEpoch = 40"
definition ctlBytes :: nat where [simp]: "ctlBytes = 96"
definition specVersion :: u32 where [simp]: "specVersion = 1"
definition layoutVersion :: u32 where [simp]: "layoutVersion = 1"

definition AttachControl :: "mem \<Rightarrow> bus_error + unit" where
  \<comment> \<open>the view it returns is the mapping itself\<close>
  "AttachControl m =
    (if length m < ctlBytes then Inl ErrRegion
     else if get_u32 m ctlOffMagic \<noteq> ctlMagic then Inl ErrRegion
     else if get_u32 m ctlOffSpec \<noteq> specVersion \<or> get_u32 m ctlOffLayout \<noteq> layoutVersion
       then Inl ErrRegion
     else
       let slot = get_u32 m ctlOffSlot; inl = get_u32 m ctlOffInline; arena = get_u64 m ctlOffArena
       in if slot = 0 \<or> inl > slot \<or> arena = 0 then Inl ErrRegion else Inr ())"

definition ControlSlotSize :: "mem \<Rightarrow> u32" where "ControlSlotSize m = get_u32 m ctlOffSlot"
definition ControlInlineBudget :: "mem \<Rightarrow> u32" where "ControlInlineBudget m = get_u32 m ctlOffInline"
definition ControlQueueCapacity :: "mem \<Rightarrow> u32" where
  "ControlQueueCapacity m = get_u32 m ctlOffQueueCap"
definition ControlArenaSize :: "mem \<Rightarrow> u64" where "ControlArenaSize m = get_u64 m ctlOffArena"
definition Epoch :: "mem \<Rightarrow> u64" where "Epoch m = get_u64 m ctlOffEpoch"

section \<open>The queue-pair region\<close>

definition qpMagic :: u32 where [simp]: "qpMagic = 0x52504251"
definition qpOffMagic :: nat where [simp]: "qpOffMagic = 0"
definition qpOffCtlLost :: nat where [simp]: "qpOffCtlLost = 20"
definition qpOffInboundOff :: nat where [simp]: "qpOffInboundOff = 24"
definition qpOffOutboundOff :: nat where [simp]: "qpOffOutboundOff = 28"
definition qpOffHeartbeat :: nat where [simp]: "qpOffHeartbeat = 32"
definition qpBytes :: nat where [simp]: "qpBytes = 96"

record queue_pair =
  Inbound :: ring
  Outbound :: ring

definition AttachQueuePair :: "mem \<Rightarrow> bus_error + queue_pair" where
  "AttachQueuePair m =
    (if length m < qpBytes then Inl ErrRegion
     else if get_u32 m qpOffMagic \<noteq> qpMagic then Inl ErrRegion
     else
       let inOff = get_u32 m qpOffInboundOff; outOff = get_u32 m qpOffOutboundOff
       in if unat inOff \<ge> length m \<or> unat outOff \<ge> length m \<or> inOff = outOff then Inl ErrRegion
          else case AttachRing m (unat inOff) of
            Inl e \<Rightarrow> Inl e
          | Inr inbound \<Rightarrow>
              (case AttachRing m (unat outOff) of
                 Inl e \<Rightarrow> Inl e
               | Inr outbound \<Rightarrow> Inr \<lparr>Inbound = inbound, Outbound = outbound\<rparr>))"

definition qpControlLost :: "mem \<Rightarrow> bool" where
  "qpControlLost m \<longleftrightarrow> get_u32 m qpOffCtlLost \<noteq> 0"

definition SetHeartbeat :: "mem \<Rightarrow> u64 \<Rightarrow> mem" where
  "SetHeartbeat m now = put_u64 m qpOffHeartbeat now"

section \<open>The layout of the queue-pair region\<close>

text \<open>Go's \<open>int\<close> is 64 bits wide and wraps around: the layout is computed on 64-bit words.\<close>

definition align64 :: "u64 \<Rightarrow> u64" where
  "align64 n = (n + 63) AND NOT 63"

definition qpairBytes :: "u32 \<Rightarrow> u32 \<Rightarrow> int" where
  "qpairBytes slotSize capacity =
    (let ring = word_of_nat ringHdrBytes + ucast slotSize * ucast capacity;
         inOff = align64 (word_of_nat qpBytes);
         outOff = align64 (inOff + ring)
     in sint (outOff + ring))"

section \<open>Which bytes a ring consists of\<close>

definition ring_extent :: "ring \<Rightarrow> nat" where
  "ring_extent r = ringHdrBytes + unat (ring_slotSize r) * unat (ring_capacity r)"

definition ring_bytes :: "ring \<Rightarrow> mem \<Rightarrow> byte list" where
  "ring_bytes r m = slice m (ring_base r) (ring_extent r)"

definition rings_disjoint :: "ring \<Rightarrow> ring \<Rightarrow> bool" where
  "rings_disjoint r q \<longleftrightarrow>
     ring_base r + ring_extent r \<le> ring_base q \<or> ring_base q + ring_extent q \<le> ring_base r"

lemma rings_disjoint_sym: "rings_disjoint r q \<Longrightarrow> rings_disjoint q r"
  by (auto simp: rings_disjoint_def)

lemma slot_off_extent:
  assumes "ring_geom r n"
  shows "slot_off r i + unat (ring_slotSize r) \<le> ring_base r + ring_extent r"
proof -
  let ?c = "unat (ring_capacity r)" and ?s = "unat (ring_slotSize r)"
  have "Suc (unat i mod ?c) \<le> ?c"
    using ring_geom_bounds(2) [OF assms] by (simp add: Suc_leI)
  then have "Suc (unat i mod ?c) * ?s \<le> ?c * ?s" by (rule mult_le_mono1)
  then show ?thesis by (simp add: slot_off_eq [OF assms] ring_extent_def mult.commute)
qed

lemma sub_slice_eq:
  assumes "slice m b n = slice m' b n" and "b \<le> p" and "p + k \<le> b + n"
  shows "slice m p k = slice m' p k"
proof -
  have "slice m p k = slice (slice m b n) (p - b) k"
    using assms(2,3) by (simp add: slice_slice)
  also have "\<dots> = slice m' p k"
    using assms(2,3) by (simp add: assms(1) slice_slice)
  finally show ?thesis .
qed

lemma ring_agree:
  assumes "ring_bytes r m = ring_bytes r m'" and "length m = length m'"
    and "ring_geom r (length m)"
  shows "ring_head r m = ring_head r m'" and "ring_tail r m = ring_tail r m'"
    and "slot r m i = slot r m' i" and "ring_abs r m = ring_abs r m'"
    and "ring_inv r m = ring_inv r m'"
proof -
  have sub: "slice m p k = slice m' p k"
    if "ring_base r \<le> p" "p + k \<le> ring_base r + ring_extent r" for p k
    using sub_slice_eq [OF assms(1) [unfolded ring_bytes_def] that] .
  show h: "ring_head r m = ring_head r m'" and t: "ring_tail r m = ring_tail r m'"
    unfolding ring_head_def ring_tail_def
    by (rule get_u64_slice_cong, rule sub; simp add: ring_extent_def)+
  have s: "slot r m i = slot r m' i" for i
    unfolding slot_def
    using slot_off_extent [OF assms(3)] slot_off_bounds(1) [OF assms(3), of i]
    by (intro sub) auto
  show "slot r m i = slot r m' i" by (rule s)
  show "ring_abs r m = ring_abs r m'" by (simp add: ring_abs_def Count_def h t s)
  show "ring_inv r m = ring_inv r m'" by (simp add: ring_inv_def Count_def h t assms(2))
qed

text \<open>Writes inside one ring keep the bytes of a disjoint one.\<close>

lemma ring_bytes_write:
  assumes "rings_disjoint r q" and "ring_geom r (length m)" and "ring_geom q (length m)"
    and "length xs \<le> unat (ring_slotSize r)"
  shows "ring_bytes q (splice m (slot_off r i) xs) = ring_bytes q m"
  unfolding ring_bytes_def
  using slot_off_extent [OF assms(2), of i] slot_off_bounds [OF assms(2), of i] assms(1,4)
  by (intro slice_splice_disjoint) (auto simp: rings_disjoint_def)

lemma ring_bytes_commit:
  assumes "rings_disjoint r q" and "ring_geom r (length m)"
  shows "ring_bytes q (ProduceCommit r m) = ring_bytes q m"
    and "ring_bytes q (ConsumeCommit r m) = ring_bytes q m"
  using ring_geom_bounds(1) [OF assms(2)] assms(1)
  by (auto simp: ring_bytes_def ProduceCommit_def ConsumeCommit_def rings_disjoint_def
      ring_extent_def intro!: slice_put_u64)

section \<open>Attaching\<close>

lemma AttachControl_iff:
  "AttachControl m = Inr u \<longleftrightarrow>
    ctlBytes \<le> length m \<and> get_u32 m ctlOffMagic = ctlMagic \<and> get_u32 m ctlOffSpec = specVersion \<and>
    get_u32 m ctlOffLayout = layoutVersion \<and> 0 < unat (ControlSlotSize m) \<and>
    unat (ControlInlineBudget m) \<le> unat (ControlSlotSize m) \<and> 0 < unat (ControlArenaSize m)"
  by (auto simp: AttachControl_def Let_def ControlSlotSize_def ControlInlineBudget_def
      ControlArenaSize_def word_less_nat_alt unat_gt_0 not_less)

lemma AttachQueuePair_iff:
  "AttachQueuePair m = Inr q \<longleftrightarrow>
    qpBytes \<le> length m \<and> get_u32 m qpOffMagic = qpMagic \<and>
    ring_base (Inbound q) = unat (get_u32 m qpOffInboundOff) \<and>
    ring_base (Outbound q) = unat (get_u32 m qpOffOutboundOff) \<and>
    ring_base (Inbound q) \<noteq> ring_base (Outbound q) \<and>
    ring_header (Inbound q) m \<and> ring_inv (Inbound q) m \<and>
    ring_header (Outbound q) m \<and> ring_inv (Outbound q) m"
proof -
  have "ring_inv r m \<Longrightarrow> ring_base r < length m" for r
    using ring_geom_bounds(1) [of r "length m"] by (simp add: ring_inv_def)
  note base = this
  have "AttachQueuePair m = Inr q \<longleftrightarrow>
    qpBytes \<le> length m \<and> get_u32 m qpOffMagic = qpMagic \<and>
    unat (get_u32 m qpOffInboundOff) < length m \<and> unat (get_u32 m qpOffOutboundOff) < length m \<and>
    unat (get_u32 m qpOffInboundOff) \<noteq> unat (get_u32 m qpOffOutboundOff) \<and>
    AttachRing m (unat (get_u32 m qpOffInboundOff)) = Inr (Inbound q) \<and>
    AttachRing m (unat (get_u32 m qpOffOutboundOff)) = Inr (Outbound q)"
    by (cases q) (auto simp: AttachQueuePair_def Let_def not_less not_le word_unat_eq_iff
        split: sum.splits)
  then show ?thesis
    unfolding AttachRing_iff using base [of "Inbound q"] base [of "Outbound q"] by auto
qed

section \<open>The standard layout\<close>

lemma unat_align64:
  assumes "unat n + 63 < 2 ^ 64"
  shows "unat (align64 n) = (unat n + 63) div 64 * 64"
proof -
  let ?x = "n + 63"
  have x: "unat ?x = unat n + 63" using assms by (subst unat_add_no_wrap) simp_all
  have "(?x AND NOT 63) + (?x AND 63) = ?x"
    using word_plus_and_or [of "?x AND NOT 63" "?x AND 63"]
    by (simp add: and.assoc and.left_commute [of _ ?x] flip: bit.conj_disj_distrib)
  then have "?x AND NOT 63 = ?x - (?x AND 63)" by (simp add: eq_diff_eq)
  moreover have "?x AND 63 = take_bit 6 ?x"
    by (simp add: take_bit_eq_mask mask_numeral)
  moreover have "unat (take_bit 6 ?x) = unat ?x mod 64"
    by (simp only: unsigned_take_bit_eq) (simp add: take_bit_eq_mod)
  moreover have "unat ?x mod 64 \<le> unat ?x" by simp
  ultimately have "unat (align64 n) = unat ?x - unat ?x mod 64"
    by (simp add: align64_def unat_sub_if')
  then show ?thesis by (simp add: x minus_mod_eq_div_mult)
qed

definition std_outOff :: "nat \<Rightarrow> nat" where
  \<comment> \<open>the offset of the outbound ring, for rings of \<open>n\<close> bytes: the inbound one is at 128\<close>
  "std_outOff n = (128 + n + 63) div 64 * 64"

lemma std_outOff_bounds: "128 + n \<le> std_outOff n" "std_outOff n < 128 + n + 64"
  unfolding std_outOff_def by linarith+

lemma qpairBytes_eq:
  assumes "unat slotSize * unat capacity < 2 ^ 61"
  shows "qpairBytes slotSize capacity =
    (let n = ringHdrBytes + unat slotSize * unat capacity in int (std_outOff n + n))"
proof -
  let ?p = "unat slotSize * unat capacity"
  define ring where "ring = (192 + ucast slotSize * ucast capacity :: u64)"
  have mul: "unat (ucast slotSize * ucast capacity :: u64) = ?p"
    using assms by (simp add: unat_word_ariths)
  have ring: "unat ring = 192 + ?p"
    using assms mul unfolding ring_def by (subst unat_add_no_wrap) simp_all
  define off where "off = align64 (128 + ring)"
  have "unat (128 + ring) = 128 + (192 + ?p)"
    using assms ring by (subst unat_add_no_wrap) simp_all
  then have out: "unat off = std_outOff (192 + ?p)"
    using assms unfolding off_def by (subst unat_align64) (simp_all add: std_outOff_def)
  have b: "std_outOff (192 + ?p) + (192 + ?p) < 2 ^ 63"
    using assms std_outOff_bounds(2) [of "192 + ?p"] by simp
  have total: "unat (off + ring) = std_outOff (192 + ?p) + (192 + ?p)"
    using b by (subst unat_add_no_wrap) (simp_all add: out ring)
  have "uint (off + ring) < 2 ^ 63"
    using b by (simp add: uint_nat total del: of_nat_add)
  then have "sint (off + ring) = uint (off + ring)" by (rule sint_small)
  also have "\<dots> = int (std_outOff (192 + ?p) + (192 + ?p))"
    by (simp only: uint_nat total)
  finally have "sint (off + ring) = int (std_outOff (192 + ?p) + (192 + ?p))" .
  moreover have "align64 96 = 128" by (simp add: align64_def)
  ultimately show ?thesis
    unfolding qpairBytes_def Let_def ringHdrBytes_def qpBytes_def of_nat_numeral
      ring_def [symmetric] by (simp only: off_def)
qed

section \<open>Properties of the regions\<close>

text \<open>
  \<open>AttachQueuePair\<close> adopts a region exactly when its header is the queue-pair header and
  both offsets it names carry a consistent ring; the two rings it returns start at different
  offsets, describe the ring headers and satisfy the ring invariant.
\<close>

theorem AttachQueuePair_spec:
  "AttachQueuePair m = Inr q \<longleftrightarrow>
    qpBytes \<le> length m \<and> get_u32 m qpOffMagic = qpMagic \<and>
    ring_base (Inbound q) = unat (get_u32 m qpOffInboundOff) \<and>
    ring_base (Outbound q) = unat (get_u32 m qpOffOutboundOff) \<and>
    ring_base (Inbound q) \<noteq> ring_base (Outbound q) \<and>
    ring_header (Inbound q) m \<and> ring_inv (Inbound q) m \<and>
    ring_header (Outbound q) m \<and> ring_inv (Outbound q) m"
  by (rule AttachQueuePair_iff)

text \<open>The layout \<open>qpairBytes\<close> computes is sound: for any geometry whose slots fit in 2^61
  bytes there is no wrap-around, the outbound ring starts 64-byte aligned behind the inbound
  one at offset 128, the two rings do not overlap, neither touches the region header, and
  both end inside the computed size.
\<close>

theorem qpair_layout:
  assumes "unat slotSize * unat capacity < 2 ^ 61"
    and "ring_slotSize i = slotSize" and "ring_capacity i = capacity" and "ring_base i = 128"
    and "ring_slotSize out = slotSize" and "ring_capacity out = capacity"
    and "ring_base out = std_outOff (ring_extent i)"
  shows "rings_disjoint i out \<and> qpBytes \<le> ring_base i \<and> qpBytes \<le> ring_base out \<and>
    ring_base out mod 64 = 0 \<and>
    int (ring_base i + ring_extent i) \<le> qpairBytes slotSize capacity \<and>
    int (ring_base out + ring_extent out) = qpairBytes slotSize capacity"
  using qpairBytes_eq [OF assms(1)] std_outOff_bounds [of "ring_extent i"] assms(2-)
  by (auto simp: rings_disjoint_def ring_extent_def std_outOff_def Let_def)

theorem qpair_layout_witness:
  "\<exists>i out. rings_disjoint i out \<and> qpBytes \<le> ring_base i \<and> qpBytes \<le> ring_base out \<and>
    ring_base out mod 64 = 0 \<and>
    int (ring_base i + ring_extent i) \<le> qpairBytes 256 8 \<and>
    int (ring_base out + ring_extent out) = qpairBytes 256 8"
proof -
  let ?i = "\<lparr>ring_base = 128, ring_len = 0, ring_slotSize = 256, ring_capacity = 8,
    ring_mask = 7, ring_slotsOff = 192\<rparr>"
  show ?thesis
    by (rule exI [of _ ?i], rule exI [of _ "?i\<lparr>ring_base := std_outOff (ring_extent ?i)\<rparr>"],
        rule qpair_layout) simp_all
qed

end
