(* ===== verification/Client.thy ===== *)
theory Client
  imports Wire Region
begin

text \<open>
  The attached bus client of \<open>server-go/bus/client.go\<close>: sending (\<open>emit\<close> and the public
  operations built on it), receiving (\<open>Poll\<close>), and detaching. The attach handshake is in
  \<open>Bus_Attach\<close>.

  The three mappings are fields of the client holding their current bytes, \<open>None\<close> once
  unmapped; what the other processes write to them between two operations is a change of
  these bytes. An operation that dereferences an unmapped region, or slices out of range,
  crashes the process: its value is \<open>None\<close>.
\<close>

section \<open>State\<close>

record client =
  Handle :: u32
  ClientStatus :: u32          \<comment> \<open>the field \<open>Status\<close>\<close>
  c_slotSize :: u32
  inlineBudget :: u32
  queueCapacity :: u32
  arenaSize :: u64
  attachedEpoch :: u64
  control :: bool              \<comment> \<open>\<open>c.control != nil\<close>; the view is the mapping itself\<close>
  qp :: "queue_pair option"
  arenaMem :: "mem option"
  ctlMem :: "mem option"
  qpMem :: "mem option"
  pendingRead :: bool

record event =
  Frame :: frame
  Payload :: "byte list"

section \<open>Go slices\<close>

definition go_copy :: "byte list \<Rightarrow> nat \<Rightarrow> byte list \<Rightarrow> byte list" where
  \<comment> \<open>\<open>copy(dst[off:], src)\<close>: as many bytes as fit\<close>
  "go_copy dst off src = splice dst off (take (length dst - off) src)"

definition go_reslice :: "mem \<Rightarrow> nat \<Rightarrow> u64 \<Rightarrow> u64 \<Rightarrow> byte list option" where
  \<comment> \<open>\<open>s[a:b]\<close> for a slice \<open>s\<close> that starts at \<open>off\<close> in \<open>m\<close>: \<open>b\<close> may exceed \<open>len(s)\<close> but not
    its capacity, which extends to the end of \<open>m\<close>; anything else panics\<close>
  "go_reslice m off a b =
    (if unat a \<le> unat b \<and> off + unat b \<le> length m
     then Some (slice m (off + unat a) (unat b - unat a)) else None)"

section \<open>Operations\<close>

definition Detach :: "client \<Rightarrow> client" where
  "Detach c = c\<lparr>ctlMem := None, arenaMem := None, qpMem := None\<rparr>"

definition EpochChanged :: "client \<Rightarrow> bool option" where
  "EpochChanged c =
    (if \<not> control c then Some False
     else case ctlMem c of None \<Rightarrow> None | Some m \<Rightarrow> Some (Epoch m \<noteq> attachedEpoch c))"

definition Heartbeat :: "client \<Rightarrow> u64 \<Rightarrow> client option" where
  "Heartbeat c now =
    (case (qp c, qpMem c) of
       (Some q, Some m) \<Rightarrow> Some (c\<lparr>qpMem := Some (SetHeartbeat m now)\<rparr>)
     | _ \<Rightarrow> None)"

definition ControlLost :: "client \<Rightarrow> bool option" where
  "ControlLost c =
    (case (qp c, qpMem c) of (Some q, Some m) \<Rightarrow> Some (qpControlLost m) | _ \<Rightarrow> None)"

definition emit_frame :: "client \<Rightarrow> u16 \<Rightarrow> u32 \<Rightarrow> u64 \<Rightarrow> byte list \<Rightarrow> frame" where
  "emit_frame c flags kind corr payload =
    (let f = zero_frame\<lparr>HdrFlags := flags, FrameVersion := WireVersion, EventKind := kind,
        CorrelationID := corr, SrcHandle := Handle c\<rparr>
     in if length payload > 0
        then f\<lparr>HdrFlags := HdrFlags f OR FInline, PayloadLen := word_of_nat (length payload),
               PayloadRef := word_of_nat HdrLen\<rparr>
        else f)"

definition emit :: "client \<Rightarrow> u16 \<Rightarrow> u32 \<Rightarrow> u64 \<Rightarrow> byte list \<Rightarrow>
    (bus_error option \<times> client) option" where
  "emit c flags kind corr payload =
    (if \<not> control c then Some (Some ErrProtocol, c)
     else if length payload > 0 \<and>
       ((word_of_nat (length payload) :: u32) > inlineBudget c \<or>
        HdrLen + length payload > unat (c_slotSize c)) then Some (Some ErrPayload, c)
     else case EpochChanged c of
       None \<Rightarrow> None
     | Some True \<Rightarrow> Some (Some ErrEpoch, c)
     | Some False \<Rightarrow>
        (case (qp c, qpMem c) of
           (Some q, Some m) \<Rightarrow>
            (case ProduceBegin (Outbound q) m of
               None \<Rightarrow> Some (Some ErrWouldBlock, c)
             | Some off \<Rightarrow>
                let f = emit_frame c flags kind corr payload;
                    (n, sl) = Encode f (slice m off (unat (ring_slotSize (Outbound q))))
                in if n \<noteq> HdrLen then Some (Some ErrProtocol, c)
                   else
                     let sl = (if length payload > 0 then go_copy sl HdrLen payload else sl);
                         m = ProduceCommit (Outbound q) (splice m off sl)
                     in Some (None, c\<lparr>qpMem := Some m\<rparr>))
         | _ \<Rightarrow> None))"

definition Publish :: "client \<Rightarrow> u32 \<Rightarrow> byte list \<Rightarrow> (bus_error option \<times> client) option" where
  "Publish c kind payload = emit c FNotification kind 0 payload"

definition RequestFragment :: "client \<Rightarrow> u32 \<Rightarrow> u64 \<Rightarrow> byte list \<Rightarrow> bool \<Rightarrow>
    (bus_error option \<times> client) option" where
  "RequestFragment c kind correlation payload is_more =
    (if correlation = 0 then Some (Some ErrProtocol, c)
     else if is_more \<and> length payload = 0 then Some (Some ErrProtocol, c)
     else emit c (if is_more then FRequest OR FMore else FRequest) kind correlation payload)"

definition Request :: "client \<Rightarrow> u32 \<Rightarrow> u64 \<Rightarrow> byte list \<Rightarrow>
    (bus_error option \<times> client) option" where
  "Request c kind correlation payload = RequestFragment c kind correlation payload False"

definition ReplyFragment :: "client \<Rightarrow> u32 \<Rightarrow> u64 \<Rightarrow> byte list \<Rightarrow> bool \<Rightarrow>
    (bus_error option \<times> client) option" where
  "ReplyFragment c kind correlation payload is_more =
    (if correlation = 0 then Some (Some ErrProtocol, c)
     else if is_more \<and> length payload = 0 then Some (Some ErrProtocol, c)
     else emit c (if is_more then FReply OR FMore else FReply) kind correlation payload)"

definition Reply :: "client \<Rightarrow> u32 \<Rightarrow> u64 \<Rightarrow> byte list \<Rightarrow>
    (bus_error option \<times> client) option" where
  "Reply c kind correlation payload = ReplyFragment c kind correlation payload False"

definition Cancel :: "client \<Rightarrow> u32 \<Rightarrow> u64 \<Rightarrow> (bus_error option \<times> client) option" where
  "Cancel c kind correlation =
    (if correlation = 0 then Some (Some ErrProtocol, c) else emit c FCancel kind correlation [])"

datatype poll_result = NoEvent | Polled event | PollError bus_error

definition delivered :: "client \<Rightarrow> frame \<Rightarrow> bool" where
  \<comment> \<open>the condition under which \<open>Poll\<close> hands out the inline payload\<close>
  "delivered c f \<longleftrightarrow> HdrFlags f AND FInline \<noteq> 0 \<and> PayloadLen f > 0 \<and>
     PayloadRef f + ucast (PayloadLen f) \<le> ucast (c_slotSize c)"

definition Poll :: "client \<Rightarrow> (poll_result \<times> client) option" where
  "Poll c =
    (if \<not> control c then Some (PollError ErrProtocol, c)
     else case EpochChanged c of
       None \<Rightarrow> None
     | Some True \<Rightarrow> Some (PollError ErrEpoch, c)
     | Some False \<Rightarrow>
        (case (qp c, qpMem c) of
           (Some q, Some m) \<Rightarrow>
             let r = Inbound q;
                 m = (if pendingRead c then ConsumeCommit r m else m);
                 c = c\<lparr>pendingRead := False, qpMem := Some m\<rparr>
             in (case ConsumeBegin r m of
                   None \<Rightarrow> Some (NoEvent, c)
                 | Some off \<Rightarrow>
                    let (res, f) = Decode (slice m off (unat (ring_slotSize r))) zero_frame
                    in if res \<noteq> OK
                       then Some (NoEvent, c\<lparr>qpMem := Some (ConsumeCommit r m)\<rparr>)
                       else if delivered c f
                       then (case go_reslice m off (PayloadRef f)
                                (PayloadRef f + ucast (PayloadLen f)) of
                               None \<Rightarrow> None
                             | Some p \<Rightarrow>
                                Some (Polled \<lparr>Frame = f, Payload = p\<rparr>, c\<lparr>pendingRead := True\<rparr>))
                       else Some (Polled \<lparr>Frame = f, Payload = []\<rparr>, c\<lparr>pendingRead := True\<rparr>))
         | _ \<Rightarrow> None))"

section \<open>The invariant of an attached client\<close>

definition client_view :: "client \<Rightarrow> queue_pair \<Rightarrow> mem \<Rightarrow> mem \<Rightarrow> bool" where
  \<comment> \<open>an attached client over the control region \<open>cm\<close> and the queue-pair region \<open>m\<close>\<close>
  "client_view c q cm m \<longleftrightarrow>
     control c \<and> qp c = Some q \<and> ctlMem c = Some cm \<and> qpMem c = Some m \<and>
     ctlBytes \<le> length cm \<and> ring_inv (Inbound q) m \<and> ring_inv (Outbound q) m \<and>
     rings_disjoint (Inbound q) (Outbound q) \<and>
     qpBytes \<le> ring_base (Inbound q) \<and> qpBytes \<le> ring_base (Outbound q) \<and>
     (pendingRead c \<longrightarrow> ring_abs (Inbound q) m \<noteq> [])"

definition client_inv :: "client \<Rightarrow> bool" where
  "client_inv c \<longleftrightarrow> (\<exists>q cm m. client_view c q cm m)"

definition outbox :: "client \<Rightarrow> byte list list" where
  \<comment> \<open>the slots sent and not yet taken by the host\<close>
  "outbox c = (case (qp c, qpMem c) of (Some q, Some m) \<Rightarrow> ring_abs (Outbound q) m | _ \<Rightarrow> [])"

definition inbox :: "client \<Rightarrow> byte list list" where
  \<comment> \<open>the slots received and not yet handed out by \<open>Poll\<close>\<close>
  "inbox c = (case (qp c, qpMem c) of
      (Some q, Some m) \<Rightarrow> ring_abs (Inbound q) (if pendingRead c then ConsumeCommit (Inbound q) m else m)
    | _ \<Rightarrow> [])"

definition out_capacity :: "client \<Rightarrow> nat" where
  "out_capacity c = (case qp c of Some q \<Rightarrow> unat (ring_capacity (Outbound q)) | None \<Rightarrow> 0)"

definition out_slot :: "client \<Rightarrow> nat" where
  "out_slot c = (case qp c of Some q \<Rightarrow> unat (ring_slotSize (Outbound q)) | None \<Rightarrow> 0)"

definition in_slot :: "client \<Rightarrow> nat" where
  "in_slot c = (case qp c of Some q \<Rightarrow> unat (ring_slotSize (Inbound q)) | None \<Rightarrow> 0)"

definition epoch_current :: "client \<Rightarrow> bool" where
  "epoch_current c \<longleftrightarrow> EpochChanged c = Some False"

lemma epoch_current_update [simp]:
  "epoch_current (c\<lparr>qpMem := x\<rparr>) = epoch_current c"
  "epoch_current (c\<lparr>pendingRead := b\<rparr>) = epoch_current c"
  by (simp_all add: epoch_current_def EpochChanged_def split: option.splits)

lemma view_sizes:
  assumes "client_view c q cm m"
  shows "outbox c = ring_abs (Outbound q) m" "out_capacity c = unat (ring_capacity (Outbound q))"
    "out_slot c = unat (ring_slotSize (Outbound q))" "in_slot c = unat (ring_slotSize (Inbound q))"
    "inbox c = ring_abs (Inbound q) (if pendingRead c then ConsumeCommit (Inbound q) m else m)"
  using assms by (simp_all add: client_view_def outbox_def out_capacity_def out_slot_def
      in_slot_def inbox_def)

lemma view_geom:
  assumes "client_view c q cm m"
  shows "ring_geom (Inbound q) (length m)" "ring_geom (Outbound q) (length m)"
  using assms by (simp_all add: client_view_def ring_inv_geom)

text \<open>Replacing the region by one that agrees on the inbound ring keeps what was received.\<close>

lemma view_inbound_frame:
  assumes "client_view c q cm m" and "ring_bytes (Inbound q) m' = ring_bytes (Inbound q) m"
    and "length m' = length m" and "ring_inv (Outbound q) m'"
  shows "client_view (c\<lparr>qpMem := Some m'\<rparr>) q cm m'" and "inbox (c\<lparr>qpMem := Some m'\<rparr>) = inbox c"
proof -
  note v = assms(1) [unfolded client_view_def]
  note g = view_geom(1) [OF assms(1)]
  note a = ring_agree [OF assms(2) [symmetric] assms(3) [symmetric] g]
  show v': "client_view (c\<lparr>qpMem := Some m'\<rparr>) q cm m'"
    using v a(4,5) assms(4) by (simp add: client_view_def)
  have "ring_abs (Inbound q) (ConsumeCommit (Inbound q) m') = tl (ring_abs (Inbound q) m')" if "pendingRead c"
    using that v a ConsumeCommit_tl(1) [of "Inbound q" m'] by metis
  moreover have "ring_abs (Inbound q) (ConsumeCommit (Inbound q) m) = tl (ring_abs (Inbound q) m)" if "pendingRead c"
    using that v ConsumeCommit_tl(1) [of "Inbound q" m] by metis
  ultimately show "inbox (c\<lparr>qpMem := Some m'\<rparr>) = inbox c"
    using view_sizes(5) [OF assms(1)] view_sizes(5) [OF v'] a(4) by auto
qed

section \<open>Sending\<close>

lemma length_go_copy [simp]: "off \<le> length d \<Longrightarrow> length (go_copy d off xs) = length d"
  by (simp add: go_copy_def length_splice)

definition payload_fits :: "client \<Rightarrow> byte list \<Rightarrow> bool" where
  \<comment> \<open>the payload passes the size check of \<open>emit\<close>\<close>
  "payload_fits c p \<longleftrightarrow>
     length p = 0 \<or> (\<not> (word_of_nat (length p) :: u32) > inlineBudget c \<and>
       HdrLen + length p \<le> unat (c_slotSize c))"

definition sent_slot :: "frame \<Rightarrow> byte list \<Rightarrow> byte list \<Rightarrow> byte list" where
  \<comment> \<open>the bytes of a slot, \<open>sl\<close> before, that carries the frame and payload\<close>
  "sent_slot f p sl = go_copy (frame_bytes f @ drop HdrLen sl) HdrLen p"

lemma length_sent_slot: "HdrLen \<le> length sl \<Longrightarrow> length (sent_slot f p sl) = length sl"
  by (simp add: sent_slot_def)

lemma sent_slot_eq:
  assumes "HdrLen + length p \<le> length sl"
  shows "sent_slot f p sl = frame_bytes f @ p @ drop (HdrLen + length p) sl"
  using assms by (simp add: sent_slot_def go_copy_def splice_def add.commute)

lemma sent_slot_header: "HdrLen \<le> length sl \<Longrightarrow> \<exists>rest. sent_slot f p sl = frame_bytes f @ rest"
  by (simp add: sent_slot_def go_copy_def splice_def)

lemma emit_eq:
  assumes v: "client_view c q cm m" and e: "epoch_current c"
  shows "emit c flags kind corr p =
    (let f = emit_frame c flags kind corr p; r = Outbound q in
     if \<not> payload_fits c p then Some (Some ErrPayload, c)
     else if length (outbox c) = out_capacity c then Some (Some ErrWouldBlock, c)
     else if Validate f \<noteq> OK \<or> out_slot c < HdrLen then Some (Some ErrProtocol, c)
     else Some (None, c\<lparr>qpMem := Some (ProduceCommit r (splice m (slot_off r (ring_head r m))
            (sent_slot f p (slot r m (ring_head r m)))))\<rparr>))"
proof -
  note c = v [unfolded client_view_def]
  note g = view_geom(2) [OF v]
  note s = view_sizes [OF v]
  have big: "(length p > 0 \<and> ((word_of_nat (length p) :: u32) > inlineBudget c \<or>
      HdrLen + length p > unat (c_slotSize c))) \<longleftrightarrow> \<not> payload_fits c p"
    by (auto simp: payload_fits_def)
  have len: "length (slot (Outbound q) m i) = out_slot c" for i
    by (simp add: length_slot [OF g] s)
  have enc: "Encode (emit_frame c flags kind corr p) (slot (Outbound q) m i) =
    (if Validate (emit_frame c flags kind corr p) \<noteq> OK \<or> out_slot c < HdrLen
     then (0, slot (Outbound q) m i)
     else (HdrLen, frame_bytes (emit_frame c flags kind corr p) @ drop HdrLen (slot (Outbound q) m i)))" for i
    using Encode_OK [of "emit_frame c flags kind corr p" "slot (Outbound q) m i"]
    by (auto simp: Encode_def len)
  have nil: "go_copy xs 64 [] = xs" if "64 \<le> length xs" for xs
    using that by (simp add: go_copy_def splice_def)
  show ?thesis
    unfolding emit_def big
    using c e ProduceBegin_iff [of "Outbound q" m]
    by (auto simp: Let_def epoch_current_def s(1,2) slot_def [symmetric] enc sent_slot_def nil len
        split: option.splits)
qed

text \<open>
  What a send does: it either reports an error and changes nothing, or appends one slot
  with the frame and the payload to what the host will read, and nothing else.
\<close>

lemma emit_sends:
  assumes v: "client_view c q cm m" and e: "epoch_current c"
    and emit: "emit c flags kind corr p = Some (None, c')"
  shows "\<exists>sl. length sl = out_slot c \<and> HdrLen \<le> out_slot c \<and>
      outbox c' = outbox c @ [sent_slot (emit_frame c flags kind corr p) p sl] \<and>
      inbox c' = inbox c \<and> (\<exists>m'. client_view c' q cm m' \<and> c' = c\<lparr>qpMem := Some m'\<rparr>)"
proof -
  let ?f = "emit_frame c flags kind corr p" and ?r = "Outbound q"
  let ?sl = "slot ?r m (ring_head ?r m)"
  let ?x = "sent_slot ?f p ?sl"
  define w where "w = splice m (slot_off ?r (ring_head ?r m)) ?x"
  note c = v [unfolded client_view_def]
  have inv: "ring_inv ?r m" using c by simp
  note g = view_geom [OF v]
  note s = view_sizes [OF v]
  from emit have room: "length (outbox c) \<noteq> out_capacity c" and big: "HdrLen \<le> out_slot c"
    and c': "c' = c\<lparr>qpMem := Some (ProduceCommit ?r w)\<rparr>"
    by (auto simp: emit_eq [OF v e] Let_def w_def split: if_splits)
  have len: "length ?sl = out_slot c" by (simp add: length_slot [OF g(2)] s)
  then have lx: "length ?x = unat (ring_slotSize ?r)"
    using big by (simp add: length_sent_slot s)
  have room': "unat (Count ?r m) < unat (ring_capacity ?r)"
    using room inv by (simp add: s ring_inv_def)
  note w = ring_abs_write [OF inv room', of ?x, folded w_def]
  have wc: "Count ?r w = Count ?r m" "ring_head ?r w = ring_head ?r m" "length w = length m"
    using counters_splice_slot [OF g(2), of ?x "ring_head ?r m"] lx by (simp_all add: w_def)
  have abs: "ring_abs ?r (ProduceCommit ?r w) = ring_abs ?r m @ [?x]"
    using ring_abs_ProduceCommit [OF w(2)] room' lx w(1) wc slot_write_head [OF g(2) lx]
    by (simp add: w_def)
  have inv': "ring_inv ?r (ProduceCommit ?r w)"
    using ring_inv_ProduceCommit [OF w(2)] room' wc lx by simp
  have dis: "rings_disjoint ?r (Inbound q)" using c by (simp add: rings_disjoint_sym)
  have bytes: "ring_bytes (Inbound q) (ProduceCommit ?r w) = ring_bytes (Inbound q) m"
    using ring_bytes_commit(1) [OF dis, of w] ring_bytes_write [OF dis g(2,1), of ?x] g lx wc
    by (simp add: w_def)
  have lenw: "length (ProduceCommit ?r w) = length m"
    using commit_frame(5) [of ?r w] g(2) wc by simp
  note frame = view_inbound_frame [OF v bytes lenw inv']
  show ?thesis
    using len big abs frame c' view_sizes(1) [OF frame(1)] s(1) by auto
qed

section \<open>Receiving\<close>

lemma view_consume:
  assumes v: "client_view c q cm m" and ne: "ring_abs (Inbound q) m \<noteq> []"
  shows "client_view (c\<lparr>pendingRead := False, qpMem := Some (ConsumeCommit (Inbound q) m)\<rparr>) q cm
      (ConsumeCommit (Inbound q) m)"
    and "outbox (c\<lparr>pendingRead := False, qpMem := Some (ConsumeCommit (Inbound q) m)\<rparr>) = outbox c"
    and "inbox (c\<lparr>pendingRead := False, qpMem := Some (ConsumeCommit (Inbound q) m)\<rparr>) =
      tl (ring_abs (Inbound q) m)"
proof -
  let ?m = "ConsumeCommit (Inbound q) m"
  note c = v [unfolded client_view_def]
  note g = view_geom [OF v]
  have len: "length m = length ?m" by (simp add: commit_frame(6) [OF g(1)])
  have bytes: "ring_bytes (Outbound q) m = ring_bytes (Outbound q) ?m"
    using ring_bytes_commit(2) [OF _ g(1)] c by simp
  note a = ring_agree(4,5) [OF bytes len g(2)]
  note t = ConsumeCommit_tl [OF _ ne]
  show v': "client_view (c\<lparr>pendingRead := False, qpMem := Some ?m\<rparr>) q cm ?m"
    using c a t by (simp add: client_view_def)
  show "outbox (c\<lparr>pendingRead := False, qpMem := Some ?m\<rparr>) = outbox c"
    using view_sizes(1) [OF v] view_sizes(1) [OF v'] a by simp
  show "inbox (c\<lparr>pendingRead := False, qpMem := Some ?m\<rparr>) = tl (ring_abs (Inbound q) m)"
    using view_sizes(5) [OF v'] t c by simp
qed

definition settled_mem :: "client \<Rightarrow> queue_pair \<Rightarrow> mem \<Rightarrow> mem" where
  \<comment> \<open>the region after \<open>Poll\<close> has released the slot handed out by the previous one\<close>
  "settled_mem c q m = (if pendingRead c then ConsumeCommit (Inbound q) m else m)"

definition settle :: "client \<Rightarrow> queue_pair \<Rightarrow> mem \<Rightarrow> client" where
  "settle c q m = c\<lparr>pendingRead := False, qpMem := Some (settled_mem c q m)\<rparr>"

lemma view_settle:
  assumes v: "client_view c q cm m"
  shows "client_view (settle c q m) q cm (settled_mem c q m)" and "outbox (settle c q m) = outbox c"
    and "inbox (settle c q m) = inbox c" and "ring_abs (Inbound q) (settled_mem c q m) = inbox c"
proof -
  have c: "qpMem c = Some m" "pendingRead c \<Longrightarrow> ring_abs (Inbound q) m \<noteq> []"
    and i: "ring_inv (Inbound q) m"
    using v by (simp_all add: client_view_def)
  show *: "client_view (settle c q m) q cm (settled_mem c q m)" "outbox (settle c q m) = outbox c"
  proof -
    have "client_view (settle c q m) q cm (settled_mem c q m) \<and> outbox (settle c q m) = outbox c"
    proof (cases "pendingRead c")
      case True
      then show ?thesis using view_consume(1,2) [OF v] c by (simp add: settle_def settled_mem_def)
    next
      case False
      then have "settle c q m = c" "settled_mem c q m = m"
        using c by (cases c; simp add: settle_def settled_mem_def)+
      then show ?thesis using v by simp
    qed
    then show "client_view (settle c q m) q cm (settled_mem c q m)" "outbox (settle c q m) = outbox c"
      by blast+
  qed
  show "ring_abs (Inbound q) (settled_mem c q m) = inbox c"
    using view_sizes(5) [OF v] by (simp add: settled_mem_def)
  then show "inbox (settle c q m) = inbox c"
    using view_sizes(5) [OF *(1)] by (simp add: settle_def)
qed

lemma Poll_empty:
  assumes "client_view c q cm m" and "epoch_current c" and "inbox c = []"
  shows "Poll c = Some (NoEvent, settle c q m)"
  using assms view_settle(4) [OF assms(1)]
  by (simp add: Poll_def client_view_def epoch_current_def Let_def ConsumeBegin_iff settle_def
      settled_mem_def split: if_splits)

lemma Poll_slot:
  assumes v: "client_view c q cm m" and e: "epoch_current c" and i: "inbox c = s # rest"
    and d: "Decode s zero_frame = (res, f)"
  shows "Poll c =
    (let r = Inbound q; m' = settled_mem c q m; c' = settle c q m;
         off = slot_off r (ring_tail r m')
     in if res \<noteq> OK then Some (NoEvent, c'\<lparr>qpMem := Some (ConsumeCommit r m')\<rparr>)
        else if delivered c f
        then (case go_reslice m' off (PayloadRef f) (PayloadRef f + ucast (PayloadLen f)) of
                None \<Rightarrow> None
              | Some p \<Rightarrow> Some (Polled \<lparr>Frame = f, Payload = p\<rparr>, c'\<lparr>pendingRead := True\<rparr>))
        else Some (Polled \<lparr>Frame = f, Payload = []\<rparr>, c'\<lparr>pendingRead := True\<rparr>))"
proof -
  let ?r = "Inbound q" and ?m = "settled_mem c q m"
  note st = view_settle [OF v]
  have abs: "ring_abs ?r ?m = s # rest" using st(4) i by simp
  have inv: "ring_inv ?r ?m" using st(1) by (simp add: client_view_def)
  have "slice ?m (slot_off ?r (ring_tail ?r ?m)) (unat (ring_slotSize ?r)) = s"
    using ConsumeCommit_tl(3) [OF inv] abs by (simp add: slot_def)
  moreover have "ConsumeBegin ?r ?m = Some (slot_off ?r (ring_tail ?r ?m))"
    by (simp add: ConsumeBegin_iff abs)
  moreover have "control c" "qp c = Some q" "qpMem c = Some m" "EpochChanged c = Some False"
    using v e by (simp_all add: client_view_def epoch_current_def)
  moreover have "delivered (c\<lparr>pendingRead := x, qpMem := y\<rparr>) f = delivered c f" for x y
    by (simp add: delivered_def)
  ultimately show ?thesis
    by (cases "pendingRead c") (simp_all add: Poll_def Let_def d settle_def settled_mem_def)
qed

lemma view_pending:
  assumes v: "client_view c q cm m" and i: "inbox c = s # rest"
  shows "client_view ((settle c q m)\<lparr>pendingRead := True\<rparr>) q cm (settled_mem c q m)"
    and "inbox ((settle c q m)\<lparr>pendingRead := True\<rparr>) = rest"
    and "outbox ((settle c q m)\<lparr>pendingRead := True\<rparr>) = outbox c"
proof -
  let ?m = "settled_mem c q m"
  note st = view_settle [OF v]
  have abs: "ring_abs (Inbound q) ?m = s # rest" using st(4) i by simp
  show v': "client_view ((settle c q m)\<lparr>pendingRead := True\<rparr>) q cm ?m"
    using st(1) abs by (simp add: client_view_def)
  have "ring_inv (Inbound q) ?m" using st(1) by (simp add: client_view_def)
  then show "inbox ((settle c q m)\<lparr>pendingRead := True\<rparr>) = rest"
    using view_sizes(5) [OF v'] ConsumeCommit_tl(1) [of "Inbound q" ?m] abs by simp
  show "outbox ((settle c q m)\<lparr>pendingRead := True\<rparr>) = outbox c"
    using view_sizes(1) [OF v'] view_sizes(1) [OF st(1)] st(2) by simp
qed

lemma inbox_slot_length:
  assumes v: "client_view c q cm m" and "s \<in> set (inbox c)"
  shows "length s = in_slot c"
proof -
  have "ring_inv (Inbound q) (settled_mem c q m)"
    using view_settle(1) [OF v] by (simp add: client_view_def)
  then show ?thesis
    using ring_abs_slots [of "Inbound q" "settled_mem c q m" s] view_settle(4) [OF v] assms(2)
      view_sizes(4) [OF v] by simp
qed

section \<open>The host's side of the rings\<close>

text \<open>
  What the host does to the region between two operations of the client: it delivers a slot
  into the inbound ring. It is part of the environment, used to build concrete clients.
\<close>

definition host_deliver :: "byte list \<Rightarrow> client \<Rightarrow> client option" where
  "host_deliver s c =
    (case (qp c, qpMem c) of
       (Some q, Some m) \<Rightarrow>
         (case ring_push s (Inbound q, m) of
            None \<Rightarrow> None | Some (_, m') \<Rightarrow> Some (c\<lparr>qpMem := Some m'\<rparr>))
     | _ \<Rightarrow> None)"

lemma host_deliver_inbox:
  assumes v: "client_view c q cm m" and np: "\<not> pendingRead c"
    and room: "length (inbox c) < unat (ring_capacity (Inbound q))" and len: "length s = in_slot c"
  shows "\<exists>c' m'. host_deliver s c = Some c' \<and> client_view c' q cm m' \<and>
    inbox c' = inbox c @ [s] \<and> outbox c' = outbox c \<and> c' = c\<lparr>qpMem := Some m'\<rparr>"
proof -
  let ?r = "Inbound q"
  note c = v [unfolded client_view_def]
  note sz = view_sizes [OF v]
  note g = view_geom [OF v]
  have fits: "length s \<le> unat (ring_slotSize ?r)" using len sz by simp
  have room': "unat (Count ?r m) < unat (ring_capacity ?r)" using room np by (simp add: sz)
  have inv: "ring_inv ?r m" using c by simp
  define w where "w = splice m (slot_off ?r (ring_head ?r m)) s"
  have push: "ring_push s (?r, m) = Some (?r, ProduceCommit ?r w)"
    using ProduceBegin_iff [OF inv] room' by (simp add: ring_push_def w_def)
  have lw: "length w = length m" using counters_splice_slot(4) [OF g(1) fits] by (simp add: w_def)
  have bytes: "ring_bytes (Outbound q) m = ring_bytes (Outbound q) (ProduceCommit ?r w)"
    using ring_bytes_commit(1) [of ?r "Outbound q" w] ring_bytes_write [of ?r "Outbound q" m s] c g fits lw
    by (simp add: w_def)
  have len': "length m = length (ProduceCommit ?r w)" using lw g(1) by (simp add: commit_frame(5))
  note a = ring_agree(4,5) [OF bytes len' g(2)]
  obtain t where "ring_push s (?r, m) = Some t" "ring_inv (fst t) (snd t)" "ring_abs (fst t) (snd t) = ring_abs ?r m @ [s]"
    using ringq.enq_room [of "(?r, m)" s] inv room' len sz by (auto simp: case_prod_beta)
  with push have r: "ring_inv ?r (ProduceCommit ?r w)" "ring_abs ?r (ProduceCommit ?r w) = ring_abs ?r m @ [s]"
    by auto
  have v': "client_view (c\<lparr>qpMem := Some (ProduceCommit ?r w)\<rparr>) q cm (ProduceCommit ?r w)"
    using c np r a by (simp add: client_view_def)
  moreover have "host_deliver s c = Some (c\<lparr>qpMem := Some (ProduceCommit ?r w)\<rparr>)"
    using c push by (simp add: host_deliver_def)
  ultimately show ?thesis
    using view_sizes(1,5) [OF v'] sz np r a by auto
qed

definition empty_client :: "u32 \<Rightarrow> u32 \<Rightarrow> client" where
  \<comment> \<open>an attached client with two empty rings of eight slots\<close>
  "empty_client sz budget =
    (let n = ringHdrBytes + unat sz * 8; total = 128 + n + n;
         ring = \<lparr>ring_base = 128, ring_len = n + n, ring_slotSize = sz, ring_capacity = 8,
           ring_mask = 7, ring_slotsOff = 192\<rparr>
     in \<lparr>Handle = 1, ClientStatus = 0, c_slotSize = sz, inlineBudget = budget,
          queueCapacity = 8, arenaSize = 16, attachedEpoch = 0, control = True,
          qp = Some \<lparr>Inbound = ring, Outbound = ring\<lparr>ring_base := 128 + n, ring_len := n\<rparr>\<rparr>,
          arenaMem = None, ctlMem = Some (replicate 96 0), qpMem = Some (replicate total 0),
          pendingRead = False\<rparr>)"

lemma get_u64_replicate_0 [simp]: "get_u64 (replicate n 0) off = 0"
proof -
  have "le_nat (replicate k 0) = 0" for k by (induction k) auto
  then show ?thesis by (simp add: get_u64_def slice_def)
qed

lemma empty_client_view:
  assumes "sz \<noteq> 0"
  shows "\<exists>q. client_view (empty_client sz budget) q (replicate 96 0)
      (replicate (128 + 2 * (ringHdrBytes + unat sz * 8)) 0) \<and>
    Inbound q = \<lparr>ring_base = 128, ring_len = 2 * (ringHdrBytes + unat sz * 8), ring_slotSize = sz,
      ring_capacity = 8, ring_mask = 7, ring_slotsOff = 192\<rparr> \<and>
    inbox (empty_client sz budget) = [] \<and> outbox (empty_client sz budget) = []"
proof -
  have pow: "\<exists>k. (8 :: u32) = 2 ^ k \<and> k < 32" by (rule exI [of _ 3]) simp
  show ?thesis
    using assms pow
    by (auto simp: empty_client_def Let_def client_view_def ring_inv_def ring_geom_def Count_def
        ring_head_def ring_tail_def rings_disjoint_def ring_extent_def inbox_def outbox_def
        ring_abs_def)
qed

lemma empty_client_simps [simp]:
  "epoch_current (empty_client sz budget)" "\<not> pendingRead (empty_client sz budget)"
  "c_slotSize (empty_client sz budget) = sz" "inlineBudget (empty_client sz budget) = budget"
  "in_slot (empty_client sz budget) = unat sz" "out_slot (empty_client sz budget) = unat sz"
  "out_capacity (empty_client sz budget) = 8" "control (empty_client sz budget)"
  by (simp_all add: empty_client_def Let_def epoch_current_def EpochChanged_def Epoch_def
      in_slot_def out_slot_def out_capacity_def)

lemma empty_client_inv: "sz \<noteq> 0 \<Longrightarrow> client_inv (empty_client sz budget)"
  using empty_client_view [of sz budget] by (auto simp: client_inv_def)

lemma client_with_inbox:
  assumes "sz \<noteq> 0" and "length s = unat sz"
  shows "\<exists>c. client_inv c \<and> epoch_current c \<and> inbox c = [s] \<and> c_slotSize c = sz \<and> in_slot c = unat sz \<and>
    out_slot c = unat sz \<and> inlineBudget c = budget"
proof -
  from empty_client_view [OF assms(1), of budget] obtain q where
    v: "client_view (empty_client sz budget) q (replicate 96 0)
      (replicate (128 + 2 * (ringHdrBytes + unat sz * 8)) 0)" and
    i: "inbox (empty_client sz budget) = []" and q: "unat (ring_capacity (Inbound q)) = 8" by auto
  from host_deliver_inbox [OF v] i q assms obtain m' where
    v': "client_view ((empty_client sz budget)\<lparr>qpMem := Some m'\<rparr>) q (replicate 96 0) m'" and
    i': "inbox ((empty_client sz budget)\<lparr>qpMem := Some m'\<rparr>) = [s]" by auto
  have "epoch_current ((empty_client sz budget)\<lparr>qpMem := Some m'\<rparr>)"
    by simp
  moreover have "in_slot ((empty_client sz budget)\<lparr>qpMem := Some m'\<rparr>) = unat sz"
    using empty_client_simps(5) [of sz budget] by (simp add: in_slot_def)
  moreover have "out_slot ((empty_client sz budget)\<lparr>qpMem := Some m'\<rparr>) = unat sz"
    using empty_client_simps(6) [of sz budget] by (simp add: out_slot_def)
  moreover have "client_inv ((empty_client sz budget)\<lparr>qpMem := Some m'\<rparr>)"
    using v' unfolding client_inv_def by blast
  ultimately show ?thesis using i'
    by (intro exI [of _ "(empty_client sz budget)\<lparr>qpMem := Some m'\<rparr>"]) simp
qed

section \<open>Frames the client sends\<close>

lemma emit_frame_fields:
  "CorrelationID (emit_frame c flags kind corr p) = corr"
  "EventKind (emit_frame c flags kind corr p) = kind"
  "FrameVersion (emit_frame c flags kind corr p) = WireVersion"
  "Generation (emit_frame c flags kind corr p) = 0"
  "HdrFlags (emit_frame c flags kind corr p) = (if p = [] then flags else flags OR FInline)"
  "PayloadLen (emit_frame c flags kind corr p) = word_of_nat (length p)"
  "PayloadRef (emit_frame c flags kind corr p) = (if p = [] then 0 else word_of_nat HdrLen)"
  "SrcHandle (emit_frame c flags kind corr p) = Handle c"
  by (simp_all add: emit_frame_def zero_frame_def Let_def)

lemma payload_len_word:
  assumes "length p \<le> 2 ^ 20"
  shows "unat (word_of_nat (length p) :: u32) = length p"
  using assms by (simp add: unat_of_nat)

text \<open>The five flag words the public operations pass to \<open>emit\<close>.\<close>

definition send_flags :: "u16 \<Rightarrow> u64 \<Rightarrow> byte list \<Rightarrow> bool" where
  "send_flags flags corr p \<longleftrightarrow>
     (flags = FNotification \<and> corr = 0) \<or>
     (flags \<in> {FRequest, FReply, FCancel} \<and> corr \<noteq> 0) \<or>
     (flags \<in> {FRequest OR FMore, FReply OR FMore} \<and> corr \<noteq> 0 \<and> p \<noteq> [])"

lemma emit_frame_valid:
  assumes "send_flags flags corr p" and "length p \<le> 2 ^ 20"
  shows "Validate (emit_frame c flags kind corr p) = OK"
proof -
  have "(word_of_nat (length p) :: u32) = 0 \<longleftrightarrow> p = []"
    using payload_len_word [OF assms(2)] by (simp flip: unat_eq_0)
  then show ?thesis
    using assms payload_len_word [OF assms(2)]
    unfolding Validate_iff_wf frame_wf_def placement_wf_def emit_frame_fields send_flags_def
      pattern_flags_def
    by (cases "p = []") auto
qed

lemma fits_length: "payload_fits c p \<Longrightarrow> length p < 2 ^ 32"
  using unsigned_less [of "c_slotSize c", where ?'a = nat] by (auto simp: payload_fits_def)

lemma Poll_good:
  assumes v: "client_view c q cm m" and e: "epoch_current c" and i: "inbox c = s # rest"
    and d: "Decode s zero_frame = (OK, f)" and fits: "unat (c_slotSize c) \<le> in_slot c"
    and nowrap: "delivered c f \<Longrightarrow> unat (PayloadRef f) + unat (PayloadLen f) < 2 ^ 64"
  shows "Poll c = Some (Polled \<lparr>Frame = f, Payload =
      (if delivered c f then slice s (unat (PayloadRef f)) (unat (PayloadLen f)) else [])\<rparr>,
      (settle c q m)\<lparr>pendingRead := True\<rparr>)"
proof (cases "delivered c f")
  case True
  let ?r = "Inbound q" and ?m = "settled_mem c q m"
  let ?off = "slot_off ?r (ring_tail ?r ?m)" and ?stop = "PayloadRef f + ucast (PayloadLen f)"
  note st = view_settle [OF v]
  have inv: "ring_inv ?r ?m" using st(1) by (simp add: client_view_def)
  have s: "slice ?m ?off (unat (ring_slotSize ?r)) = s"
    using ConsumeCommit_tl(3) [OF inv] st(4) i by (simp add: slot_def)
  have e': "unat ?stop = unat (PayloadRef f) + unat (PayloadLen f)"
    using nowrap [OF True] by (subst unat_add_no_wrap) simp_all
  have le: "unat (PayloadRef f) + unat (PayloadLen f) \<le> unat (ring_slotSize ?r)"
    using True fits view_sizes(4) [OF v] e' by (auto simp: delivered_def word_le_nat_alt)
  have "?off + unat (ring_slotSize ?r) \<le> length ?m"
    by (rule slot_off_bounds(2) [OF ring_inv_geom [OF inv]])
  then have "go_reslice ?m ?off (PayloadRef f) ?stop =
      Some (slice ?m (?off + unat (PayloadRef f)) (unat (PayloadLen f)))"
    using le by (simp add: go_reslice_def e')
  also have "slice ?m (?off + unat (PayloadRef f)) (unat (PayloadLen f)) =
      slice s (unat (PayloadRef f)) (unat (PayloadLen f))"
    using le by (simp add: s [symmetric] slice_slice)
  finally show ?thesis by (simp add: Poll_slot [OF v e i d] Let_def True)
qed (simp add: Poll_slot [OF v e i d] Let_def)

lemma emit_success:
  assumes v: "client_view c q cm m" and e: "epoch_current c"
    and "emit c flags kind corr p = Some (None, c')"
  shows "payload_fits c p" and "Validate (emit_frame c flags kind corr p) = OK"
    and "HdrLen \<le> out_slot c" and "length p \<le> 2 ^ 20"
proof -
  show *: "payload_fits c p" "Validate (emit_frame c flags kind corr p) = OK" "HdrLen \<le> out_slot c"
    using assms(3) by (auto simp: emit_eq [OF v e] Let_def split: if_splits)
  have "unat (word_of_nat (length p) :: u32) = length p"
    using fits_length [OF *(1)] by (simp add: unat_of_nat)
  then show "length p \<le> 2 ^ 20"
    using *(2) by (auto simp: Validate_iff_wf frame_wf_def placement_wf_def emit_frame_fields
        split: if_splits simp flip: unat_eq_0)
qed

lemma sent_slot_decodes:
  "Validate f = OK \<Longrightarrow> HdrLen \<le> length sl \<Longrightarrow> Decode (sent_slot f p sl) g = (OK, f)"
  using sent_slot_header [of sl f p] by (auto simp: Decode_frame_bytes)

lemma send_flags_inline: "send_flags flags corr p \<Longrightarrow> flags OR FInline \<noteq> 0 \<and> (flags OR FInline) AND FInline \<noteq> 0"
  by (auto simp: send_flags_def)

lemma placement_delivered:
  assumes "CheckPlacement f (c_slotSize c) arena = OK"
  shows "delivered c f \<longleftrightarrow> HdrFlags f AND FInline \<noteq> 0"
    and "delivered c f \<Longrightarrow> unat (PayloadRef f) + unat (PayloadLen f) < 2 ^ 64"
proof -
  have fits: "PayloadLen f \<noteq> 0 \<and> unat (PayloadRef f) + unat (PayloadLen f) \<le> unat (c_slotSize c)"
    if "HdrFlags f AND FInline \<noteq> 0"
  proof -
    from assms have wf: "frame_wf f" by (simp only: CheckPlacement_iff)
    from wf that show ?thesis
      using assms unfolding CheckPlacement_iff
      by (cases rule: wf_placement_cases; use flag_of_placement [of FInline "HdrFlags f"] in
          \<open>auto simp: frame_wf_def placement_wf_def simp del: fPlacementMask_def\<close>)
  qed
  have small: "unat (c_slotSize c) < 2 ^ 32" using unsigned_less [of "c_slotSize c", where ?'a = nat] by simp
  have "delivered c f" if "HdrFlags f AND FInline \<noteq> 0"
  proof -
    have "unat (PayloadRef f + ucast (PayloadLen f)) = unat (PayloadRef f) + unat (PayloadLen f)"
      using fits [OF that] small by (subst unat_add_no_wrap) simp_all
    then show ?thesis
      using fits [OF that] that by (simp add: delivered_def word_le_nat_alt word_gt_0)
  qed
  then show "delivered c f \<longleftrightarrow> HdrFlags f AND FInline \<noteq> 0" by (auto simp: delivered_def)
  show "unat (PayloadRef f) + unat (PayloadLen f) < 2 ^ 64" if "delivered c f"
    using that fits small by (auto simp: delivered_def)
qed

lemma Poll_bad:
  assumes v: "client_view c q cm m" and e: "epoch_current c" and i: "inbox c = s # rest"
    and d: "Decode s zero_frame = (res, f)" and bad: "res \<noteq> OK"
  shows "\<exists>c'. Poll c = Some (NoEvent, c') \<and> client_inv c' \<and> outbox c' = outbox c \<and> inbox c' = rest"
proof -
  let ?s = "settle c q m"
  note st = view_settle [OF v]
  have ne: "ring_abs (Inbound q) (settled_mem c q m) \<noteq> []" using st(4) i by simp
  have "?s\<lparr>qpMem := x\<rparr> = ?s\<lparr>pendingRead := False, qpMem := x\<rparr>" for x
    by (simp add: settle_def)
  then show ?thesis
    using view_consume [OF st(1) ne] st i
    by (auto simp: Poll_slot [OF v e i d] Let_def bad client_inv_def)
qed

section \<open>Properties of the client\<close>

text \<open>
  C16. Sending is all or nothing. On an attached client whose host has not restarted, \<open>emit\<close>
  never crashes; it reports the payload that does not fit, the full ring or the invalid
  frame, in this order, and then leaves the whole client state unchanged; otherwise exactly
  one slot is appended to what the host will read, and the receive side is untouched.
\<close>

theorem emit_all_or_nothing:
  assumes "client_inv c" and "epoch_current c"
  shows "\<exists>err c'. emit c flags kind corr p = Some (err, c') \<and>
    err = (if \<not> payload_fits c p then Some ErrPayload
           else if length (outbox c) = out_capacity c then Some ErrWouldBlock
           else if Validate (emit_frame c flags kind corr p) \<noteq> OK \<or> out_slot c < HdrLen
             then Some ErrProtocol
           else None) \<and>
    (if err = None
     then (\<exists>sl. length sl = out_slot c \<and>
        outbox c' = outbox c @ [sent_slot (emit_frame c flags kind corr p) p sl]) \<and>
        inbox c' = inbox c \<and> client_inv c'
     else c' = c)"
proof -
  from assms(1) obtain q cm m where v: "client_view c q cm m" by (auto simp: client_inv_def)
  note eq = emit_eq [OF v assms(2), of flags kind corr p]
  show ?thesis
  proof (cases "\<exists>c'. emit c flags kind corr p = Some (None, c')")
    case True
    then obtain c' where c': "emit c flags kind corr p = Some (None, c')" by blast
    from emit_sends [OF v assms(2) c'] show ?thesis
      using c' eq by (auto simp: client_inv_def Let_def split: if_splits)
  next
    case False
    then show ?thesis using eq by (auto simp: Let_def split: if_splits)
  qed
qed

theorem emit_all_or_nothing_witness:
  "\<exists>err c'. emit (empty_client 72 40) FRequest 300 7 [1, 2, 3] = Some (err, c') \<and> err = None \<and>
    length (outbox c') = 1 \<and> client_inv c'"
proof -
  have "Validate (emit_frame (empty_client 72 40) FRequest 300 7 [1, 2, 3]) = OK"
    by (rule emit_frame_valid) (simp_all add: send_flags_def)
  moreover have "outbox (empty_client 72 40) = []" using empty_client_view [of 72 40] by auto
  ultimately show ?thesis
    using emit_all_or_nothing [of "empty_client 72 40" FRequest 300 7 "[1, 2, 3]"] empty_client_inv [of 72 40]
    by (auto simp: payload_fits_def)
qed

text \<open>
  C15. What one side sends is what the other side receives. If an attached client sends a
  payload with any of the public send operations' flags, and the slot it published becomes
  the next one of an attached receiver with the same slot size, the receiver's \<open>Poll\<close>
  returns exactly the frame and the payload that were sent and removes exactly that slot.
\<close>

theorem emit_poll_delivery:
  assumes "client_inv c" and "epoch_current c" and "send_flags flags corr p"
    and "emit c flags kind corr p = Some (None, c')"
    and "client_inv d" and "epoch_current d" and "inbox d = last (outbox c') # rest"
    and "c_slotSize d = c_slotSize c" and "unat (c_slotSize c) \<le> out_slot c"
    and "unat (c_slotSize d) \<le> in_slot d"
  shows "\<exists>d'. Poll d = Some (Polled \<lparr>Frame = emit_frame c flags kind corr p, Payload = p\<rparr>, d') \<and>
    inbox d' = rest \<and> outbox d' = outbox d \<and> client_inv d'"
proof -
  from assms(1,5) obtain q cm m qd cmd md where v: "client_view c q cm m" and vd: "client_view d qd cmd md"
    by (auto simp: client_inv_def)
  let ?f = "emit_frame c flags kind corr p"
  note ok = emit_success [OF v assms(2,4)]
  from emit_sends [OF v assms(2,4)] obtain sl where sl: "length sl = out_slot c"
    and "outbox c' = outbox c @ [sent_slot ?f p sl]" by blast
  with assms(7) have i: "inbox d = sent_slot ?f p sl # rest" by simp
  have d: "Decode (sent_slot ?f p sl) zero_frame = (OK, ?f)"
    using ok sl by (simp add: sent_slot_decodes)
  have len: "unat (PayloadLen ?f) = length p"
    using payload_len_word [OF ok(4)] by (simp add: emit_frame_fields)
  have sum: "unat (PayloadRef ?f) + unat (PayloadLen ?f) < 2 ^ 64"
    using ok(4) len by (simp add: emit_frame_fields)
  have pay: "(if delivered d ?f then slice (sent_slot ?f p sl) (unat (PayloadRef ?f)) (unat (PayloadLen ?f)) else []) = p"
  proof (cases "p = []")
    case True
    then show ?thesis by (simp add: delivered_def emit_frame_fields)
  next
    case False
    then have fit: "HdrLen + length p \<le> unat (c_slotSize c)" using ok(1) by (simp add: payload_fits_def)
    have "unat (PayloadRef ?f + ucast (PayloadLen ?f)) = HdrLen + length p"
      using sum False by (subst unat_add_no_wrap) (simp_all add: len, simp add: emit_frame_fields)
    then have "PayloadRef ?f + ucast (PayloadLen ?f) \<le> ucast (c_slotSize d)"
      using fit assms(8) by (simp add: word_le_nat_alt)
    moreover have "0 < PayloadLen ?f" using len False by (simp add: word_less_nat_alt)
    moreover have "HdrFlags ?f AND FInline \<noteq> 0"
      using False send_flags_inline [OF assms(3)] by (simp add: emit_frame_fields)
    ultimately have "delivered d ?f" by (simp add: delivered_def)
    moreover have "slice (sent_slot ?f p sl) HdrLen (length p) = p"
      using fit assms(9) sl by (simp add: sent_slot_eq layout_simps)
    ultimately show ?thesis using False len by (simp add: emit_frame_fields)
  qed
  show ?thesis
    using Poll_good [OF vd assms(6) i d assms(10) sum] view_pending [OF vd i] unfolding pay
    by (auto simp: client_inv_def)
qed

theorem emit_poll_delivery_witness:
  "\<exists>d d'. Poll d = Some (Polled \<lparr>Frame = emit_frame (empty_client 72 40) FRequest 300 7 [1, 2, 3],
      Payload = [1, 2, 3]\<rparr>, d') \<and> inbox d' = [] \<and> outbox d' = outbox d \<and> client_inv d'"
proof -
  let ?c = "empty_client 72 40" and ?p = "[1, 2, 3] :: byte list"
  have flags: "send_flags FRequest 7 ?p" by (simp add: send_flags_def)
  obtain q where v: "client_view ?c q (replicate 96 0) (replicate (128 + 2 * (ringHdrBytes + unat (72 :: u32) * 8)) 0)"
    and o: "outbox ?c = []" using empty_client_view [of 72 40] by auto
  have "Validate (emit_frame ?c FRequest 300 7 ?p) = OK"
    by (rule emit_frame_valid [OF flags]) simp
  then obtain c' where e: "emit ?c FRequest 300 7 ?p = Some (None, c')"
    using emit_eq [OF v, of FRequest 300 7 ?p] o by (auto simp: Let_def payload_fits_def)
  from emit_sends [OF v _ e] o obtain s where s: "outbox c' = [s]" "length s = 72"
    by (auto simp: length_sent_slot)
  from client_with_inbox [of 72 s 40] s obtain d where d: "client_inv d" "epoch_current d" "inbox d = [s]"
    "c_slotSize d = 72" "in_slot d = 72" by auto
  show ?thesis
    by (rule exI [of _ d], rule emit_poll_delivery [OF _ _ flags e])
      (use d s empty_client_inv [of 72 40] in simp_all)
qed

text \<open>
  C17. \<open>Poll\<close> is total on traffic that passes \<open>CheckPlacement\<close>. If every received slot that
  decodes has its payload inside the slot, \<open>Poll\<close> does not crash, hands out the slots in the
  order they arrived (a slot that does not decode is dropped and reported as no event, an
  arena payload is not handed out), keeps the client attached and never touches what the
  client has sent.
\<close>

theorem Poll_checked_traffic:
  assumes "client_inv c" and "epoch_current c" and "unat (c_slotSize c) \<le> in_slot c"
    and "\<forall>s \<in> set (inbox c). \<forall>f. Decode s zero_frame = (OK, f) \<longrightarrow>
      CheckPlacement f (c_slotSize c) arena = OK"
  shows "\<exists>res c'. Poll c = Some (res, c') \<and> client_inv c' \<and> outbox c' = outbox c \<and>
    inbox c' = tl (inbox c) \<and>
    (case inbox c of
       [] \<Rightarrow> res = NoEvent
     | s # _ \<Rightarrow>
         (case Decode s zero_frame of
            (r, f) \<Rightarrow> if r \<noteq> OK then res = NoEvent
              else \<exists>p. res = Polled \<lparr>Frame = f, Payload = p\<rparr> \<and>
                (HdrFlags f AND FInline \<noteq> 0 \<longrightarrow>
                   p = slice s (unat (PayloadRef f)) (unat (PayloadLen f)))))"
proof (cases "inbox c")
  case Nil
  from assms(1) obtain q cm m where v: "client_view c q cm m" by (auto simp: client_inv_def)
  show ?thesis
    using Poll_empty [OF v assms(2) Nil] view_settle [OF v] Nil by (auto simp: client_inv_def)
next
  case (Cons s rest)
  from assms(1) obtain q cm m where v: "client_view c q cm m" by (auto simp: client_inv_def)
  obtain res f where d: "Decode s zero_frame = (res, f)" by fastforce
  show ?thesis
  proof (cases "res = OK")
    case True
    with d have ok: "Decode s zero_frame = (OK, f)" by simp
    then have "CheckPlacement f (c_slotSize c) arena = OK" using assms(4) Cons by simp
    note del = placement_delivered [OF this]
    show ?thesis
      using Poll_good [OF v assms(2) Cons ok assms(3) del(2)] view_pending [OF v Cons] Cons ok del(1)
      by (auto simp: client_inv_def)
  next
    case False
    from Poll_bad [OF v assms(2) Cons d False] show ?thesis using Cons d False by auto
  qed
qed

definition ping_frame :: frame where
  \<comment> \<open>a notification without payload, for concrete runs\<close>
  "ping_frame = zero_frame\<lparr>HdrFlags := FNotification, FrameVersion := 3, EventKind := 300\<rparr>"

lemma ping_frame_valid: "Validate ping_frame = OK"
  by (simp add: ping_frame_def Validate_def zero_frame_def exactlyOne_def Let_def)

theorem Poll_checked_traffic_witness:
  "\<exists>c c'. inbox c = [frame_bytes ping_frame @ replicate 8 0] \<and>
    Poll c = Some (Polled \<lparr>Frame = ping_frame, Payload = []\<rparr>, c') \<and> client_inv c' \<and> inbox c' = []"
proof -
  let ?s = "frame_bytes ping_frame @ replicate 8 0"
  from client_with_inbox [of 72 ?s 40] obtain c where c: "client_inv c" "epoch_current c" "inbox c = [?s]"
    "c_slotSize c = 72" "in_slot c = 72" by auto
  have dec: "Decode ?s g = (OK, ping_frame)" for g
    by (simp add: Decode_frame_bytes ping_frame_valid)
  have pl: "PayloadLen ping_frame = 0" "HdrFlags ping_frame AND FInline = 0"
    by (simp_all add: ping_frame_def zero_frame_def)
  have place: "CheckPlacement ping_frame 72 16 = OK"
    using ping_frame_valid pl by (simp add: CheckPlacement_def)
  from c(1) obtain q cm m where v: "client_view c q cm m" by (auto simp: client_inv_def)
  from Poll_checked_traffic [of c 16] c dec place obtain c' p where
    r: "Poll c = Some (Polled \<lparr>Frame = ping_frame, Payload = p\<rparr>, c')" "client_inv c'" "inbox c' = []"
    by auto
  have "p = []"
    using r(1) Poll_slot [OF v c(2,3) dec] pl by (simp add: Let_def delivered_def)
  with r c show ?thesis by blast
qed

text \<open>
  C36. \<open>Poll\<close> does not make that check itself, and its own bound wraps around. A frame that
  \<open>Decode\<close> accepts and whose inline payload reference plus length exceeds 2^64 passes the
  test \<open>PayloadRef+PayloadLen <= slotSize\<close> when the wrapped sum is small; the slice
  expression that follows then panics, and the client process dies.
\<close>

theorem Poll_wrapping_reference_panics:
  assumes "client_inv c" and "epoch_current c" and "inbox c = s # rest"
    and "Decode s zero_frame = (OK, f)" and "HdrFlags f AND FInline \<noteq> 0"
    and "2 ^ 64 \<le> unat (PayloadRef f) + unat (PayloadLen f)"
    and "unat (PayloadRef f) + unat (PayloadLen f) - 2 ^ 64 \<le> unat (c_slotSize c)"
  shows "Poll c = None"
proof -
  from assms(1) obtain q cm m where v: "client_view c q cm m" by (auto simp: client_inv_def)
  let ?e = "PayloadRef f + ucast (PayloadLen f)"
  have lt: "?e < PayloadRef f" using assms(6) by (simp add: add_wraps_iff)
  have "unat (PayloadRef f) < 2 ^ 64" "unat (PayloadLen f) < 2 ^ 32"
    using unsigned_less [of "PayloadRef f", where ?'a = nat]
      unsigned_less [of "PayloadLen f", where ?'a = nat] by simp_all
  then have "unat ?e = unat (PayloadRef f) + unat (PayloadLen f) - 2 ^ 64"
    using assms(6) by (simp add: unat_word_ariths le_mod_geq)
  then have le: "?e \<le> ucast (c_slotSize c)" using assms(7) by (simp add: word_le_nat_alt)
  have "PayloadLen f \<noteq> 0" using lt by auto
  then have "delivered c f" using assms(5) le by (simp add: delivered_def word_gt_0)
  moreover have "go_reslice m' off (PayloadRef f) ?e = None" for m' off
    using lt by (simp add: go_reslice_def word_less_nat_alt)
  ultimately show ?thesis
    by (simp add: Poll_slot [OF v assms(2,3,4)] Let_def)
qed

definition wrap_frame :: frame where
  \<comment> \<open>a valid inline notification of 20 bytes whose payload reference is 2^64 - 10\<close>
  "wrap_frame = ping_frame\<lparr>HdrFlags := FNotification OR FInline, PayloadRef := - 10, PayloadLen := 20\<rparr>"

theorem Poll_wrapping_reference_panics_witness:
  "\<exists>c. client_inv c \<and> epoch_current c \<and> inbox c = [frame_bytes wrap_frame @ replicate 8 0] \<and>
    Poll c = None"
proof -
  let ?s = "frame_bytes wrap_frame @ replicate 8 0"
  from client_with_inbox [of 72 ?s 40] obtain c where c: "client_inv c" "epoch_current c" "inbox c = [?s]"
    "c_slotSize c = 72" "in_slot c = 72" by auto
  have val: "Validate wrap_frame = OK"
    by (simp add: wrap_frame_def ping_frame_def Validate_def zero_frame_def exactlyOne_def Let_def)
  have "Poll c = None"
    by (rule Poll_wrapping_reference_panics [OF c(1-3) Decode_frame_bytes [OF val]])
      (simp_all add: wrap_frame_def ping_frame_def zero_frame_def c(4))
  with c show ?thesis by blast
qed

text \<open>
  Detaching does not disarm the client: \<open>Detach\<close> unmaps the regions but keeps the views,
  so on a client that had been attached the guard \<open>c.control == nil\<close> of the operations does
  not fire and each of them dereferences an unmapped region.
\<close>

theorem Detach_leaves_dangling_views:
  assumes "control c" and "qp c = Some q"
  shows "EpochChanged (Detach c) = None \<and> Poll (Detach c) = None \<and>
    Heartbeat (Detach c) now = None \<and> ControlLost (Detach c) = None \<and>
    emit (Detach c) flags kind corr [] = None"
  using assms
  by (simp add: EpochChanged_def Poll_def Heartbeat_def ControlLost_def emit_def Detach_def)

theorem Detach_leaves_dangling_views_witness:
  "control (empty_client 72 40) \<and> Poll (Detach (empty_client 72 40)) = None"
proof -
  obtain q where "client_view (empty_client 72 40) q (replicate 96 0)
      (replicate (128 + 2 * (ringHdrBytes + unat (72 :: u32) * 8)) 0)"
    using empty_client_view [of 72 40] by auto
  then have "control (empty_client 72 40)" "qp (empty_client 72 40) = Some q"
    by (simp_all add: client_view_def)
  from Detach_leaves_dangling_views [OF this] this show ?thesis by blast
qed

text \<open>A host restart stops the client: once the epoch in the control region differs from the
  one seen at attach, \<open>Poll\<close> and every send report \<open>ErrEpoch\<close> (a send whose payload does not
  fit still reports that first) and change nothing.
\<close>

theorem epoch_change_stops:
  assumes "control c" and "ctlMem c = Some cm" and "Epoch cm \<noteq> attachedEpoch c"
  shows "Poll c = Some (PollError ErrEpoch, c) \<and>
    emit c flags kind corr p = Some (Some (if payload_fits c p then ErrEpoch else ErrPayload), c)"
  using assms by (auto simp: Poll_def emit_def EpochChanged_def payload_fits_def)

theorem epoch_change_stops_witness:
  "Poll ((empty_client 72 40)\<lparr>attachedEpoch := 9\<rparr>) =
    Some (PollError ErrEpoch, (empty_client 72 40)\<lparr>attachedEpoch := 9\<rparr>)"
  using epoch_change_stops [of "(empty_client 72 40)\<lparr>attachedEpoch := 9\<rparr>" "replicate 96 0"]
  by (simp add: empty_client_def Let_def Epoch_def)

end
