(* ===== verification/Bus_Attach.thy ===== *)
theory Bus_Attach
  imports Client
begin

text \<open>
  Attaching to the bus: \<open>AttachAs\<close> and \<open>parseRights\<close> of \<open>server-go/bus/client.go\<close>, the connect
  loops of \<open>ConnectClient\<close> (\<open>client_connect.go\<close>) and \<open>connectModule\<close> (\<open>module_runtime.go\<close>), and the
  heartbeat goroutine \<open>keepAlive\<close>.

  What the operating system and the host answer to the calls of one attempt is a record of
  outcomes, and the open descriptors and the mappings of the process are the state these
  calls change, so that every early return shows what it leaves behind. The two parsers of
  package \<open>unix\<close> (golang.org/x/sys) are a parameter. A retry loop that never ends has the
  value \<open>None\<close>.
\<close>

section \<open>The operating system\<close>

definition EINVAL :: nat where [simp]: "EINVAL = 22"
definition ECONNREFUSED :: nat where [simp]: "ECONNREFUSED = 111"
definition SOL_SOCKET :: int where [simp]: "SOL_SOCKET = 1"
definition SCM_RIGHTS :: int where [simp]: "SCM_RIGHTS = 1"

record control_message =
  cm_Level :: int
  cm_Type :: int
  cm_Data :: "byte list"

record unix_parsers =
  ParseSocketControlMessage :: "byte list \<Rightarrow> control_message list option"
  ParseUnixRights :: "control_message \<Rightarrow> nat list option"

datatype region = ControlRegion | ArenaRegion | QueueRegion

record kernel =
  k_fds :: "nat list"           \<comment> \<open>the open descriptors\<close>
  k_maps :: "region list"       \<comment> \<open>the live mappings, the latest first\<close>
  k_sent :: "byte list list"    \<comment> \<open>the messages sent\<close>

record attach_outcome =
  ao_sendmsg :: "nat option"    \<comment> \<open>the error number\<close>
  ao_recvmsg :: "nat + byte list \<times> byte list \<times> nat list"
    \<comment> \<open>the bytes of the message, its control bytes, and the descriptors it brings\<close>
  ao_mmap :: "region \<Rightarrow> nat + (nat \<Rightarrow> byte)"

definition sys_close :: "nat \<Rightarrow> kernel \<Rightarrow> kernel" where
  "sys_close fd k = k\<lparr>k_fds := removeAll fd (k_fds k)\<rparr>"

definition sys_mmap :: "attach_outcome \<Rightarrow> region \<Rightarrow> int \<Rightarrow> kernel \<Rightarrow> (bus_error + mem) \<times> kernel" where
  \<comment> \<open>\<open>unix.Mmap\<close>: a length that is not positive is refused\<close>
  "sys_mmap os r len k =
    (if len \<le> 0 then (Inl (ErrSyscall EINVAL), k)
     else case ao_mmap os r of
       Inl e \<Rightarrow> (Inl (ErrSyscall e), k)
     | Inr contents \<Rightarrow> (Inr (map contents [0..<nat len]), k\<lparr>k_maps := r # k_maps k\<rparr>))"

definition sys_munmap :: "region \<Rightarrow> kernel \<Rightarrow> kernel" where
  "sys_munmap r k = k\<lparr>k_maps := remove1 r (k_maps k)\<rparr>"

section \<open>The handshake\<close>

definition attachReqMagic :: u32 where [simp]: "attachReqMagic = 0x51524241"
definition attachReplyMagic :: u32 where [simp]: "attachReplyMagic = 0x50524241"
definition attachReqBytes :: nat where [simp]: "attachReqBytes = 16"
definition attachReplyBytes :: nat where [simp]: "attachReplyBytes = 48"
definition AttachOK :: u32 where [simp]: "AttachOK = 0"
definition AttachDeniedPolicy :: u32 where [simp]: "AttachDeniedPolicy = 1"
definition AttachDeniedVersion :: u32 where [simp]: "AttachDeniedVersion = 2"
definition AttachDeniedNoSlot :: u32 where [simp]: "AttachDeniedNoSlot = 3"
definition AttachProtocol :: u32 where [simp]: "AttachProtocol = 4"

fun collect_rights :: "unix_parsers \<Rightarrow> control_message list \<Rightarrow> nat list \<Rightarrow> nat list" where
  "collect_rights ps [] fds = fds"
| "collect_rights ps (m # ms) fds =
    (if cm_Level m = SOL_SOCKET \<and> cm_Type m = SCM_RIGHTS then
       (case ParseUnixRights ps m of
          Some f \<Rightarrow> collect_rights ps ms (fds @ f)
        | None \<Rightarrow> collect_rights ps ms fds)
     else collect_rights ps ms fds)"

definition parseRights :: "unix_parsers \<Rightarrow> byte list \<Rightarrow> nat list" where
  "parseRights ps oob =
    (if length oob = 0 then []
     else case ParseSocketControlMessage ps oob of
       None \<Rightarrow> []
     | Some msgs \<Rightarrow> collect_rights ps msgs [])"

definition attach_request :: "u32 \<Rightarrow> u32 \<Rightarrow> byte list" where
  "attach_request principalClass principalRef =
    (let req = put_u32 (replicate attachReqBytes 0) 0 attachReqMagic;
         req = put_u16 req 4 WireVersion;
         req = put_u16 req 6 WireVersion;
         req = put_u32 req 8 principalClass
     in put_u32 req 12 principalRef)"

definition denied_client :: "u32 \<Rightarrow> client" where
  \<comment> \<open>\<open>&Client{Status: status}\<close>\<close>
  "denied_client status =
    \<lparr>Handle = 0, ClientStatus = status, c_slotSize = 0, inlineBudget = 0, queueCapacity = 0,
     arenaSize = 0, attachedEpoch = 0, control = False, qp = None, arenaMem = None, ctlMem = None,
     qpMem = None, pendingRead = False\<rparr>"

definition reply_client :: "byte list \<Rightarrow> client" where
  "reply_client buf =
    (denied_client (get_u32 buf 4))
      \<lparr>Handle := get_u32 buf 8, c_slotSize := get_u32 buf 16, inlineBudget := get_u32 buf 20,
       queueCapacity := get_u32 buf 24, arenaSize := get_u64 buf 32, attachedEpoch := get_u64 buf 40\<rparr>"

definition close_all :: "nat list \<Rightarrow> kernel \<Rightarrow> kernel" where
  "close_all fds k = fold sys_close fds k"

definition detach_maps :: "client \<Rightarrow> kernel \<Rightarrow> kernel" where
  \<comment> \<open>the \<open>Munmap\<close> calls of \<open>Detach\<close>\<close>
  "detach_maps c k =
    (let k = (if ctlMem c \<noteq> None then sys_munmap ControlRegion k else k);
         k = (if arenaMem c \<noteq> None then sys_munmap ArenaRegion k else k)
     in if qpMem c \<noteq> None then sys_munmap QueueRegion k else k)"

definition map_regions :: "attach_outcome \<Rightarrow> client \<Rightarrow> nat list \<Rightarrow> kernel \<Rightarrow> (bus_error + client) \<times> kernel" where
  \<comment> \<open>the three mappings, and the descriptors closed on every path\<close>
  "map_regions os c fds k =
    (case sys_mmap os ControlRegion (int ctlBytes) k of
       (Inl e, k) \<Rightarrow> (Inl e, close_all fds k)
     | (Inr ctl, k) \<Rightarrow>
    (case sys_mmap os ArenaRegion (sint (16 + arenaSize c)) k of
       (Inl e, k) \<Rightarrow> (Inl e, close_all fds (sys_munmap ControlRegion k))
     | (Inr arena, k) \<Rightarrow>
    (case sys_mmap os QueueRegion (qpairBytes (c_slotSize c) (queueCapacity c)) k of
       (Inl e, k) \<Rightarrow> (Inl e, close_all fds (sys_munmap ArenaRegion (sys_munmap ControlRegion k)))
     | (Inr qm, k) \<Rightarrow>
        (Inr (c\<lparr>ctlMem := Some ctl, arenaMem := Some arena, qpMem := Some qm\<rparr>), close_all fds k))))"

type_synonym attach_return = "client option \<times> bus_error option"

definition attach_views :: "client \<Rightarrow> kernel \<Rightarrow> attach_return \<times> kernel" where
  \<comment> \<open>the checks of the mapped regions; a refusal detaches\<close>
  "attach_views c k =
    (case AttachControl (the (ctlMem c)) of
       Inl e \<Rightarrow> ((None, Some e), detach_maps c k)
     | Inr _ \<Rightarrow>
        (case AttachQueuePair (the (qpMem c)) of
           Inl e \<Rightarrow> ((None, Some e), detach_maps c k)
         | Inr q \<Rightarrow> ((Some (c\<lparr>control := True, qp := Some q\<rparr>), None), k)))"

definition attach_reply ::
  "attach_outcome \<Rightarrow> nat \<Rightarrow> byte list \<Rightarrow> nat list \<Rightarrow> kernel \<Rightarrow> attach_return \<times> kernel" where
  \<comment> \<open>from the checks of the reply on: \<open>n\<close> bytes were received, and the descriptors\<close>
  "attach_reply os n replyBuf fds k =
    (if n \<noteq> attachReplyBytes \<or> get_u32 replyBuf 0 \<noteq> attachReplyMagic
     then ((None, Some ErrProtocol), close_all fds k)
     else if get_u32 replyBuf 4 \<noteq> AttachOK
     then ((Some (denied_client (get_u32 replyBuf 4)), Some ErrDenied), close_all fds k)
     else if length fds \<noteq> 3
     then ((None, Some ErrProtocol), close_all fds k)
     else case map_regions os (reply_client replyBuf) fds k of
       (Inl e, k) \<Rightarrow> ((None, Some e), k)
     | (Inr c, k) \<Rightarrow> attach_views c k)"

definition AttachAs :: "unix_parsers \<Rightarrow> attach_outcome \<Rightarrow> u32 \<Rightarrow> u32 \<Rightarrow> kernel \<Rightarrow> attach_return \<times> kernel" where
  "AttachAs ps os principalClass principalRef k =
    (case ao_sendmsg os of
       Some e \<Rightarrow> ((None, Some (ErrSyscall e)), k)
     | None \<Rightarrow>
        let k = k\<lparr>k_sent := k_sent k @ [attach_request principalClass principalRef]\<rparr>
        in (case ao_recvmsg os of
              Inl e \<Rightarrow> ((None, Some (ErrSyscall e)), k)
            | Inr (bytes, oob, installed) \<Rightarrow>
               let n = min attachReplyBytes (length bytes)
               in attach_reply os n (take n bytes @ replicate (attachReplyBytes - n) 0) (parseRights ps oob)
                    (k\<lparr>k_fds := installed @ k_fds k\<rparr>)))"

definition Attach :: "unix_parsers \<Rightarrow> attach_outcome \<Rightarrow> kernel \<Rightarrow> attach_return \<times> kernel" where
  "Attach ps os k = AttachAs ps os 0 0 k"

section \<open>Connecting\<close>

record connect_outcome =
  co_socket :: "nat + nat"       \<comment> \<open>the error number, or the descriptor\<close>
  co_connect :: "nat option"
  co_attach :: attach_outcome
  co_done :: bool                \<comment> \<open>the context ends before the retry timer\<close>

definition connect_attempt ::
  "unix_parsers \<Rightarrow> connect_outcome \<Rightarrow> u32 \<Rightarrow> u32 \<Rightarrow> kernel \<Rightarrow> attach_return option \<times> kernel" where
  \<comment> \<open>one pass through the loop up to the \<open>select\<close>; \<open>None\<close> when the connection was refused\<close>
  "connect_attempt ps os principalClass principalRef k =
    (case co_socket os of
       Inl e \<Rightarrow> (Some (None, Some (ErrSyscall e)), k)
     | Inr fd \<Rightarrow>
        let k = k\<lparr>k_fds := fd # k_fds k\<rparr>
        in (case co_connect os of
              None \<Rightarrow>
                let (ret, k) = AttachAs ps (co_attach os) principalClass principalRef k
                in (Some ret, sys_close fd k)
            | Some e \<Rightarrow>
                let k = sys_close fd k
                in if e \<noteq> ECONNREFUSED then (Some (None, Some (ErrSyscall e)), k) else (None, k)))"

partial_function (option) connect_loop ::
  "unix_parsers \<Rightarrow> (nat \<Rightarrow> connect_outcome) \<Rightarrow> u32 \<Rightarrow> u32 \<Rightarrow> nat \<Rightarrow> kernel \<Rightarrow> (attach_return \<times> kernel) option" where
  "connect_loop ps os principalClass principalRef i k =
    (case connect_attempt ps (os i) principalClass principalRef k of
       (Some ret, k) \<Rightarrow> Some (ret, k)
     | (None, k) \<Rightarrow>
        if co_done (os i) then Some ((None, Some ErrContext), k)
        else connect_loop ps os principalClass principalRef (i + 1) k)"

definition connectModule ::
  "unix_parsers \<Rightarrow> (nat \<Rightarrow> connect_outcome) \<Rightarrow> u32 \<Rightarrow> u32 \<Rightarrow> kernel \<Rightarrow> (attach_return \<times> kernel) option" where
  "connectModule ps os principalClass principalRef k = connect_loop ps os principalClass principalRef 0 k"

definition ConnectClient ::
  "unix_parsers \<Rightarrow> (nat \<Rightarrow> connect_outcome) \<Rightarrow> string \<Rightarrow> u32 \<Rightarrow> u32 \<Rightarrow> kernel \<Rightarrow>
    (attach_return \<times> bool \<times> kernel) option" where
  \<comment> \<open>with whether the goroutine \<open>keepAlive\<close> was started\<close>
  "ConnectClient ps os socketPath principalClass principalRef k =
    (if socketPath = [] then Some ((None, Some ErrModuleConfig), False, k)
     else map_option (\<lambda>(ret, k). (ret, snd ret = None, k))
       (connect_loop ps os principalClass principalRef 0 k))"

text \<open>The heartbeat goroutine: what its \<open>select\<close> delivers, the clock with every tick.\<close>

datatype keep_event = KeepDone | Tick u64

fun keepAlive :: "keep_event list \<Rightarrow> client \<Rightarrow> client option" where
  "keepAlive [] c = Some c"
| "keepAlive (KeepDone # es) c = Some c"
| "keepAlive (Tick now # es) c =
    (if now \<noteq> 0 then (case Heartbeat c now of None \<Rightarrow> None | Some c \<Rightarrow> keepAlive es c) else keepAlive es c)"

section \<open>Facts about descriptors and mappings\<close>

lemma close_all_fields [simp]:
  "k_fds (close_all fds k) = filter (\<lambda>fd. fd \<notin> set fds) (k_fds k)"
  "k_maps (close_all fds k) = k_maps k" "k_sent (close_all fds k) = k_sent k"
  unfolding close_all_def
  by (induction fds arbitrary: k) (auto simp: sys_close_def removeAll_filter_not_eq intro!: filter_cong)

lemma sys_munmap_fields [simp]:
  "k_fds (sys_munmap r k) = k_fds k" "k_maps (sys_munmap r k) = remove1 r (k_maps k)"
  "k_sent (sys_munmap r k) = k_sent k"
  by (simp_all add: sys_munmap_def)

lemma detach_maps_fields [simp]:
  "k_fds (detach_maps c k) = k_fds k" "k_sent (detach_maps c k) = k_sent k"
  by (simp_all add: detach_maps_def)

definition mapped :: "client \<Rightarrow> bool" where
  \<comment> \<open>all three regions are mapped\<close>
  "mapped c \<longleftrightarrow> ctlMem c \<noteq> None \<and> arenaMem c \<noteq> None \<and> qpMem c \<noteq> None"

definition attach_maps :: "region list" where
  "attach_maps = [QueueRegion, ArenaRegion, ControlRegion]"

lemma detach_mapped: "mapped c \<Longrightarrow> k_maps k = attach_maps @ ms \<Longrightarrow> k_maps (detach_maps c k) = ms"
  by (simp add: mapped_def detach_maps_def attach_maps_def)

lemma map_regions_cases:
  assumes "map_regions os c fds k = (r, k')"
  shows "k_fds k' = filter (\<lambda>fd. fd \<notin> set fds) (k_fds k) \<and> k_sent k' = k_sent k \<and>
    (case r of
       Inl e \<Rightarrow> k_maps k' = k_maps k
     | Inr c' \<Rightarrow> k_maps k' = attach_maps @ k_maps k \<and> mapped c')"
  using assms
  by (auto simp: map_regions_def sys_mmap_def attach_maps_def mapped_def split: prod.splits sum.splits if_splits)

lemma attach_views_cases:
  assumes "attach_views c k = (ret, k')" and "mapped c" and "k_maps k = attach_maps @ ms"
  shows "k_fds k' = k_fds k \<and> k_sent k' = k_sent k \<and>
    (case ret of
       (None, e) \<Rightarrow> e \<noteq> None \<and> k_maps k' = ms
     | (Some c', e) \<Rightarrow> e = None \<and> mapped c' \<and> k_maps k' = attach_maps @ ms)"
  using assms detach_mapped [OF assms(2,3)]
  by (auto simp: attach_views_def mapped_def split: sum.splits)


section \<open>What one attach leaves behind\<close>

definition rights_delivered :: "unix_parsers \<Rightarrow> attach_outcome \<Rightarrow> kernel \<Rightarrow> bool" where
  \<comment> \<open>the parsers find exactly the descriptors the kernel installed, which were not in use\<close>
  "rights_delivered ps os k \<longleftrightarrow>
     (case ao_recvmsg os of
        Inl e \<Rightarrow> True
      | Inr (bytes, oob, fds) \<Rightarrow> set (parseRights ps oob) = set fds \<and> set fds \<inter> set (k_fds k) = {})"

definition settled :: "attach_return \<Rightarrow> kernel \<Rightarrow> kernel \<Rightarrow> bool" where
  \<comment> \<open>what a return of \<open>AttachAs\<close> leaves: no descriptor, and mappings exactly behind a client that is handed out\<close>
  "settled ret k k' \<longleftrightarrow> k_fds k' = k_fds k \<and>
     (case ret of
        (Some c, None) \<Rightarrow> mapped c \<and> k_maps k' = attach_maps @ k_maps k
      | (Some c, Some e) \<Rightarrow> e = ErrDenied \<and> \<not> control c \<and> ClientStatus c \<noteq> AttachOK \<and> k_maps k' = k_maps k
      | (None, e) \<Rightarrow> e \<noteq> None \<and> k_maps k' = k_maps k)"

lemma settled_cong: "k_fds k1 = k_fds k \<Longrightarrow> k_maps k1 = k_maps k \<Longrightarrow> settled ret k1 k' = settled ret k k'"
  by (auto simp: settled_def split: prod.splits option.splits)

lemma attach_reply_settled:
  assumes "attach_reply os n buf fds k1 = (ret, k')"
    and "filter (\<lambda>fd. fd \<notin> set fds) (k_fds k1) = k_fds k" and "k_maps k1 = k_maps k"
  shows "settled ret k k'"
proof -
  obtain r k2 where r: "map_regions os (reply_client buf) fds k1 = (r, k2)" by fastforce
  show ?thesis
    using assms(1) map_regions_cases [OF r] assms(2,3) attach_views_cases [of _ k2 ret k' "k_maps k"]
    by (auto simp: attach_reply_def r settled_def denied_client_def
        split: if_splits sum.splits prod.splits option.splits; blast)
qed

lemma AttachAs_settled:
  assumes "rights_delivered ps os k" and "AttachAs ps os principalClass principalRef k = (ret, k')"
  shows "settled ret k k'"
proof (cases "ao_sendmsg os")
  case (Some e)
  then show ?thesis using assms(2) by (auto simp: AttachAs_def settled_def)
next
  case send: None
  show ?thesis
  proof (cases "ao_recvmsg os")
    case (Inl e)
    then show ?thesis using assms(2) send by (auto simp: AttachAs_def settled_def)
  next
    case (Inr msg)
    obtain bytes oob installed where m: "msg = (bytes, oob, installed)" by (cases msg)
    have "set (parseRights ps oob) = set installed" "set (parseRights ps oob) \<inter> set (k_fds k) = {}"
      using assms(1) Inr m by (simp_all add: rights_delivered_def)
    then have "filter (\<lambda>fd. fd \<notin> set (parseRights ps oob)) (installed @ k_fds k) = k_fds k"
      by (auto simp: filter_empty_conv filter_id_conv)
    moreover note assms(2)
    ultimately show ?thesis
      using send Inr m by (auto simp: AttachAs_def Let_def intro: attach_reply_settled)
  qed
qed

section \<open>When the attach succeeds\<close>

definition region_of :: "attach_outcome \<Rightarrow> region \<Rightarrow> int \<Rightarrow> mem \<Rightarrow> bool" where
  "region_of os r len m \<longleftrightarrow> 0 < len \<and> (case ao_mmap os r of Inl e \<Rightarrow> False | Inr f \<Rightarrow> m = map f [0..<nat len])"

lemma sys_mmap_iff: "fst (sys_mmap os r len k) = Inr m \<longleftrightarrow> region_of os r len m"
  by (auto simp: sys_mmap_def region_of_def split: sum.splits)

lemma get_take [simp]:
  "off + 4 \<le> n \<Longrightarrow> get_u32 (take n m) off = get_u32 m off"
  "off + 8 \<le> n \<Longrightarrow> get_u64 (take n m) off = get_u64 m off"
  by (simp_all add: get_u32_def get_u64_def slice_def drop_take min_def)

definition attached_client :: "byte list \<Rightarrow> queue_pair \<Rightarrow> mem \<Rightarrow> mem \<Rightarrow> mem \<Rightarrow> client" where
  \<comment> \<open>the client built from the reply and the mapped regions\<close>
  "attached_client reply q ctl arena qm =
    (reply_client reply)\<lparr>ctlMem := Some ctl, arenaMem := Some arena, qpMem := Some qm, control := True, qp := Some q\<rparr>"

definition regions_of :: "attach_outcome \<Rightarrow> client \<Rightarrow> mem \<Rightarrow> mem \<Rightarrow> mem \<Rightarrow> bool" where
  \<comment> \<open>what the three \<open>Mmap\<close> calls return for the sizes of the reply\<close>
  "regions_of os c ctl arena qm \<longleftrightarrow>
     region_of os ControlRegion (int ctlBytes) ctl \<and> region_of os ArenaRegion (sint (16 + arenaSize c)) arena \<and>
     region_of os QueueRegion (qpairBytes (c_slotSize c) (queueCapacity c)) qm"

lemma map_regions_iff:
  "(\<exists>k'. map_regions os c fds k = (Inr c', k')) \<longleftrightarrow>
    (\<exists>ctl arena qm. regions_of os c ctl arena qm \<and>
      c' = c\<lparr>ctlMem := Some ctl, arenaMem := Some arena, qpMem := Some qm\<rparr>)"
  by (auto simp: map_regions_def sys_mmap_def region_of_def regions_of_def split: sum.splits prod.splits if_splits)

lemma attach_views_iff:
  "(\<exists>k'. attach_views c k = ((Some c', None), k')) \<longleftrightarrow>
    (\<exists>q. AttachControl (the (ctlMem c)) = Inr () \<and> AttachQueuePair (the (qpMem c)) = Inr q \<and>
      c' = c\<lparr>control := True, qp := Some q\<rparr>)"
  by (auto simp: attach_views_def split: sum.splits)

lemma attach_reply_iff:
  "(\<exists>k'. attach_reply os n buf fds k = ((Some c', None), k')) \<longleftrightarrow>
    n = attachReplyBytes \<and> get_u32 buf 0 = attachReplyMagic \<and> get_u32 buf 4 = AttachOK \<and> length fds = 3 \<and>
    (\<exists>q ctl arena qm. regions_of os (reply_client buf) ctl arena qm \<and>
      AttachControl ctl = Inr () \<and> AttachQueuePair qm = Inr q \<and> c' = attached_client buf q ctl arena qm)"
proof -
  let ?c = "reply_client buf"
  let ?ok = "n = attachReplyBytes \<and> get_u32 buf 0 = attachReplyMagic \<and> get_u32 buf 4 = AttachOK \<and> length fds = 3"
  have "(\<exists>k'. attach_reply os n buf fds k = ((Some c', None), k')) \<longleftrightarrow> ?ok \<and>
      (\<exists>c. (\<exists>k2. map_regions os ?c fds k = (Inr c, k2) \<and> (\<exists>k'. attach_views c k2 = ((Some c', None), k'))))"
    by (auto simp: attach_reply_def split: sum.splits prod.splits)
  also have "\<dots> \<longleftrightarrow> ?ok \<and> (\<exists>c. (\<exists>k2. map_regions os ?c fds k = (Inr c, k2)) \<and>
      (\<exists>q. AttachControl (the (ctlMem c)) = Inr () \<and> AttachQueuePair (the (qpMem c)) = Inr q \<and>
        c' = c\<lparr>control := True, qp := Some q\<rparr>))"
    unfolding attach_views_iff by blast
  also have "\<dots> \<longleftrightarrow> ?ok \<and> (\<exists>ctl arena qm. regions_of os ?c ctl arena qm \<and>
      (\<exists>q. AttachControl ctl = Inr () \<and> AttachQueuePair qm = Inr q \<and> c' = attached_client buf q ctl arena qm))"
    unfolding map_regions_iff attached_client_def
    by (simp only: ex_simps [symmetric] conj_assoc) (intro conj_cong refl iffI; elim exE conjE; simp; blast)
  finally show ?thesis by blast
qed

section \<open>Facts about connecting\<close>

definition attempt_ends :: "connect_outcome \<Rightarrow> bool" where
  \<comment> \<open>the attempt is the last one: no socket, an answer other than refused, or the context ends\<close>
  "attempt_ends os \<longleftrightarrow> (\<exists>e. co_socket os = Inl e) \<or> co_connect os \<noteq> Some ECONNREFUSED \<or> co_done os"

definition attempt_honest :: "unix_parsers \<Rightarrow> kernel \<Rightarrow> connect_outcome \<Rightarrow> bool" where
  \<comment> \<open>new descriptors are not in use\<close>
  "attempt_honest ps k os \<longleftrightarrow>
     (case co_socket os of
        Inl e \<Rightarrow> True
      | Inr fd \<Rightarrow> fd \<notin> set (k_fds k) \<and> rights_delivered ps (co_attach os) (k\<lparr>k_fds := fd # k_fds k\<rparr>))"

lemma connect_attempt_None:
  "fst (connect_attempt ps os pc pr k) = None \<longleftrightarrow> (\<exists>fd. co_socket os = Inr fd) \<and> co_connect os = Some ECONNREFUSED"
  by (auto simp: connect_attempt_def Let_def split: sum.splits option.splits prod.splits)

lemma connect_attempt_settled:
  assumes "attempt_honest ps k os" and "connect_attempt ps os pc pr k = (r, k')"
  shows "k_fds k' = k_fds k \<and> (case r of None \<Rightarrow> k_maps k' = k_maps k | Some ret \<Rightarrow> settled ret k k')"
proof (cases "co_socket os")
  case (Inl e)
  then show ?thesis using assms(2) by (auto simp: connect_attempt_def settled_def)
next
  case (Inr fd)
  let ?k = "k\<lparr>k_fds := fd # k_fds k\<rparr>"
  have fresh: "fd \<notin> set (k_fds k)" and rights: "rights_delivered ps (co_attach os) ?k"
    using assms(1) Inr by (simp_all add: attempt_honest_def)
  obtain ret k2 where a: "AttachAs ps (co_attach os) pc pr ?k = (ret, k2)" by fastforce
  note s = AttachAs_settled [OF rights a]
  show ?thesis
    using assms(2) Inr fresh s
    by (auto simp: connect_attempt_def Let_def a sys_close_def settled_def split: option.splits if_splits)
qed

lemma connect_loop_ends:
  "attempt_ends (os (i + n)) \<Longrightarrow> connect_loop ps os pc pr i k \<noteq> None"
proof (induction n arbitrary: i k)
  case 0
  obtain r k' where a: "connect_attempt ps (os i) pc pr k = (r, k')" by fastforce
  then show ?case
    using 0 connect_attempt_None [of ps "os i" pc pr k]
    by (subst connect_loop.simps) (auto simp: attempt_ends_def split: option.splits)
next
  case (Suc n)
  obtain r k' where a: "connect_attempt ps (os i) pc pr k = (r, k')" by fastforce
  show ?case
    using Suc.IH [of "i + 1" k'] Suc.prems a by (subst connect_loop.simps) (simp split: option.splits)
qed

lemma connect_loop_returns:
  "connect_loop ps os pc pr i k = Some x \<Longrightarrow> \<exists>n. attempt_ends (os (i + n))"
proof (induction rule: connect_loop.raw_induct [rotated, consumes 1, case_names step])
  case (step loop ps os pc pr i k x)
  obtain r k' where a: "connect_attempt ps (os i) pc pr k = (r, k')" by fastforce
  show ?case
  proof (cases "attempt_ends (os i)")
    case True
    then show ?thesis by (intro exI [of _ 0]) simp
  next
    case False
    then have "\<not> co_done (os i)" "\<exists>fd. co_socket (os i) = Inr fd" "co_connect (os i) = Some ECONNREFUSED"
      by (auto simp: attempt_ends_def) (metis sumE)
    moreover from this have "r = None" using connect_attempt_None [of ps "os i" pc pr k] a by simp
    ultimately have "loop ps os pc pr (i + 1) k' = Some x" using step(2) a by simp
    then obtain n where "attempt_ends (os (i + 1 + n))" using step(1) by blast
    then show ?thesis by (intro exI [of _ "Suc n"]) simp
  qed
qed

lemma connect_loop_settled:
  "connect_loop ps os pc pr i k = Some (ret, k') \<Longrightarrow> (\<And>j. attempt_honest ps k (os j)) \<Longrightarrow> settled ret k k'"
proof (induction "(ret, k')" arbitrary: ret k' rule: connect_loop.raw_induct [rotated, consumes 1, case_names step])
  case (step loop ps os pc pr i k ret k')
  obtain r k1 where a: "connect_attempt ps (os i) pc pr k = (r, k1)" by fastforce
  note s = connect_attempt_settled [OF step(3) a]
  show ?case
  proof (cases r)
    case (Some x)
    then show ?thesis using step(2) a s by simp
  next
    case None
    then have same: "k_fds k1 = k_fds k" "k_maps k1 = k_maps k" using s by simp_all
    have "attempt_honest ps k1 (os j)" for j
      using step(3) [of j] same by (auto simp: attempt_honest_def rights_delivered_def split: sum.splits)
    then show ?thesis
      using step(1) [of ps os pc pr "i + 1" k1 ret k'] step(2) a None
        settled_cong [OF same] same by (auto simp: settled_def split: if_splits)
  qed
qed

section \<open>A host\<close>

text \<open>
  The regions and the reply of a host that lays them out as \<open>qpairBytes\<close> says: an empty ring
  header at a given offset, the queue-pair region with its inbound ring at 128, the control
  region, and the 48 bytes of the reply.
\<close>

definition host_ring :: "nat \<Rightarrow> u32 \<Rightarrow> u32 \<Rightarrow> mem \<Rightarrow> mem" where
  "host_ring base sz cap m =
    (let m = put_u32 m (base + ringOffMagic) ringMagic; m = put_u32 m (base + ringOffSlot) sz;
         m = put_u32 m (base + ringOffCap) cap; m = put_u32 m (base + ringOffMask) (cap - 1)
     in put_u32 m (base + ringOffSlots) (word_of_nat ringHdrBytes))"

definition host_header :: "nat \<Rightarrow> nat \<Rightarrow> mem" where
  "host_header n outOff =
    (let m = put_u32 (replicate n 0) qpOffMagic qpMagic; m = put_u32 m qpOffInboundOff 128
     in put_u32 m qpOffOutboundOff (word_of_nat outOff))"

definition host_queue :: "nat \<Rightarrow> nat \<Rightarrow> u32 \<Rightarrow> u32 \<Rightarrow> mem" where
  "host_queue n outOff sz cap = host_ring outOff sz cap (host_ring 128 sz cap (host_header n outOff))"

definition host_control :: "u32 \<Rightarrow> u32 \<Rightarrow> u64 \<Rightarrow> u64 \<Rightarrow> mem" where
  "host_control sz budget arena epoch =
    (let m = put_u32 (replicate ctlBytes 0) ctlOffMagic ctlMagic; m = put_u32 m ctlOffSpec specVersion;
         m = put_u32 m ctlOffLayout layoutVersion; m = put_u32 m ctlOffSlot sz; m = put_u32 m ctlOffInline budget;
         m = put_u64 m ctlOffArena arena
     in put_u64 m ctlOffEpoch epoch)"

definition host_reply :: "u32 \<Rightarrow> u32 \<Rightarrow> u32 \<Rightarrow> u64 \<Rightarrow> u64 \<Rightarrow> byte list" where
  "host_reply sz budget cap arena epoch =
    (let m = put_u32 (replicate attachReplyBytes 0) 0 attachReplyMagic; m = put_u32 m 8 1;
         m = put_u32 m 16 sz; m = put_u32 m 20 budget; m = put_u32 m 24 cap; m = put_u64 m 32 arena
     in put_u64 m 40 epoch)"

lemma get_u32_replicate_0 [simp]: "get_u32 (replicate n 0) off = 0"
proof -
  have "le_nat (replicate k 0) = 0" for k by (induction k) auto
  then show ?thesis by (simp add: get_u32_def slice_def)
qed

definition host_view :: "nat \<Rightarrow> nat \<Rightarrow> u32 \<Rightarrow> u32 \<Rightarrow> ring" where
  \<comment> \<open>the view of the ring at \<open>base\<close> of a region of \<open>n\<close> bytes\<close>
  "host_view n base sz cap = \<lparr>ring_base = base, ring_len = n - base, ring_slotSize = sz,
     ring_capacity = cap, ring_mask = cap - 1, ring_slotsOff = word_of_nat ringHdrBytes\<rparr>"

lemma host_ring_length [mem_simps]: "base + 20 \<le> length m \<Longrightarrow> length (host_ring base sz cap m) = length m"
  by (simp add: host_ring_def Let_def mem_simps)

lemma host_ring_disjoint [mem_simps]:
  "base + 20 \<le> length m \<Longrightarrow> off + 4 \<le> base \<or> base + 20 \<le> off \<Longrightarrow>
    get_u32 (host_ring base sz cap m) off = get_u32 m off"
  "base + 20 \<le> length m \<Longrightarrow> off + 8 \<le> base \<or> base + 20 \<le> off \<Longrightarrow>
    get_u64 (host_ring base sz cap m) off = get_u64 m off"
  by (auto simp: host_ring_def Let_def mem_simps)

lemma host_ring_header:
  "base + 20 \<le> length m \<Longrightarrow> ring_header (host_view n base sz cap) (host_ring base sz cap m)"
  by (simp add: host_ring_def host_view_def ring_header_def Let_def mem_simps)

lemma ring_header_cong:
  "(\<And>i. i < 5 \<Longrightarrow> get_u32 m' (ring_base r + 4 * i) = get_u32 m (ring_base r + 4 * i)) \<Longrightarrow>
    ring_header r m' = ring_header r m"
proof -
  assume a: "\<And>i. i < 5 \<Longrightarrow> get_u32 m' (ring_base r + 4 * i) = get_u32 m (ring_base r + 4 * i)"
  show ?thesis using a [of 0] a [of 1] a [of 2] a [of 3] a [of 4] by (simp add: ring_header_def)
qed

lemma host_header_facts:
  assumes "96 \<le> n"
  shows "length (host_header n outOff) = n" "get_u32 (host_header n outOff) 0 = qpMagic"
    "get_u32 (host_header n outOff) 24 = 128" "get_u32 (host_header n outOff) 28 = word_of_nat outOff"
    "32 \<le> off \<Longrightarrow> get_u64 (host_header n outOff) off = 0"
  using assms by (simp_all add: host_header_def Let_def mem_simps)

lemma host_queue_attaches:
  assumes "cap = 2 ^ k" "1 \<le> k" "k < 32" "sz \<noteq> 0" and "e = ringHdrBytes + unat sz * unat cap"
    and "128 + e \<le> outOff" "outOff + e \<le> n" "outOff < 2 ^ 32"
  shows "AttachQueuePair (host_queue n outOff sz cap) =
      Inr \<lparr>Inbound = host_view n 128 sz cap, Outbound = host_view n outOff sz cap\<rparr>"
    and "length (host_queue n outOff sz cap) = n"
    and "b \<in> {128, outOff} \<Longrightarrow> ring_abs (host_view n b sz cap) (host_queue n outOff sz cap) = []"
proof -
  let ?m = "host_queue n outOff sz cap" and ?h = "host_header n outOff"
  have out: "unat (word_of_nat outOff :: u32) = outOff" using assms(8) by (simp add: unat_of_nat)
  have b: "192 \<le> e" "320 \<le> outOff" "outOff + 192 \<le> n" "96 \<le> n" using assms(5-7) by simp_all
  note h = host_header_facts [OF b(4)]
  show len: "length ?m = n" using b h(1) by (simp add: host_queue_def mem_simps)
  have hdr: "get_u32 ?m 0 = qpMagic" "get_u32 ?m 24 = 128" "get_u32 ?m 28 = word_of_nat outOff"
    using b h by (simp_all add: host_queue_def mem_simps)
  have count: "get_u64 ?m (c + 64) = 0" "get_u64 ?m (c + 128) = 0" if "c \<in> {128, outOff}" for c
    using b h that by (auto simp: host_queue_def mem_simps)
  have "ring_header (host_view n 128 sz cap) ?m = ring_header (host_view n 128 sz cap) (host_ring 128 sz cap ?h)"
    using b h unfolding host_queue_def by (intro ring_header_cong) (simp add: host_view_def mem_simps)
  then have header: "ring_header (host_view n c sz cap) ?m" if "c \<in> {128, outOff}" for c
    using b h that host_ring_header [of 128 ?h] host_ring_header [of outOff "host_ring 128 sz cap ?h"]
    by (auto simp: host_queue_def mem_simps)
  have inv: "ring_inv (host_view n c sz cap) ?m" if "c \<in> {128, outOff}" for c
  proof -
    have "c + e \<le> n" using that assms(6,7) by auto
    moreover have "2 \<le> unat cap"
    proof -
      have "(2::nat) ^ 1 \<le> 2 ^ k" using assms(2) by (intro power_increasing) simp_all
      then show ?thesis using assms(1,3) by (simp add: unat_two_power)
    qed
    ultimately show ?thesis
      using assms(1,3-5) count [OF that] len
      by (auto simp: ring_inv_def ring_geom_def host_view_def Count_def ring_head_def ring_tail_def)
  qed
  show "AttachQueuePair ?m = Inr \<lparr>Inbound = host_view n 128 sz cap, Outbound = host_view n outOff sz cap\<rparr>"
    using b hdr out len header [of 128] header [of outOff] inv [of 128] inv [of outOff]
    unfolding AttachQueuePair_iff by (simp add: host_view_def)
  show "ring_abs (host_view n b sz cap) ?m = []" if "b \<in> {128, outOff}"
    using count [OF that] by (simp add: ring_abs_def Count_def ring_head_def ring_tail_def host_view_def)
qed

lemma host_control_attaches:
  assumes "sz \<noteq> 0" "budget \<le> sz" "arena \<noteq> 0"
  shows "AttachControl (host_control sz budget arena epoch) = Inr ()"
    and "length (host_control sz budget arena epoch) = ctlBytes"
    and "Epoch (host_control sz budget arena epoch) = epoch"
  using assms
  by (simp_all add: AttachControl_def Epoch_def host_control_def Let_def mem_simps not_less)

lemma host_reply_facts:
  "length (host_reply sz budget cap arena epoch) = attachReplyBytes"
  "get_u32 (host_reply sz budget cap arena epoch) 0 = attachReplyMagic"
  "get_u32 (host_reply sz budget cap arena epoch) 4 = AttachOK"
  "c_slotSize (reply_client (host_reply sz budget cap arena epoch)) = sz"
  "inlineBudget (reply_client (host_reply sz budget cap arena epoch)) = budget"
  "queueCapacity (reply_client (host_reply sz budget cap arena epoch)) = cap"
  "arenaSize (reply_client (host_reply sz budget cap arena epoch)) = arena"
  "attachedEpoch (reply_client (host_reply sz budget cap arena epoch)) = epoch"
  "\<not> pendingRead (reply_client reply)"
  by (simp_all add: host_reply_def reply_client_def denied_client_def Let_def mem_simps)

lemma region_of_nth:
  "0 < len \<Longrightarrow> len = int (length m) \<Longrightarrow> ao_mmap os r = Inr ((!) m) \<Longrightarrow> region_of os r len m"
  by (simp add: region_of_def map_nth)

lemma AttachAs_message:
  assumes "ao_sendmsg os = None" "ao_recvmsg os = Inr (reply, oob, fds)" "attachReplyBytes \<le> length reply"
  shows "(\<exists>k'. AttachAs ps os pc pr k = ((Some c, None), k')) \<longleftrightarrow>
    get_u32 reply 0 = attachReplyMagic \<and> get_u32 reply 4 = AttachOK \<and> length (parseRights ps oob) = 3 \<and>
    (\<exists>q ctl arena qm. regions_of os (reply_client (take attachReplyBytes reply)) ctl arena qm \<and>
      AttachControl ctl = Inr () \<and> AttachQueuePair qm = Inr q \<and>
      c = attached_client (take attachReplyBytes reply) q ctl arena qm)"
proof -
  have "AttachAs ps os pc pr k = attach_reply os attachReplyBytes (take attachReplyBytes reply) (parseRights ps oob)
      (k\<lparr>k_sent := k_sent k @ [attach_request pc pr], k_fds := fds @ k_fds k\<rparr>)"
    using assms by (simp add: AttachAs_def min_def)
  then show ?thesis by (simp add: attach_reply_iff)
qed

text \<open>
  The attach over such a host. The reply may announce another slot size \<open>rsz\<close> than the regions
  carry: nothing compares them.
\<close>

lemma attach_host:
  assumes "cap = 2 ^ k" "1 \<le> k" "k < 32" "sz \<noteq> 0" and "e = ringHdrBytes + unat sz * unat cap"
    and "128 + e \<le> outOff" "outOff + e \<le> n" "outOff < 2 ^ 32" and "qpairBytes rsz cap = int n"
    and "bud \<le> sz" "arena \<noteq> 0" "uint arena < 2 ^ 62"
    and "ao_sendmsg os = None" "ao_recvmsg os = Inr (host_reply rsz budget cap arena epoch, oob, fds)"
    and "length (parseRights ps oob) = 3"
    and "ao_mmap os ControlRegion = Inr ((!) (host_control sz bud arena epoch))"
    and "ao_mmap os ArenaRegion = Inr content"
    and "ao_mmap os QueueRegion = Inr ((!) (host_queue n outOff sz cap))"
  obtains c q k' where "AttachAs ps os pc pr kern = ((Some c, None), k')"
    and "client_view c q (host_control sz bud arena epoch) (host_queue n outOff sz cap)"
    and "epoch_current c" "inbox c = []" "outbox c = []" "in_slot c = unat sz" "out_slot c = unat sz"
    and "out_capacity c = unat cap" "c_slotSize c = rsz" "inlineBudget c = budget"
proof -
  let ?ctl = "host_control sz bud arena epoch" and ?qm = "host_queue n outOff sz cap"
  let ?q = "\<lparr>Inbound = host_view n 128 sz cap, Outbound = host_view n outOff sz cap\<rparr>"
  let ?reply = "host_reply rsz budget cap arena epoch"
  note hq = host_queue_attaches [OF assms(1-8)]
  note hc = host_control_attaches [OF assms(4,10,11), of epoch]
  have "uint (16 + arena) < 2 ^ 63" "0 < uint (16 + arena)"
  proof -
    have "uint (16 + arena) = 16 + uint arena"
      using assms(12) uint_ge_0 [of arena] by (simp add: uint_word_ariths)
    moreover have "0 \<le> uint arena" by (rule uint_ge_0)
    moreover have "(2::int) ^ 62 + 16 < 2 ^ 63" by simp
    ultimately show "uint (16 + arena) < 2 ^ 63" and "0 < uint (16 + arena)" using assms(12) by - linarith+
  qed
  then have "0 < sint (16 + arena)" by (simp only: sint_small)
  then have "region_of os ArenaRegion (sint (16 + arena)) (map content [0..<nat (sint (16 + arena))])"
    using assms(17) by (simp add: region_of_def)
  moreover have "region_of os ControlRegion (int ctlBytes) ?ctl"
    by (rule region_of_nth) (use hc(2) assms(16) in simp_all)
  moreover have "region_of os QueueRegion (qpairBytes rsz cap) ?qm"
    by (rule region_of_nth) (use hq(2) assms(5,7,9,18) in simp_all)
  ultimately obtain am where am: "regions_of os (reply_client ?reply) ?ctl am ?qm"
    by (simp only: regions_of_def host_reply_facts)
  define c where "c = attached_client ?reply ?q ?ctl am ?qm"
  have "\<exists>k'. AttachAs ps os pc pr kern = ((Some c, None), k')"
    unfolding AttachAs_message [OF assms(13,14), unfolded host_reply_facts, OF order_refl]
    using am hc(1) hq(1) assms(15) by (auto simp: host_reply_facts c_def)
  then obtain k' where k': "AttachAs ps os pc pr kern = ((Some c, None), k')" ..
  have inv: "ring_inv (Inbound ?q) ?qm" "ring_inv (Outbound ?q) ?qm" using hq(1) by (simp_all add: AttachQueuePair_iff)
  have "rings_disjoint (Inbound ?q) (Outbound ?q)"
    using assms(5,6) by (simp add: rings_disjoint_def ring_extent_def host_view_def)
  then have view: "client_view c ?q ?ctl ?qm"
    using inv hc(2) assms(6) by (simp add: client_view_def c_def attached_client_def host_reply_facts(9) host_view_def)
  moreover have "epoch_current c"
    using hc(3) by (simp add: epoch_current_def EpochChanged_def c_def attached_client_def host_reply_facts)
  moreover have "inbox c = []" "outbox c = []"
    using hq(3) [of 128] hq(3) [of outOff]
    by (simp_all add: inbox_def outbox_def c_def attached_client_def host_reply_facts(9))
  ultimately show ?thesis
    using k' by (intro that [of c k' ?q]) (simp_all add: c_def attached_client_def in_slot_def out_slot_def
        out_capacity_def host_view_def host_reply_facts)
qed

section \<open>Properties of attaching\<close>

text \<open>
  When the attach succeeds: exactly if the request was sent, the reply has at least 48 bytes
  with the magic and status OK, three descriptors came with it, the three regions could be
  mapped with the sizes of the reply, and both region headers are valid; the client then
  holds the fields of the reply and the mapped regions. Bytes beyond the 48 are ignored.
\<close>

theorem AttachAs_accepts_iff:
  "(\<exists>k'. AttachAs ps os principalClass principalRef k = ((Some c, None), k')) \<longleftrightarrow>
    ao_sendmsg os = None \<and>
    (\<exists>reply oob fds q ctl arena qm. ao_recvmsg os = Inr (reply, oob, fds) \<and> attachReplyBytes \<le> length reply \<and>
      get_u32 reply 0 = attachReplyMagic \<and> get_u32 reply 4 = AttachOK \<and> length (parseRights ps oob) = 3 \<and>
      regions_of os (reply_client (take attachReplyBytes reply)) ctl arena qm \<and>
      AttachControl ctl = Inr () \<and> AttachQueuePair qm = Inr q \<and>
      c = attached_client (take attachReplyBytes reply) q ctl arena qm)"
proof (cases "ao_sendmsg os")
  case (Some e)
  then show ?thesis by (simp add: AttachAs_def)
next
  case send: None
  show ?thesis
  proof (cases "ao_recvmsg os")
    case (Inl e)
    then show ?thesis using send by (simp add: AttachAs_def)
  next
    case (Inr msg)
    obtain reply oob fds where m: "msg = (reply, oob, fds)" by (cases msg)
    show ?thesis
    proof (cases "attachReplyBytes \<le> length reply")
      case True
      show ?thesis using AttachAs_message [OF send _ True] send Inr m True by auto
    next
      case False
      then show ?thesis using send Inr m by (simp add: AttachAs_def attach_reply_def min_def)
    qed
  qed
qed

text \<open>
  C13. No attach leaks, whatever the host answers and whichever call fails: afterwards exactly the
  descriptors are open that were open before, and nothing new is mapped, unless a client is
  handed out without error, which then holds the three new mappings. A refused attach hands
  out a client that holds nothing and its status.
\<close>

theorem attach_no_leak:
  assumes "rights_delivered ps os k"
    and "AttachAs ps os principalClass principalRef k = ((client, err), k')"
  shows "k_fds k' = k_fds k \<and>
    (case (client, err) of
       (Some c, None) \<Rightarrow> mapped c \<and> k_maps k' = [QueueRegion, ArenaRegion, ControlRegion] @ k_maps k \<and>
         k_maps (detach_maps c k') = k_maps k
     | (Some c, Some e) \<Rightarrow> e = ErrDenied \<and> \<not> control c \<and> ClientStatus c \<noteq> AttachOK \<and> k_maps k' = k_maps k
     | (None, Some e) \<Rightarrow> k_maps k' = k_maps k
     | (None, None) \<Rightarrow> False)"
  using AttachAs_settled [OF assms] detach_mapped
  by (auto simp: settled_def attach_maps_def split: option.splits)

text \<open>
  The attach establishes what every operation of the client relies on: over a host that lays
  out its regions as \<open>qpairBytes\<close> computes and announces their geometry, \<open>AttachAs\<close> succeeds and
  the client satisfies the client invariant, sees the current epoch, has nothing to read and
  an empty outbound ring of the announced capacity and slot size.
\<close>

definition host_ready :: "unix_parsers \<Rightarrow> attach_outcome \<Rightarrow> u32 \<Rightarrow> u32 \<Rightarrow> u32 \<Rightarrow> u64 \<Rightarrow> u64 \<Rightarrow> bool" where
  "host_ready ps os sz budget cap arena epoch \<longleftrightarrow>
     ao_sendmsg os = None \<and>
     (\<exists>oob fds. ao_recvmsg os = Inr (host_reply sz budget cap arena epoch, oob, fds) \<and> length (parseRights ps oob) = 3) \<and>
     ao_mmap os ControlRegion = Inr ((!) (host_control sz budget arena epoch)) \<and>
     (\<exists>content. ao_mmap os ArenaRegion = Inr content) \<and>
     ao_mmap os QueueRegion = Inr ((!) (host_queue (nat (qpairBytes sz cap))
       (std_outOff (ringHdrBytes + unat sz * unat cap)) sz cap))"

lemma attached_client_ready:
  assumes "cap = 2 ^ k" "1 \<le> k" "k < 32" "sz \<noteq> 0" "unat sz * unat cap < 2 ^ 31"
    and "budget \<le> sz" "arena \<noteq> 0" "uint arena < 2 ^ 62"
    and "host_ready ps os sz budget cap arena epoch"
  shows "\<exists>c k'. AttachAs ps os principalClass principalRef kern = ((Some c, None), k') \<and>
    client_inv c \<and> epoch_current c \<and> inbox c = [] \<and> outbox c = [] \<and> c_slotSize c = sz \<and>
    in_slot c = unat sz \<and> out_slot c = unat sz \<and> out_capacity c = unat cap \<and> inlineBudget c = budget"
proof -
  let ?e = "ringHdrBytes + unat sz * unat cap"
  obtain oob fds content where h: "ao_sendmsg os = None"
    "ao_recvmsg os = Inr (host_reply sz budget cap arena epoch, oob, fds)" "length (parseRights ps oob) = 3"
    "ao_mmap os ControlRegion = Inr ((!) (host_control sz budget arena epoch))" "ao_mmap os ArenaRegion = Inr content"
    "ao_mmap os QueueRegion = Inr ((!) (host_queue (nat (qpairBytes sz cap)) (std_outOff ?e) sz cap))"
    using assms(9) by (auto simp: host_ready_def)
  have q: "qpairBytes sz cap = int (std_outOff ?e + ?e)"
    using assms(5) by (subst qpairBytes_eq) (simp_all add: Let_def)
  have "std_outOff ?e < 2 ^ 32" using std_outOff_bounds(2) [of ?e] assms(5) by simp
  moreover have "ao_mmap os QueueRegion = Inr ((!) (host_queue (std_outOff ?e + ?e) (std_outOff ?e) sz cap))"
    using h(6) by (simp only: q nat_int)
  ultimately obtain c qp k' where "AttachAs ps os principalClass principalRef kern = ((Some c, None), k')"
    and "client_view c qp (host_control sz budget arena epoch) (host_queue (std_outOff ?e + ?e) (std_outOff ?e) sz cap)"
    and "epoch_current c" "inbox c = []" "outbox c = []" "in_slot c = unat sz" "out_slot c = unat sz"
    and "out_capacity c = unat cap" "c_slotSize c = sz" "inlineBudget c = budget"
    using attach_host [OF assms(1-4) refl std_outOff_bounds(1) order_refl _ q assms(6-8) h(1-5), of principalClass principalRef kern]
    by metis
  then show ?thesis by (intro exI [of _ c] exI [of _ k'] conjI) (auto simp: client_inv_def)
qed

text \<open>
  C37. The announced geometry is trusted: nothing compares it with the region headers. If the host
  announces a larger slot size than its rings carry, the attach succeeds all the same, and a
  request that fits the announced slot but not the real one is reported as sent although the
  slot that was published ends before its payload does.
\<close>

theorem attach_trusts_geometry:
  assumes "cap = 2 ^ k" "1 \<le> k" "k < 32" "HdrLen \<le> unat sz" and "e = ringHdrBytes + unat sz * unat cap"
    and "128 + e \<le> outOff" "outOff + e \<le> n" "outOff < 2 ^ 32" and "qpairBytes rsz cap = int n"
    and "bud \<le> sz" "arena \<noteq> 0" "uint arena < 2 ^ 62"
    and "ao_sendmsg os = None" "ao_recvmsg os = Inr (host_reply rsz budget cap arena epoch, oob, fds)"
    and "length (parseRights ps oob) = 3"
    and "ao_mmap os ControlRegion = Inr ((!) (host_control sz bud arena epoch))"
    and "ao_mmap os ArenaRegion = Inr content"
    and "ao_mmap os QueueRegion = Inr ((!) (host_queue n outOff sz cap))"
    and "unat sz < HdrLen + length p" "HdrLen + length p \<le> unat rsz" "length p \<le> unat budget" "length p \<le> 2 ^ 20"
    and "corr \<noteq> 0"
  shows "\<exists>c k' c' s. AttachAs ps os principalClass principalRef kern = ((Some c, None), k') \<and>
    Request c kind corr p = Some (None, c') \<and> outbox c' = [s] \<and>
    Decode s zero_frame = (OK, emit_frame c FRequest kind corr p) \<and>
    length s = unat sz \<and> length s < HdrLen + unat (PayloadLen (emit_frame c FRequest kind corr p))"
proof -
  have "sz \<noteq> 0" using assms(4) by auto
  from attach_host [OF assms(1-3) this assms(5-18), of principalClass principalRef kern]
  obtain c q k' where a: "AttachAs ps os principalClass principalRef kern = ((Some c, None), k')" and
    v: "client_view c q (host_control sz bud arena epoch) (host_queue n outOff sz cap)" and
    c: "epoch_current c" "outbox c = []" "out_slot c = unat sz" "out_capacity c = unat cap" "c_slotSize c = rsz"
      "inlineBudget c = budget" by metis
  have ne: "p \<noteq> []" using assms(4,19) by auto
  have flags: "send_flags FRequest corr p" using assms(23) by (simp add: send_flags_def)
  note valid = emit_frame_valid [OF flags assms(22), of c kind]
  have len: "unat (word_of_nat (length p) :: u32) = length p" using payload_len_word [OF assms(22)] .
  have fits: "payload_fits c p" using assms(20,21) len c by (simp add: payload_fits_def word_less_nat_alt)
  have cap: "0 < unat cap" using assms(1,3) by (simp add: unat_two_power)
  obtain c' where e: "emit c FRequest kind corr p = Some (None, c')"
    using emit_eq [OF v c(1), of FRequest kind corr p] fits valid c cap assms(4) by (simp add: Let_def)
  from emit_sends [OF v c(1) e] obtain sl where
    sl: "length sl = unat sz" "outbox c' = [sent_slot (emit_frame c FRequest kind corr p) p sl]" using c by auto
  have "Request c kind corr p = Some (None, c')"
    using e assms(23) by (simp add: Request_def RequestFragment_def)
  moreover have "Decode (sent_slot (emit_frame c FRequest kind corr p) p sl) zero_frame =
      (OK, emit_frame c FRequest kind corr p)"
    using valid sl(1) assms(4) by (intro sent_slot_decodes) simp_all
  ultimately show ?thesis
    using a sl assms(4,19) len length_sent_slot [of sl "emit_frame c FRequest kind corr p" p]
    by (intro exI [of _ c] exI [of _ k'] exI [of _ c'] exI [of _ "sent_slot (emit_frame c FRequest kind corr p) p sl"])
      (simp add: emit_frame_fields)
qed

text \<open>
  C33. When connecting ends: the loop returns exactly if some attempt gets no socket, gets an
  answer other than a refused connection, or finds the context ended before the retry timer;
  otherwise it retries forever.
\<close>

theorem connect_terminates_iff:
  "connectModule ps os principalClass principalRef k \<noteq> None \<longleftrightarrow> (\<exists>i. attempt_ends (os i))"
  using connect_loop_ends [of os 0] connect_loop_returns [of ps os principalClass principalRef 0 k]
  by (auto simp: connectModule_def)

text \<open>
  The heartbeat goroutine does not stop when the client is detached: its next tick writes to the
  unmapped region.
\<close>

lemma keepAlive_after_Detach: "now \<noteq> 0 \<Longrightarrow> keepAlive (Tick now # es) (Detach c) = None"
  by (simp add: Heartbeat_def Detach_def split: option.splits)

section \<open>Concrete attaches\<close>

fun rights_words :: "byte list \<Rightarrow> nat list" where
  "rights_words (a # b # c # d # bs) = (unat a + 256 * unat b + 65536 * unat c + 16777216 * unat d) # rights_words bs"
| "rights_words bs = []"

definition sample_parsers :: unix_parsers where
  \<comment> \<open>control bytes that hold descriptors only\<close>
  "sample_parsers = \<lparr>ParseSocketControlMessage = (\<lambda>oob. Some [\<lparr>cm_Level = 1, cm_Type = 1, cm_Data = oob\<rparr>]),
     ParseUnixRights = (\<lambda>m. Some (rights_words (cm_Data m)))\<rparr>"

definition sample_oob :: "byte list" where
  "sample_oob = [5, 0, 0, 0, 6, 0, 0, 0, 7, 0, 0, 0]"

definition sample_outcome :: "u32 \<Rightarrow> (region \<Rightarrow> nat + (nat \<Rightarrow> byte)) \<Rightarrow> attach_outcome" where
  "sample_outcome rsz mm = \<lparr>ao_sendmsg = None,
     ao_recvmsg = Inr (host_reply rsz 72 2 1024 9, sample_oob, [5, 6, 7]), ao_mmap = mm\<rparr>"

definition sample_maps :: "nat \<Rightarrow> region \<Rightarrow> nat + (nat \<Rightarrow> byte)" where
  "sample_maps n r = (case r of
     ControlRegion \<Rightarrow> Inr ((!) (host_control 72 72 1024 9))
   | ArenaRegion \<Rightarrow> Inr (\<lambda>i. 0)
   | QueueRegion \<Rightarrow> Inr ((!) (host_queue n 512 72 2)))"

definition sample_kernel :: kernel where
  "sample_kernel = \<lparr>k_fds = [4], k_maps = [], k_sent = []\<rparr>"

lemma sample_rights: "parseRights sample_parsers sample_oob = [5, 6, 7]"
  by (simp add: parseRights_def sample_oob_def sample_parsers_def)

lemma sample_delivered: "rights_delivered sample_parsers (sample_outcome rsz mm) sample_kernel"
  by (simp add: rights_delivered_def sample_outcome_def sample_kernel_def sample_rights)

text \<open>An attach whose last mapping fails leaves nothing behind; one that succeeds holds its mappings.\<close>

theorem attach_no_leak_witness:
  "rights_delivered sample_parsers (sample_outcome 72 (\<lambda>r. if r = QueueRegion then Inl 12 else Inr (\<lambda>i. 0)))
      sample_kernel \<and>
    (\<exists>client err k'. AttachAs sample_parsers
        (sample_outcome 72 (\<lambda>r. if r = QueueRegion then Inl 12 else Inr (\<lambda>i. 0))) 1 26 sample_kernel =
        ((client, err), k') \<and> k_fds k' = [4])"
proof -
  let ?os = "sample_outcome 72 (\<lambda>r. if r = QueueRegion then Inl 12 else Inr (\<lambda>i. 0))"
  obtain client err k' where a: "AttachAs sample_parsers ?os 1 26 sample_kernel = ((client, err), k')"
    by (metis surj_pair)
  show ?thesis using attach_no_leak [OF sample_delivered a] a sample_delivered by (simp add: sample_kernel_def)
qed

lemma sample_ready: "host_ready sample_parsers (sample_outcome 72 (sample_maps 848)) 72 72 2 1024 9"
proof -
  have "nat (qpairBytes 72 2) = 848" by (subst qpairBytes_eq) (simp_all add: Let_def std_outOff_def)
  then show ?thesis
    by (simp add: host_ready_def sample_outcome_def sample_maps_def sample_rights std_outOff_def)
qed

theorem attach_trusts_geometry_witness:
  "\<exists>c k' c' s. AttachAs sample_parsers (sample_outcome 128 (sample_maps 1024)) 1 26 sample_kernel = ((Some c, None), k') \<and>
    Request c 10753 1 (replicate 20 7) = Some (None, c') \<and> outbox c' = [s] \<and> length s = 72"
proof -
  have q: "qpairBytes 128 2 = int 1024" by (subst qpairBytes_eq) (simp_all add: Let_def std_outOff_def)
  have "\<exists>c k' c' s. AttachAs sample_parsers (sample_outcome 128 (sample_maps 1024)) 1 26 sample_kernel = ((Some c, None), k') \<and>
      Request c 10753 1 (replicate 20 7) = Some (None, c') \<and> outbox c' = [s] \<and>
      Decode s zero_frame = (OK, emit_frame c FRequest 10753 1 (replicate 20 7)) \<and>
      length s = unat (72::u32) \<and>
      length s < HdrLen + unat (PayloadLen (emit_frame c FRequest 10753 1 (replicate 20 7)))"
    by (rule attach_trusts_geometry [where k = 1 and cap = 2 and e = 336 and outOff = 512 and n = 1024 and rsz = 128
        and bud = 72 and budget = 72 and arena = 1024 and epoch = 9 and oob = sample_oob and fds = "[5, 6, 7]"
        and content = "\<lambda>i. 0"])
      (simp_all add: sample_outcome_def sample_maps_def sample_rights q)
  then show ?thesis by auto
qed

end
