(* ===== verification/Go_Strings.thy ===== *)
theory Go_Strings
  imports Prelude "HOL-Library.Sublist" "HOL-Library.Code_Target_Nat"
begin

text \<open>
  The part of the Go language and of package \<open>strings\<close> that the sandbox module uses. A Go
  string is a sequence of bytes, here a HOL \<open>string\<close>; \<open>range\<close>, \<open>ToLower\<close> and \<open>TrimSpace\<close>
  decode it as UTF-8, with one replacement character for every byte that does not start
  a well-formed sequence. \<open>unicode.ToLower\<close> on code points beyond ASCII is a table of the
  Unicode standard and stays a parameter.
\<close>

section \<open>Bytes of a string\<close>

definition ord :: "char \<Rightarrow> nat" where "ord c = of_char c"

lemma ord_lt [simp]: "ord c < 256"
  using of_char_mod_256 [of c, where ?'a = nat] by (simp add: ord_def)

lemma ord_eq_iff [simp]: "ord c = ord d \<longleftrightarrow> c = d"
  by (simp add: ord_def)

lemma ord_le_iff: "c \<le> d \<longleftrightarrow> ord c \<le> ord d" and ord_less_iff: "c < d \<longleftrightarrow> ord c < ord d"
  by (simp_all add: ord_def less_eq_char_def less_char_def)

lemma ord_Char [simp]:
  "ord (Char b0 b1 b2 b3 b4 b5 b6 b7) = horner_sum of_bool 2 [b0, b1, b2, b3, b4, b5, b6, b7]"
  by (simp add: ord_def)

lemma ord_of_nat [simp]: "n < 256 \<Longrightarrow> ord (char_of n) = n"
  by (simp add: ord_def)

section \<open>UTF-8\<close>

definition cont :: "char \<Rightarrow> bool" where "cont c \<longleftrightarrow> 0x80 \<le> ord c \<and> ord c \<le> 0xBF"

definition RuneError :: nat where "RuneError = 0xFFFD"

fun decode_rune :: "string \<Rightarrow> nat \<times> nat" where
  \<comment> \<open>\<open>utf8.DecodeRuneInString\<close>: code point and width; \<open>(RuneError, 1)\<close> when ill-formed\<close>
  "decode_rune [] = (RuneError, 0)"
| "decode_rune (a # s) =
    (let x = ord a in
     if x < 0x80 then (x, 1)
     else if 0xC2 \<le> x \<and> x \<le> 0xDF then
       (case s of b # _ \<Rightarrow> if cont b then ((x - 0xC0) * 64 + (ord b - 0x80), 2) else (RuneError, 1)
        | [] \<Rightarrow> (RuneError, 1))
     else if 0xE0 \<le> x \<and> x \<le> 0xEF then
       (case s of b # c # _ \<Rightarrow>
          if (if x = 0xE0 then 0xA0 else 0x80) \<le> ord b \<and> ord b \<le> (if x = 0xED then 0x9F else 0xBF) \<and> cont c
          then (((x - 0xE0) * 64 + (ord b - 0x80)) * 64 + (ord c - 0x80), 3) else (RuneError, 1)
        | _ \<Rightarrow> (RuneError, 1))
     else if 0xF0 \<le> x \<and> x \<le> 0xF4 then
       (case s of b # c # d # _ \<Rightarrow>
          if (if x = 0xF0 then 0x90 else 0x80) \<le> ord b \<and> ord b \<le> (if x = 0xF4 then 0x8F else 0xBF) \<and>
             cont c \<and> cont d
          then ((((x - 0xF0) * 64 + (ord b - 0x80)) * 64 + (ord c - 0x80)) * 64 + (ord d - 0x80), 4)
          else (RuneError, 1)
        | _ \<Rightarrow> (RuneError, 1))
     else (RuneError, 1))"

definition rune_width :: "string \<Rightarrow> nat" where "rune_width s = snd (decode_rune s)"

definition encode_rune :: "nat \<Rightarrow> string" where
  \<comment> \<open>\<open>utf8.AppendRune\<close>: surrogates and values beyond \<open>0x10FFFF\<close> become the replacement\<close>
  "encode_rune r =
    (let r = (if r > 0x10FFFF \<or> 0xD800 \<le> r \<and> r \<le> 0xDFFF then RuneError else r) in
     map char_of
      (if r < 0x80 then [r]
       else if r < 0x800 then [0xC0 + r div 64, 0x80 + r mod 64]
       else if r < 0x10000 then [0xE0 + r div 4096, 0x80 + r div 64 mod 64, 0x80 + r mod 64]
       else [0xF0 + r div 262144, 0x80 + r div 4096 mod 64, 0x80 + r div 64 mod 64, 0x80 + r mod 64]))"

lemma rune_width_pos: "s \<noteq> [] \<Longrightarrow> 0 < rune_width s"
  by (cases s) (auto simp: rune_width_def Let_def split: list.splits)

lemma rune_width_ascii [simp]: "ord c < 0x80 \<Longrightarrow> decode_rune (c # s) = (ord c, 1)"
  by simp

fun range_from :: "nat \<Rightarrow> nat \<Rightarrow> string \<Rightarrow> nat list" where
  \<comment> \<open>the start indices of the runes; \<open>skip\<close> bytes of the current rune are still to come\<close>
  "range_from i skip [] = []"
| "range_from i 0 (c # s) = i # range_from (Suc i) (rune_width (c # s) - 1) s"
| "range_from i (Suc skip) (c # s) = range_from (Suc i) skip s"

definition range_indices :: "string \<Rightarrow> nat list" where
  \<comment> \<open>the values of \<open>index\<close> in \<open>for index := range s\<close>\<close>
  "range_indices s = range_from 0 0 s"

fun runes_from :: "nat \<Rightarrow> string \<Rightarrow> nat list" where
  "runes_from skip [] = []"
| "runes_from 0 (c # s) = fst (decode_rune (c # s)) # runes_from (rune_width (c # s) - 1) s"
| "runes_from (Suc skip) (c # s) = runes_from skip s"

definition runes :: "string \<Rightarrow> nat list" where
  \<comment> \<open>the values of \<open>r\<close> in \<open>for _, r := range s\<close>\<close>
  "runes s = runes_from 0 s"

definition ascii :: "string \<Rightarrow> bool" where "ascii s \<longleftrightarrow> list_all (\<lambda>c. ord c < 0x80) s"

lemma ascii_simps [simp]:
  "ascii []" "ascii (c # s) \<longleftrightarrow> ord c < 0x80 \<and> ascii s" "ascii (s @ t) \<longleftrightarrow> ascii s \<and> ascii t"
  by (simp_all add: ascii_def)

lemma ascii_iff: "ascii s \<longleftrightarrow> (\<forall>c \<in> set s. ord c < 0x80)"
  by (simp add: ascii_def list_all_iff)

lemma range_from_bound: "i \<in> set (range_from k skip s) \<Longrightarrow> k \<le> i \<and> i < k + length s"
  by (induction k skip s rule: range_from.induct) force+

lemma range_indices_bound: "i \<in> set (range_indices s) \<Longrightarrow> i < length s"
  using range_from_bound [of i 0 0 s] by (simp add: range_indices_def)

lemma range_from_ascii: "ascii s \<Longrightarrow> range_from k 0 s = [k ..< k + length s]"
proof (induction s arbitrary: k)
  case (Cons c s)
  have "range_from k 0 (c # s) = k # range_from (Suc k) 0 s"
    using Cons.prems by (simp add: rune_width_def)
  also have "\<dots> = k # [Suc k ..< Suc k + length s]" using Cons.IH [of "Suc k"] Cons.prems by simp
  also have "\<dots> = [k ..< k + length (c # s)]" using upt_conv_Cons [of k "k + length (c # s)"] by simp
  finally show ?case .
qed simp

lemma range_indices_ascii: "ascii s \<Longrightarrow> range_indices s = [0 ..< length s]"
  using range_from_ascii [of s 0] by (simp add: range_indices_def)

section \<open>Package \<open>strings\<close>\<close>

fun IndexByte :: "string \<Rightarrow> char \<Rightarrow> nat option" where
  \<comment> \<open>\<open>None\<close> is -1\<close>
  "IndexByte [] c = None"
| "IndexByte (x # s) c = (if x = c then Some 0 else map_option Suc (IndexByte s c))"

fun LastIndexByte :: "string \<Rightarrow> char \<Rightarrow> nat option" where
  "LastIndexByte [] c = None"
| "LastIndexByte (x # s) c =
    (case LastIndexByte s c of Some i \<Rightarrow> Some (Suc i) | None \<Rightarrow> if x = c then Some 0 else None)"

definition HasPrefix :: "string \<Rightarrow> string \<Rightarrow> bool" where
  "HasPrefix s p \<longleftrightarrow> take (length p) s = p"

definition HasSuffix :: "string \<Rightarrow> string \<Rightarrow> bool" where
  "HasSuffix s p \<longleftrightarrow> length p \<le> length s \<and> drop (length s - length p) s = p"

definition TrimSuffix :: "string \<Rightarrow> string \<Rightarrow> string" where
  "TrimSuffix s p = (if HasSuffix s p then take (length s - length p) s else s)"

definition TrimRight :: "string \<Rightarrow> string \<Rightarrow> string" where
  \<comment> \<open>for a cutset of ASCII characters\<close>
  "TrimRight s cutset = rev (dropWhile (\<lambda>c. c \<in> set cutset) (rev s))"

fun split_at :: "(char \<Rightarrow> bool) \<Rightarrow> string \<Rightarrow> string list" where
  \<comment> \<open>the pieces of the string between the bytes that satisfy the predicate\<close>
  "split_at p [] = [[]]"
| "split_at p (c # s) =
    (if p c then [] # split_at p s
     else case split_at p s of [] \<Rightarrow> [[c]] | x # xs \<Rightarrow> (c # x) # xs)"

definition Split :: "string \<Rightarrow> char \<Rightarrow> string list" where
  "Split s c = split_at (\<lambda>x. x = c) s"

definition FieldsFunc :: "string \<Rightarrow> (char \<Rightarrow> bool) \<Rightarrow> string list" where
  \<comment> \<open>for a predicate that holds of ASCII characters only\<close>
  "FieldsFunc s p = filter (\<lambda>x. x \<noteq> []) (split_at p s)"

definition lower_byte :: "char \<Rightarrow> char" where
  "lower_byte c = (if CHR ''A'' \<le> c \<and> c \<le> CHR ''Z'' then char_of (ord c + 32) else c)"

definition ToLower :: "(nat \<Rightarrow> nat) \<Rightarrow> string \<Rightarrow> string" where
  \<comment> \<open>\<open>uni\<close> is \<open>unicode.ToLower\<close> on code points from \<open>0x80\<close>\<close>
  "ToLower uni s =
    (if ascii s then map lower_byte s
     else concat (map (\<lambda>r. encode_rune (if r < 0x80 then ord (lower_byte (char_of r)) else uni r)) (runes s)))"

definition white_space :: "nat list" where
  \<comment> \<open>the code points of \<open>unicode.IsSpace\<close>\<close>
  "white_space = [9, 10, 11, 12, 13, 32, 0x85, 0xA0, 0x1680, 0x2000, 0x2001, 0x2002, 0x2003, 0x2004,
     0x2005, 0x2006, 0x2007, 0x2008, 0x2009, 0x200A, 0x2028, 0x2029, 0x202F, 0x205F, 0x3000]"

function strip :: "string list \<Rightarrow> string \<Rightarrow> string" where
  \<comment> \<open>drops leading words while there are some\<close>
  "strip ws s =
    (case find (\<lambda>w. w \<noteq> [] \<and> HasPrefix s w) ws of
       None \<Rightarrow> s
     | Some w \<Rightarrow> strip ws (drop (length w) s))"
  by pat_completeness auto
termination
proof (relation "measure (\<lambda>(ws, s). length s)")
  fix ws s w
  assume "find (\<lambda>w. w \<noteq> [] \<and> HasPrefix s w) ws = Some w"
  then have "w \<noteq> []" "take (length w) s = w" by (auto simp: find_Some_iff HasPrefix_def)
  then show "((ws, drop (length w) s), ws, s) \<in> measure (\<lambda>(ws, s). length s)"
    by (cases s; cases w) auto
qed simp

declare strip.simps [simp del]

definition space_encodings :: "string list" where
  "space_encodings = map encode_rune white_space"

lemma space_encodings_code [code]:
  "space_encodings = map (map char_of)
    [[9], [10], [11], [12], [13], [32 :: nat], [0xC2, 0x85], [0xC2, 0xA0], [0xE1, 0x9A, 0x80],
     [0xE2, 0x80, 0x80], [0xE2, 0x80, 0x81], [0xE2, 0x80, 0x82], [0xE2, 0x80, 0x83], [0xE2, 0x80, 0x84],
     [0xE2, 0x80, 0x85], [0xE2, 0x80, 0x86], [0xE2, 0x80, 0x87], [0xE2, 0x80, 0x88], [0xE2, 0x80, 0x89],
     [0xE2, 0x80, 0x8A], [0xE2, 0x80, 0xA8], [0xE2, 0x80, 0xA9], [0xE2, 0x80, 0xAF], [0xE2, 0x81, 0x9F],
     [0xE3, 0x80, 0x80]]"
  by (simp add: space_encodings_def white_space_def encode_rune_def)

definition TrimSpace :: "string \<Rightarrow> string" where
  "TrimSpace s = rev (strip (map rev space_encodings) (rev (strip space_encodings s)))"

lemma strip_Nil: "strip ws [] = []"
proof -
  have "find (\<lambda>w. w \<noteq> [] \<and> HasPrefix [] w) ws = None" by (auto simp: find_None_iff HasPrefix_def)
  then show ?thesis by (subst strip.simps) simp
qed

lemma TrimSpace_Nil [simp]: "TrimSpace [] = []"
  by (simp add: TrimSpace_def strip_Nil)

section \<open>Facts about the string operations\<close>

lemma IndexByte_Some_iff:
  "IndexByte s c = Some i \<longleftrightarrow> i < length s \<and> s ! i = c \<and> c \<notin> set (take i s)"
proof (induction s arbitrary: i)
  case (Cons x s)
  show ?case
  proof (cases i)
    case 0
    then show ?thesis by simp
  next
    case (Suc j)
    then show ?thesis using Cons.IH [of j] by (cases "IndexByte s c") auto
  qed
qed simp

lemma IndexByte_split:
  "IndexByte s c = Some i \<longleftrightarrow> (\<exists>a b. s = a @ c # b \<and> c \<notin> set a \<and> i = length a)"
proof
  assume "IndexByte s c = Some i"
  then have "s = take i s @ c # drop (Suc i) s \<and> c \<notin> set (take i s) \<and> i = length (take i s)"
    using id_take_nth_drop [of i s] by (simp add: IndexByte_Some_iff)
  then show "\<exists>a b. s = a @ c # b \<and> c \<notin> set a \<and> i = length a" by blast
qed (auto simp: IndexByte_Some_iff)

lemma IndexByte_None_iff: "IndexByte s c = None \<longleftrightarrow> c \<notin> set s"
  by (induction s) auto

lemma IndexByte_app [simp]:
  "c \<notin> set s \<Longrightarrow> IndexByte (s @ c # t) c = Some (length s)"
  by (simp add: IndexByte_Some_iff)

lemma LastIndexByte_None_iff: "LastIndexByte s c = None \<longleftrightarrow> c \<notin> set s"
  by (induction s) (auto split: option.splits)

lemma LastIndexByte_Some_iff:
  "LastIndexByte s c = Some i \<longleftrightarrow> i < length s \<and> s ! i = c \<and> c \<notin> set (drop (Suc i) s)"
proof (induction s arbitrary: i)
  case (Cons x s)
  show ?case
  proof (cases i)
    case 0
    then show ?thesis using LastIndexByte_None_iff [of s c] by (auto split: option.splits)
  next
    case (Suc j)
    then show ?thesis using Cons.IH [of j] by (auto split: option.splits)
  qed
qed simp

lemma LastIndexByte_split:
  "LastIndexByte s c = Some i \<longleftrightarrow> (\<exists>a b. s = a @ c # b \<and> c \<notin> set b \<and> i = length a)"
proof
  assume "LastIndexByte s c = Some i"
  then have "s = take i s @ c # drop (Suc i) s \<and> c \<notin> set (drop (Suc i) s) \<and> i = length (take i s)"
    using id_take_nth_drop [of i s] by (simp add: LastIndexByte_Some_iff)
  then show "\<exists>a b. s = a @ c # b \<and> c \<notin> set b \<and> i = length a" by blast
qed (auto simp: LastIndexByte_Some_iff)

lemma LastIndexByte_app [simp]:
  "c \<notin> set t \<Longrightarrow> LastIndexByte (s @ c # t) c = Some (length s)"
  by (simp add: LastIndexByte_Some_iff)

lemma HasPrefix_iff: "HasPrefix s p \<longleftrightarrow> (\<exists>r. s = p @ r)"
  by (metis HasPrefix_def append_eq_conv_conj append_take_drop_id)

lemma HasPrefix_app [simp]: "HasPrefix (p @ r) p"
  by (auto simp: HasPrefix_iff)

lemma split_at_not_Nil [simp]: "split_at p s \<noteq> []"
  by (induction s) (auto split: list.splits)

lemma split_at_set:
  "x \<in> set (split_at p s) \<Longrightarrow> c \<in> set x \<Longrightarrow> c \<in> set s \<and> \<not> p c"
proof (induction s arbitrary: x)
  case (Cons a s)
  show ?case
  proof (cases "p a")
    case True
    then show ?thesis using Cons by (cases x) auto
  next
    case False
    obtain y ys where y: "split_at p s = y # ys" by (meson list.exhaust split_at_not_Nil)
    with False Cons.prems(1) consider "x = a # y" | "x \<in> set ys" by auto
    then show ?thesis
    proof cases
      case 1
      then show ?thesis using Cons.IH [of y] Cons.prems(2) y False by auto
    next
      case 2
      then show ?thesis using Cons.IH [of x] Cons.prems(2) y by auto
    qed
  qed
qed simp

lemma split_at_none: "list_all (\<lambda>c. \<not> p c) s \<Longrightarrow> split_at p s = [s]"
  by (induction s) auto

lemma split_at_app:
  "list_all (\<lambda>c. \<not> p c) s \<Longrightarrow> p c \<Longrightarrow> split_at p (s @ c # t) = s # split_at p t"
  by (induction s) auto

lemma lower_byte_simps:
  "ord (lower_byte c) = (if 65 \<le> ord c \<and> ord c \<le> 90 then ord c + 32 else ord c)"
  by (simp add: lower_byte_def ord_le_iff)

lemma lower_byte_idem [simp]: "lower_byte (lower_byte c) = lower_byte c"
  unfolding ord_eq_iff [symmetric] by (simp add: lower_byte_simps)

lemma lower_byte_not_upper: "\<not> (CHR ''A'' \<le> lower_byte c \<and> lower_byte c \<le> CHR ''Z'')"
  by (simp add: ord_le_iff lower_byte_simps)

lemma ascii_lower [simp]: "ascii (map lower_byte s) = ascii s"
  by (induction s) (auto simp: lower_byte_simps)

lemma ToLower_ascii: "ascii s \<Longrightarrow> ToLower uni s = map lower_byte s"
  by (simp add: ToLower_def)

lemma ToLower_idem_ascii: "ascii s \<Longrightarrow> ToLower uni (ToLower uni s) = ToLower uni s"
  by (simp add: ToLower_ascii)

end
