(* ===== verification/Apt_Parser.thy ===== *)
theory Apt_Parser
  imports Go_Strings
begin

text \<open>
  The command parser of \<open>server-go/modules/sandbox/sandbox.go\<close>: the package-name grammar, the
  quote-unaware tokenizer and \<open>ParseApt\<close>. The token cursor \<open>i\<close> of the Go loops is kept as
  a pair of lists: the tokens before it, latest first, and the tokens from it on.
\<close>

section \<open>Package names\<close>

definition PackageNameMax :: nat where [simp]: "PackageNameMax = 64"
definition LearnMax :: nat where [simp]: "LearnMax = 128"

definition isAlnum :: "char \<Rightarrow> bool" where
  "isAlnum c \<longleftrightarrow> (c \<ge> CHR ''0'' \<and> c \<le> CHR ''9'') \<or> (c \<ge> CHR ''a'' \<and> c \<le> CHR ''z'') \<or>
     (c \<ge> CHR ''A'' \<and> c \<le> CHR ''Z'')"

fun package_bytes :: "string \<Rightarrow> bool" where
  "package_bytes [] = True"
| "package_bytes (c # s) =
    (if isAlnum c \<or> c = CHR ''.'' \<or> c = CHR ''_'' \<or> c = CHR ''+'' \<or> c = CHR '':'' \<or> c = CHR ''-''
     then package_bytes s else False)"

definition packageValid :: "string \<Rightarrow> bool" where
  "packageValid s =
    (if s = [] then False else if \<not> isAlnum (s ! 0) then False else package_bytes s)"

definition isOperator :: "string \<Rightarrow> bool" where
  "isOperator tok \<longleftrightarrow> tok \<in> {''&&'', ''||'', ''|'', '';'', ''&'', [CHR 0x0A]}"

definition isEnvAssign :: "string \<Rightarrow> bool" where
  "isEnvAssign tok =
    (case IndexByte tok CHR ''='' of
       None \<Rightarrow> False
     | Some eq \<Rightarrow> if eq = 0 then False
                  else list_all (\<lambda>c. isAlnum c \<or> c = CHR ''_'') (take eq tok))"

definition aptOptionTakesArg :: "string \<Rightarrow> bool" where
  "aptOptionTakesArg tok \<longleftrightarrow>
     tok \<in> {''-t'', ''-o'', ''-c'', ''-a'', ''--target-release'', ''--default-release'', ''--option'',
       ''--config-file'', ''--arch''}"

section \<open>The tokenizer\<close>

definition isDelim :: "char \<Rightarrow> bool" where
  "isDelim c \<longleftrightarrow> c = CHR '' '' \<or> c = CHR 0x09 \<or> c = CHR 0x0D \<or> c = CHR 0x0A \<or> c = CHR '';'' \<or>
     c = CHR ''|'' \<or> c = CHR ''&''"

definition isBlank :: "char \<Rightarrow> bool" where
  \<comment> \<open>what the tokenizer skips before a token\<close>
  "isBlank c \<longleftrightarrow> c = CHR '' '' \<or> c = CHR 0x09 \<or> c = CHR 0x0D"

fun operator_token :: "string \<Rightarrow> string list \<times> string" where
  \<comment> \<open>the \<open>switch\<close> at a delimiter: the tokens it emits and the text after it\<close>
  "operator_token [] = ([], [])"
| "operator_token (c # s) =
    (if c = CHR ''&'' \<and> s \<noteq> [] \<and> hd s = CHR ''&'' then ([''&&''], tl s)
     else if c = CHR ''|'' \<and> s \<noteq> [] \<and> hd s = CHR ''|'' then ([''||''], tl s)
     else if c = CHR ''|'' then ([''|''], s)
     else if c = CHR '';'' then ([CHR '';'' # []], s)
     else if c = CHR ''&'' then ([''&''], s)
     else if c = CHR 0x0A then ([[CHR 0x0A]], s)
     else ([], s))"

lemma operator_token_length: "s \<noteq> [] \<Longrightarrow> length (snd (operator_token s)) < length s"
  by (cases s) (auto simp: less_Suc_eq_le)

function tokenize :: "string \<Rightarrow> string list" where
  "tokenize cmd =
    (if cmd = [] then []
     else
       let rest = dropWhile isBlank cmd
       in if rest = [] then []
          else
            let word = takeWhile (\<lambda>c. \<not> isDelim c) rest;
                after = dropWhile (\<lambda>c. \<not> isDelim c) rest;
                tokens = (if word \<noteq> [] then [word] else [])
            in if after = [] then tokens
               else let (ops, cmd') = operator_token after in tokens @ ops @ tokenize cmd')"
  by pat_completeness auto
termination
proof (relation "measure length")
  fix cmd rest word after tokens x ops cmd'
  assume "rest = dropWhile isBlank cmd" "after = dropWhile (\<lambda>c. \<not> isDelim c) rest" "after \<noteq> []"
    "x = operator_token after" "(ops, cmd') = x"
  then have "length cmd' < length after" using operator_token_length [of after] by (metis snd_conv)
  also have "length after \<le> length rest" using \<open>after = _\<close> by (simp add: length_dropWhile_le)
  also have "length rest \<le> length cmd" using \<open>rest = _\<close> by (simp add: length_dropWhile_le)
  finally show "(cmd', cmd) \<in> measure length" by simp
qed simp

declare tokenize.simps [simp del]

section \<open>ParseApt\<close>

fun skip_prefix :: "string list \<Rightarrow> string list \<Rightarrow> string list \<times> string list" where
  \<comment> \<open>environment assignments, \<open>sudo\<close>, and a flag right after \<open>sudo\<close>\<close>
  "skip_prefix before [] = (before, [])"
| "skip_prefix before (t # ts) =
    (if isEnvAssign t \<or> t = ''sudo'' \<or> (before \<noteq> [] \<and> hd before = ''sudo'' \<and> HasPrefix t ''-'')
     then skip_prefix (t # before) ts
     else (before, t # ts))"

fun skip_segment :: "string list \<Rightarrow> string list \<Rightarrow> string list \<times> string list" where
  \<comment> \<open>to the next operator, and over it\<close>
  "skip_segment before [] = (before, [])"
| "skip_segment before (t # ts) =
    (if isOperator t then (t # before, ts) else skip_segment (t # before) ts)"

fun contains :: "string list \<Rightarrow> string \<Rightarrow> bool" where
  "contains [] wanted = False"
| "contains (v # vs) wanted = (if v = wanted then True else contains vs wanted)"

definition token_name :: "string \<Rightarrow> string" where
  \<comment> \<open>the name of a package token: up to a version pin, cut to \<open>PackageNameMax - 1\<close> bytes\<close>
  "token_name t =
    (let name = (case IndexByte t CHR ''='' of Some eq \<Rightarrow> take eq t | None \<Rightarrow> t)
     in if length name \<ge> PackageNameMax then take (PackageNameMax - 1) name else name)"

definition add_token :: "string \<Rightarrow> string list \<Rightarrow> string list" where
  \<comment> \<open>a token after \<open>install\<close>\<close>
  "add_token t found =
    (if HasPrefix t ''-'' then found
     else if IndexByte t CHR ''/'' \<noteq> None then found
     else let name = token_name t
          in if packageValid name \<and> \<not> contains found name then found @ [name] else found)"

fun apt_args :: "nat \<Rightarrow> bool \<Rightarrow> string list \<Rightarrow> string list \<Rightarrow> string list \<Rightarrow>
    string list \<times> string list \<times> string list" where
  \<comment> \<open>the loop over the tokens after \<open>apt\<close>\<close>
  "apt_args max_found seenInstall found before [] = (found, before, [])"
| "apt_args max_found seenInstall found before (t # ts) =
    (if isOperator t \<or> \<not> length found < max_found then (found, before, t # ts)
     else if HasPrefix t ''-'' \<and> aptOptionTakesArg t then
       (case ts of
          [] \<Rightarrow> (found, t # before, [])
        | u # us \<Rightarrow> if isOperator u then (found, t # before, u # us)
                     else apt_args max_found seenInstall found (u # t # before) us)
     else if \<not> seenInstall then
       (if t = ''install'' then apt_args max_found True found (t # before) ts
        else if HasPrefix t ''-'' then apt_args max_found seenInstall found (t # before) ts
        else (found, t # before, ts))
     else apt_args max_found seenInstall (add_token t found) (t # before) ts)"

definition skip_operator :: "string list \<Rightarrow> string list \<Rightarrow> string list \<times> string list" where
  "skip_operator before rest =
    (case rest of t # ts \<Rightarrow> if isOperator t then (t # before, ts) else (before, rest) | [] \<Rightarrow> (before, rest))"

lemma skip_prefix_length: "length (snd (skip_prefix before ts)) \<le> length ts"
  by (induction before ts rule: skip_prefix.induct) auto

lemma skip_segment_length: "ts \<noteq> [] \<Longrightarrow> length (snd (skip_segment before ts)) < length ts"
proof (induction before ts rule: skip_segment.induct)
  case (2 before t ts)
  then show ?case by (cases ts) auto
qed simp

lemma apt_args_cases:
  \<comment> \<open>one step of the loop, by the kind of token\<close>
  assumes "\<not> isOperator t" and "length found < m"
  obtains (value_end) "HasPrefix t ''-''" "ts = []"
      "apt_args m seen found before (t # ts) = (found, t # before, [])"
    | (value_operator) u us where "HasPrefix t ''-''" "ts = u # us" "isOperator u"
      "apt_args m seen found before (t # ts) = (found, t # before, u # us)"
    | (option_value) u us where "HasPrefix t ''-''" "ts = u # us" "\<not> isOperator u"
      "apt_args m seen found before (t # ts) = apt_args m seen found (u # t # before) us"
    | (install) "\<not> seen" "t = ''install''"
      "apt_args m seen found before (t # ts) = apt_args m True found (t # before) ts"
    | (flag) "\<not> seen" "HasPrefix t ''-''"
      "apt_args m seen found before (t # ts) = apt_args m seen found (t # before) ts"
    | (other) "\<not> seen" "t \<noteq> ''install''" "\<not> HasPrefix t ''-''"
      "apt_args m seen found before (t # ts) = (found, t # before, ts)"
    | (package) "seen"
      "apt_args m seen found before (t # ts) = apt_args m seen (add_token t found) (t # before) ts"
proof (cases "HasPrefix t ''-'' \<and> aptOptionTakesArg t")
  case True
  then show thesis
    using assms that(1,2,3) by (cases ts) (auto simp del: apt_args.simps(1) split: if_splits)
next
  case False
  then have "apt_args m seen found before (t # ts) =
      (if \<not> seen then
        (if t = ''install'' then apt_args m True found (t # before) ts
         else if HasPrefix t ''-'' then apt_args m seen found (t # before) ts
         else (found, t # before, ts))
       else apt_args m seen (add_token t found) (t # before) ts)"
    unfolding apt_args.simps(2)
    by (simp only: assms False if_False simp_thms not_True_eq_False not_False_eq_True)
  then show thesis using that(4-7) by (cases seen) (auto split: if_splits)
qed

lemma apt_args_length: "length (snd (snd (apt_args m seen found before ts))) \<le> length ts"
proof (induction ts arbitrary: seen found before rule: length_induct)
  case (1 ts)
  then have IH: "length us < length ts \<Longrightarrow> length (snd (snd (apt_args m seen' found' before' us))) \<le> length us"
    for us seen' found' before' by blast
  show ?case
  proof (cases ts)
    case (Cons t us)
    show ?thesis
    proof (cases "isOperator t \<or> \<not> length found < m")
      case False
      then have "\<not> isOperator t" "length found < m" by simp_all
      then show ?thesis
      proof (cases rule: apt_args_cases [of t found m us seen before])
        case (option_value u vs)
        then show ?thesis using IH [of vs seen found "u # t # before"] Cons by simp
      qed (use IH [of us] Cons in \<open>simp_all add: le_SucI\<close>)
    qed (simp add: Cons)
  qed simp
qed

lemma skip_operator_length: "length (snd (skip_operator before rest)) \<le> length rest"
  by (auto simp: skip_operator_def split: list.splits)

definition segment :: "nat \<Rightarrow> string list \<Rightarrow> string list \<Rightarrow> string list \<Rightarrow>
    (string list \<times> string list \<times> string list) option" where
  \<comment> \<open>one pass of the outer loop; \<open>None\<close> is its \<open>break\<close>\<close>
  "segment max_found found before rest =
    (case skip_prefix before rest of
       (before, []) \<Rightarrow> None
     | (before, t # ts) \<Rightarrow>
        if t \<noteq> ''apt'' \<and> t \<noteq> ''apt-get'' then
          (let (before, rest) = skip_segment before (t # ts) in Some (found, before, rest))
        else
          (let (found, before, rest) = apt_args max_found False found (t # before) ts;
               (before, rest) = skip_operator before rest
           in Some (found, before, rest)))"

lemma segment_cases:
  assumes "segment m found before rest = Some (found', before', rest')"
  obtains (other) b t ts where "skip_prefix before rest = (b, t # ts)" "t \<notin> {''apt'', ''apt-get''}"
      "found' = found" "skip_segment b (t # ts) = (before', rest')"
    | (apt) b t ts b1 r1 where "skip_prefix before rest = (b, t # ts)" "t \<in> {''apt'', ''apt-get''}"
      "apt_args m False found (t # b) ts = (found', b1, r1)" "skip_operator b1 r1 = (before', rest')"
  using assms unfolding segment_def
  by (auto simp only: Let_def split: prod.splits list.splits if_splits) auto

lemma segment_length:
  assumes "segment m found before rest = Some (found', before', rest')"
  shows "length rest' < length rest"
  using assms
proof (cases rule: segment_cases)
  case (other b t ts)
  then show ?thesis
    using skip_prefix_length [of before rest] skip_segment_length [of "t # ts" b] by simp
next
  case (apt b t ts b1 r1)
  then show ?thesis
    using skip_prefix_length [of before rest] apt_args_length [of m False found "t # b" ts]
      skip_operator_length [of b1 r1] by simp
qed

function parse_segments :: "nat \<Rightarrow> string list \<Rightarrow> string list \<Rightarrow> string list \<Rightarrow> string list" where
  "parse_segments max_found found before rest =
    (if rest = [] \<or> \<not> length found < max_found then found
     else case segment max_found found before rest of
       None \<Rightarrow> found
     | Some (found, before, rest) \<Rightarrow> parse_segments max_found found before rest)"
  by pat_completeness auto
termination
  by (relation "measure (\<lambda>(m, found, before, rest). length rest)") (auto dest: segment_length)

declare parse_segments.simps [simp del]

definition ParseApt :: "string \<Rightarrow> int \<Rightarrow> string list" where
  "ParseApt cmd max_found =
    (if cmd = [] \<or> max_found \<le> 0 then []
     else parse_segments (nat max_found) [] [] (tokenize cmd))"

section \<open>Facts about the tokenizer\<close>

lemma operator_token_concat:
  assumes "s \<noteq> []" and "isDelim (hd s)"
  shows "concat (fst (operator_token s)) @ filter (\<lambda>c. \<not> isBlank c) (snd (operator_token s)) =
    filter (\<lambda>c. \<not> isBlank c) s"
  using assms by (cases s; cases "tl s") (auto simp: isBlank_def isDelim_def)

lemma operator_token_ops: "tok \<in> set (fst (operator_token s)) \<Longrightarrow> isOperator tok"
  by (cases s) (auto simp: isOperator_def split: if_splits)

lemma blank_delim: "isBlank c \<Longrightarrow> isDelim c"
  by (auto simp: isBlank_def isDelim_def)

lemma filter_dropWhile_blank: "filter (\<lambda>c. \<not> isBlank c) (dropWhile isBlank s) = filter (\<lambda>c. \<not> isBlank c) s"
  by (induction s) auto

lemma tokenize_blank [simp]: "tokenize [] = []"
  by (simp add: tokenize.simps)

lemma tokenize_step:
  assumes "dropWhile isBlank cmd = rest" "rest \<noteq> []"
    and "takeWhile (\<lambda>c. \<not> isDelim c) rest = word" "dropWhile (\<lambda>c. \<not> isDelim c) rest = after"
  shows "tokenize cmd = (if word \<noteq> [] then [word] else []) @
    (if after = [] then [] else fst (operator_token after) @ tokenize (snd (operator_token after)))"
proof -
  have "cmd \<noteq> []" using assms by auto
  then show ?thesis
    by (subst tokenize.simps) (simp add: assms Let_def split_beta)
qed

definition word_token :: "string \<Rightarrow> bool" where
  "word_token tok \<longleftrightarrow> tok \<noteq> [] \<and> list_all (\<lambda>c. \<not> isDelim c) tok"

lemma tokenize_facts:
  "concat (tokenize cmd) = filter (\<lambda>c. \<not> isBlank c) cmd \<and>
   (\<forall>tok \<in> set (tokenize cmd). isOperator tok \<or> word_token tok)"
proof (induction cmd rule: length_induct)
  case (1 cmd)
  define rest where "rest = dropWhile isBlank cmd"
  define word where "word = takeWhile (\<lambda>c. \<not> isDelim c) rest"
  define after where "after = dropWhile (\<lambda>c. \<not> isDelim c) rest"
  have fl: "filter (\<lambda>c. \<not> isBlank c) cmd = filter (\<lambda>c. \<not> isBlank c) rest"
    by (simp add: rest_def filter_dropWhile_blank)
  have rw: "rest = word @ after" by (simp add: word_def after_def)
  have w: "list_all (\<lambda>c. \<not> isDelim c) word" by (auto simp: word_def list_all_iff dest: set_takeWhileD)
  then have wf: "filter (\<lambda>c. \<not> isBlank c) word = word"
    by (auto simp: list_all_iff filter_id_conv dest: blank_delim)
  have wt: "\<forall>tok \<in> set (if word \<noteq> [] then [word] else []). word_token tok"
    using w by (simp add: word_token_def)
  show ?case
  proof (cases "rest = []")
    case True
    then show ?thesis using fl by (subst (1 2) tokenize.simps) (simp flip: rest_def)
  next
    case False
    note step = tokenize_step [OF rest_def [symmetric] False word_def [symmetric] after_def [symmetric]]
    show ?thesis
    proof (cases "after = []")
      case True
      then show ?thesis using step wt fl rw wf by auto
    next
      case af: False
      then have "isDelim (hd after)"
        using hd_dropWhile [of "\<lambda>c. \<not> isDelim c" rest] by (simp add: after_def)
      note oc = operator_token_concat [OF af this]
      have "length (snd (operator_token after)) < length cmd"
      proof -
        have "length (snd (operator_token after)) < length after" by (rule operator_token_length [OF af])
        also have "length after \<le> length cmd"
          unfolding after_def rest_def by (rule order_trans [OF length_dropWhile_le length_dropWhile_le])
        finally show ?thesis .
      qed
      then have IH: "concat (tokenize (snd (operator_token after))) =
            filter (\<lambda>c. \<not> isBlank c) (snd (operator_token after))"
          "\<forall>tok \<in> set (tokenize (snd (operator_token after))). isOperator tok \<or> word_token tok"
        using 1 by blast+
      have "concat (tokenize cmd) = word @ filter (\<lambda>c. \<not> isBlank c) after"
        using step af IH(1) oc by simp
      moreover have "\<forall>tok \<in> set (tokenize cmd). isOperator tok \<or> word_token tok"
        using step af IH(2) wt operator_token_ops [of _ after] by auto
      ultimately show ?thesis using fl rw wf by simp
    qed
  qed
qed

text \<open>Words separated by single blanks are their tokens.\<close>

lemma operator_token_blank: "isBlank b \<Longrightarrow> operator_token (b # s) = ([], s)"
  by (auto simp: isBlank_def)

lemma tokenize_word_blank:
  assumes "word_token w" and "isBlank b"
  shows "tokenize (w @ b # s) = w # tokenize s" and "tokenize w = [w]"
proof -
  have nd: "\<not> isDelim c" if "c \<in> set w" for c using assms(1) that by (auto simp: word_token_def list_all_iff)
  have "w \<noteq> []" using assms(1) by (simp add: word_token_def)
  then have "\<not> isBlank (hd w)" using nd [of "hd w"] blank_delim [of "hd w"] by auto
  with \<open>w \<noteq> []\<close> have d: "dropWhile isBlank (w @ r) = w @ r" for r by (cases w) auto
  have tw: "takeWhile (\<lambda>c. \<not> isDelim c) (w @ b # s) = w" "dropWhile (\<lambda>c. \<not> isDelim c) (w @ b # s) = b # s"
    using nd blank_delim [OF assms(2)] by (simp_all add: takeWhile_append dropWhile_append)
  show "tokenize (w @ b # s) = w # tokenize s"
    using tokenize_step [OF d _ tw] \<open>w \<noteq> []\<close> operator_token_blank [OF assms(2)] by simp
  have tw': "takeWhile (\<lambda>c. \<not> isDelim c) w = w" "dropWhile (\<lambda>c. \<not> isDelim c) w = []"
    using nd by (simp_all add: takeWhile_eq_all_conv)
  show "tokenize w = [w]"
    using tokenize_step [OF d [of "[]", simplified] \<open>w \<noteq> []\<close> tw'] \<open>w \<noteq> []\<close> by simp
qed

definition blank_bytes :: "char set" where
  "blank_bytes = {CHR '' '', CHR 0x09, CHR 0x0D}"

definition plain_word :: "string \<Rightarrow> bool" where
  \<comment> \<open>a word of a command: no white space and no byte of a shell operator in it\<close>
  "plain_word w \<longleftrightarrow> w \<noteq> [] \<and> set w \<inter> (blank_bytes \<union> {CHR 0x0A, CHR '';'', CHR ''|'', CHR ''&''}) = {}"

inductive spaced :: "string list \<Rightarrow> string \<Rightarrow> bool" where
  \<comment> \<open>the words with one or more blanks between them, and any number before and after\<close>
  spaced_Nil: "set b \<subseteq> blank_bytes \<Longrightarrow> spaced [] b"
| spaced_last: "set b \<subseteq> blank_bytes \<Longrightarrow> spaced [w] (b @ w)"
| spaced_Cons: "set b \<subseteq> blank_bytes \<Longrightarrow> c \<in> blank_bytes \<Longrightarrow> spaced ws s \<Longrightarrow> spaced (w # ws) (b @ w @ c # s)"

lemma isBlank_iff: "isBlank c \<longleftrightarrow> c \<in> blank_bytes"
  by (auto simp: isBlank_def blank_bytes_def)

lemma plain_word_iff: "plain_word w \<longleftrightarrow> word_token w"
  by (auto simp: plain_word_def word_token_def isDelim_def blank_bytes_def list_all_iff)

lemma tokenize_blanks:
  assumes "set b \<subseteq> blank_bytes"
  shows "tokenize (b @ s) = tokenize s" and "tokenize b = []"
proof -
  have "dropWhile isBlank (b @ s) = dropWhile isBlank s" "dropWhile isBlank b = []"
    using assms isBlank_iff by (auto simp: dropWhile_append)
  then show "tokenize (b @ s) = tokenize s" "tokenize b = []"
    by (subst (1 2) tokenize.simps, auto) (subst tokenize.simps, simp)
qed

lemma tokenize_spaced: "spaced ws cmd \<Longrightarrow> list_all plain_word ws \<Longrightarrow> tokenize cmd = ws"
proof (induction rule: spaced.induct)
  case (spaced_last b w)
  then show ?case
    using tokenize_word_blank(2) [of w "CHR '' ''"] by (simp add: tokenize_blanks plain_word_iff isBlank_def)
next
  case (spaced_Cons b c ws s w)
  then show ?case
    using tokenize_word_blank(1) [of w c s] by (simp add: tokenize_blanks plain_word_iff isBlank_iff)
qed (simp add: tokenize_blanks)

section \<open>Facts about the parser\<close>

definition name_char :: "char \<Rightarrow> bool" where
  "name_char c \<longleftrightarrow> isAlnum c \<or> c \<in> set ''._+:-''"

lemma package_bytes_iff: "package_bytes s \<longleftrightarrow> list_all name_char s"
  by (induction s) (auto simp: name_char_def)

lemma packageValid_iff: "packageValid s \<longleftrightarrow> s \<noteq> [] \<and> isAlnum (hd s) \<and> list_all name_char s"
  by (auto simp: packageValid_def package_bytes_iff hd_conv_nth)

lemma contains_iff: "contains xs x \<longleftrightarrow> x \<in> set xs"
  by (induction xs) auto

lemma token_name_short: "length (token_name t) < 64"
  by (auto simp: token_name_def Let_def split: option.splits)

definition found_inv :: "nat \<Rightarrow> string list \<Rightarrow> bool" where
  "found_inv m found \<longleftrightarrow> distinct found \<and> length found \<le> m \<and>
     (\<forall>n \<in> set found. packageValid n \<and> length n < 64)"

lemma add_token_inv: "found_inv m found \<Longrightarrow> length found < m \<Longrightarrow> found_inv m (add_token t found)"
  using token_name_short [of t] by (auto simp: add_token_def found_inv_def Let_def contains_iff)

lemma apt_args_inv:
  "found_inv m found \<Longrightarrow> found_inv m (fst (apt_args m seen found before ts))"
proof (induction ts arbitrary: seen found before rule: length_induct)
  case (1 ts)
  then have IH: "length us < length ts \<Longrightarrow> found_inv m found' \<Longrightarrow> found_inv m (fst (apt_args m seen' found' before' us))"
    for us seen' found' before' by blast
  show ?case
  proof (cases ts)
    case (Cons t us)
    show ?thesis
    proof (cases "isOperator t \<or> \<not> length found < m")
      case False
      then have "\<not> isOperator t" "length found < m" by simp_all
      then show ?thesis
      proof (cases rule: apt_args_cases [of t found m us seen before])
        case package
        then show ?thesis using IH [of us "add_token t found"] add_token_inv 1(2) False Cons by simp
      qed (use IH 1(2) Cons in simp_all)
    qed (use 1(2) in \<open>simp add: Cons\<close>)
  qed (use 1(2) in simp)
qed

lemma parse_segments_inv:
  "found_inv m found \<Longrightarrow> found_inv m (parse_segments m found before rest)"
proof (induction m found before rest rule: parse_segments.induct)
  case (1 m found before rest)
  show ?case
  proof (cases "rest = [] \<or> \<not> length found < m")
    case True
    then show ?thesis using 1(2) by (simp add: parse_segments.simps [of m found])
  next
    case False
    show ?thesis
    proof (cases "segment m found before rest")
      case None
      then show ?thesis using 1(2) by (simp add: parse_segments.simps [of m found])
    next
      case (Some r)
      obtain f b r' where r: "r = (f, b, r')" by (cases r)
      have "found_inv m f"
        using Some unfolding r
      proof (cases rule: segment_cases)
        case (apt b t ts b1 r1)
        then show ?thesis using apt_args_inv [OF 1(2), of False "t # b" ts] by simp
      qed (use 1(2) in simp)
      then have "found_inv m (parse_segments m f b r')"
        using 1(1) [OF False Some] r by blast
      then show ?thesis using False Some by (subst parse_segments.simps) (simp add: r)
    qed
  qed
qed

definition uniq :: "string list \<Rightarrow> string list" where
  \<comment> \<open>without repetitions, first occurrences kept\<close>
  "uniq xs = rev (remdups (rev xs))"

lemma uniq_snoc: "uniq (xs @ [x]) = (if x \<in> set xs then uniq xs else uniq xs @ [x])"
  by (simp add: uniq_def)

lemma uniq_append: "\<exists>zs. uniq (xs @ ys) = uniq xs @ zs"
proof (induction ys rule: rev_induct)
  case (snoc y ys)
  then obtain zs where "uniq (xs @ ys) = uniq xs @ zs" by blast
  then show ?case using uniq_snoc [of "xs @ ys" y] by (auto split: if_splits)
qed simp

lemma set_uniq [simp]: "set (uniq xs) = set xs"
  by (simp add: uniq_def)

lemma uniq_Nil [simp]: "uniq [] = []"
  by (simp add: uniq_def)

definition alphanumeric :: "char \<Rightarrow> bool" where
  "alphanumeric c \<longleftrightarrow> ord c \<in> {48..57} \<union> {65..90} \<union> {97..122}"

definition package_text :: "string \<Rightarrow> bool" where
  \<comment> \<open>a package name: a letter or digit, then letters, digits and \<open>. _ + : -\<close>\<close>
  "package_text s \<longleftrightarrow> s \<noteq> [] \<and> alphanumeric (hd s) \<and> (\<forall>c \<in> set s. alphanumeric c \<or> c \<in> set ''._+:-'')"

definition package_names :: "string list \<Rightarrow> string list" where
  \<comment> \<open>the valid names among the arguments of an install command: flags and paths are skipped,
    version pins cut off, and at most 63 bytes of a name are looked at\<close>
  "package_names args =
    filter package_text (map (\<lambda>t. take 63 (takeWhile (\<lambda>c. c \<noteq> CHR ''='') t))
      (filter (\<lambda>t. \<not> HasPrefix t ''-'' \<and> CHR ''/'' \<notin> set t) args))"

definition env_assignment :: "string \<Rightarrow> bool" where
  "env_assignment t \<longleftrightarrow> (\<exists>name val. t = name @ ''='' @ val \<and> name \<noteq> [] \<and>
     (\<forall>c \<in> set name. alphanumeric c \<or> c = CHR ''_''))"

definition value_options :: "string set" where
  \<comment> \<open>the options of \<open>apt\<close> whose value is the next word\<close>
  "value_options = {''-t'', ''-o'', ''-c'', ''-a'', ''--target-release'', ''--default-release'',
     ''--option'', ''--config-file'', ''--arch''}"

lemma alphanumeric_iff: "isAlnum = alphanumeric"
  unfolding isAlnum_def alphanumeric_def fun_eq_iff not_less [symmetric] ord_less_iff by auto

lemma package_text_iff: "packageValid = package_text"
  by (auto simp: fun_eq_iff packageValid_iff package_text_def list_all_iff name_char_def alphanumeric_iff)

lemma token_name_take: "token_name t = take 63 (takeWhile (\<lambda>c. c \<noteq> CHR ''='') t)"
proof (cases "IndexByte t CHR ''=''")
  case None
  then have tw: "takeWhile (\<lambda>c. c \<noteq> CHR ''='') t = t"
    using IndexByte_None_iff [of t "CHR ''=''"] by (auto simp: takeWhile_eq_all_conv)
  show ?thesis unfolding tw by (simp add: token_name_def None)
next
  case (Some n)
  then obtain a b where t: "t = a @ CHR ''='' # b" "CHR ''='' \<notin> set a" "n = length a"
    by (auto simp: IndexByte_split)
  then have "takeWhile (\<lambda>c. c \<noteq> CHR ''='') t = a" by (auto simp: takeWhile_append)
  with t show ?thesis by (simp add: token_name_def)
qed

lemma env_assignment_iff: "env_assignment t \<longleftrightarrow> isEnvAssign t"
proof -
  have eq: "\<not> (alphanumeric CHR ''='' \<or> CHR ''='' = CHR ''_'')" by (simp add: alphanumeric_def)
  show ?thesis
  proof
    assume "env_assignment t"
    then obtain name val where n: "t = name @ CHR ''='' # val" "name \<noteq> []"
      "\<forall>c \<in> set name. alphanumeric c \<or> c = CHR ''_''" by (auto simp: env_assignment_def)
    then have "CHR ''='' \<notin> set name" using eq by blast
    with n show "isEnvAssign t" by (simp add: isEnvAssign_def alphanumeric_iff list_all_iff)
  next
    assume e: "isEnvAssign t"
    then obtain a b where t: "t = a @ CHR ''='' # b" "CHR ''='' \<notin> set a"
      by (auto simp: isEnvAssign_def IndexByte_split split: option.splits)
    with e have "a \<noteq> []" "\<forall>c \<in> set a. alphanumeric c \<or> c = CHR ''_''"
      by (auto simp: isEnvAssign_def alphanumeric_iff list_all_iff split: if_splits)
    with t show "env_assignment t" by (auto simp: env_assignment_def)
  qed
qed

lemma value_options_iff: "aptOptionTakesArg t \<longleftrightarrow> t \<in> value_options"
  by (simp add: aptOptionTakesArg_def value_options_def)

lemma add_token_uniq: "add_token t (uniq ns) = uniq (ns @ package_names [t])"
  using IndexByte_None_iff [of t "CHR ''/''"]
  by (auto simp: add_token_def package_names_def Let_def contains_iff uniq_snoc package_text_iff token_name_take)

fun drop_values :: "string list \<Rightarrow> string list" where
  \<comment> \<open>the words without the options that take a value and without their values\<close>
  "drop_values [] = []"
| "drop_values (t # ts) = (if t \<in> value_options then drop_values (tl ts) else t # drop_values ts)"

lemma value_option_flag: "t \<in> value_options \<Longrightarrow> HasPrefix t ''-''"
  by (auto simp: value_options_def HasPrefix_def)

lemma apt_args_value:
  assumes "t \<in> value_options" and "list_all (\<lambda>t. \<not> isOperator t) (t # ts)" and "length found < m"
  shows "\<exists>b. apt_args m seen found before (t # ts) = apt_args m seen found b (tl ts)"
  using assms value_option_flag [OF assms(1)]
  by (cases ts) (auto simp: value_options_iff)

lemma apt_args_plain:
  assumes "list_all (\<lambda>t. \<not> isOperator t) args" and "length (uniq ns) \<le> m"
  shows "\<exists>b r. apt_args m True (uniq ns) before args = (take m (uniq (ns @ package_names (drop_values args))), b, r) \<and>
    (r = [] \<or> m \<le> length (uniq (ns @ package_names (drop_values args))))"
  using assms
proof (induction args arbitrary: ns before rule: drop_values.induct)
  case 1
  then show ?case by (simp add: package_names_def)
next
  case (2 t ts)
  have t: "\<not> isOperator t" and ts: "list_all (\<lambda>t. \<not> isOperator t) ts" "list_all (\<lambda>t. \<not> isOperator t) (tl ts)"
    using 2(3) by (simp_all, cases ts) simp_all
  show ?case
  proof (cases "length (uniq ns) < m")
    case False
    then have "apt_args m True (uniq ns) before (t # ts) = (uniq ns, before, t # ts)"
      unfolding apt_args.simps(2) by simp
    then show ?thesis
      using uniq_append [of ns "package_names (drop_values (t # ts))"] 2(4) False by auto
  next
    case True
    show ?thesis
    proof (cases "t \<in> value_options")
      case opt: True
      then obtain b where "apt_args m True (uniq ns) before (t # ts) = apt_args m True (uniq ns) b (tl ts)"
        using apt_args_value 2(3) True by blast
      then show ?thesis using 2(1) [OF opt ts(2) 2(4), of b] opt by (simp del: apt_args.simps)
    next
      case no: False
      have split: "package_names (drop_values (t # ts)) = package_names [t] @ package_names (drop_values ts)"
        using no by (simp add: package_names_def)
      have "apt_args m True (uniq ns) before (t # ts) =
          apt_args m True (uniq (ns @ package_names [t])) (t # before) ts"
        unfolding apt_args.simps(2) add_token_uniq
        by (simp only: t no value_options_iff True if_False simp_thms not_True_eq_False)
      moreover have "length (uniq (ns @ package_names [t])) \<le> m"
        using True by (auto simp: package_names_def uniq_snoc)
      ultimately show ?thesis
        unfolding split using 2(2) [OF no ts(1), of "ns @ package_names [t]" "t # before"]
        by (simp del: apt_args.simps)
    qed
  qed
qed

lemma apt_args_flags:
  assumes "drop_values ts = flags @ ''install'' # args" and "list_all (\<lambda>t. HasPrefix t ''-'') flags"
    and "list_all (\<lambda>t. \<not> isOperator t) ts" and "0 < m"
  shows "\<exists>b us. apt_args m False [] before ts = apt_args m True [] b us \<and> drop_values us = args \<and>
    list_all (\<lambda>t. \<not> isOperator t) us"
  using assms
proof (induction ts arbitrary: flags before rule: drop_values.induct)
  case (2 t ts)
  have t: "\<not> isOperator t" and ts: "list_all (\<lambda>t. \<not> isOperator t) ts" "list_all (\<lambda>t. \<not> isOperator t) (tl ts)"
    using 2(5) by (simp_all, cases ts) simp_all
  have m: "length ([] :: string list) < m" using 2(6) by simp
  show ?case
  proof (cases "t \<in> value_options")
    case True
    then obtain b where "apt_args m False [] before (t # ts) = apt_args m False [] b (tl ts)"
      using apt_args_value [OF True 2(5) m] by blast
    moreover have "drop_values (tl ts) = flags @ ''install'' # args" using 2(3) True by simp
    ultimately show ?thesis using 2(1) [OF True _ 2(4) ts(2) 2(6), of b] by simp
  next
    case no: False
    have step: "apt_args m False [] before (t # ts) =
        (if t = ''install'' then apt_args m True [] (t # before) ts
         else if HasPrefix t ''-'' then apt_args m False [] (t # before) ts else ([], t # before, ts))"
      unfolding apt_args.simps(2) using m
      by (simp only: t no value_options_iff if_False simp_thms not_False_eq_True if_True)
    have i: "\<not> HasPrefix ''install'' ''-''" by (simp add: HasPrefix_def)
    show ?thesis
    proof (cases flags)
      case Nil
      then show ?thesis using 2(3) no step ts by (auto simp del: apt_args.simps)
    next
      case (Cons f fs)
      then have "t = f" "drop_values ts = fs @ ''install'' # args" using 2(3) no by simp_all
      moreover have "HasPrefix f ''-''" "list_all (\<lambda>t. HasPrefix t ''-'') fs" using 2(4) Cons by simp_all
      moreover from this have "t \<noteq> ''install''" using i \<open>t = f\<close> by metis
      ultimately show ?thesis
        using 2(2) [OF no _ _ ts(1) 2(6), of fs "t # before"] step by simp
    qed
  qed
qed simp

lemma skip_prefix_all:
  assumes "list_all (\<lambda>t. isEnvAssign t \<or> t = ''sudo'') env" and "\<not> isEnvAssign w" "w \<noteq> ''sudo''" "\<not> HasPrefix w ''-''"
  shows "\<exists>b. skip_prefix before (env @ w # ts) = (b, w # ts)"
  using assms by (induction env arbitrary: before) auto

lemma parse_install_command:
  assumes "list_all (\<lambda>t. isEnvAssign t \<or> t = ''sudo'') env" and "w \<in> {''apt'', ''apt-get''}"
    and "drop_values ts = flags @ ''install'' # args" and "list_all (\<lambda>t. HasPrefix t ''-'') flags"
    and "list_all (\<lambda>t. \<not> isOperator t) ts" and "0 < m"
  shows "parse_segments m [] [] (env @ w # ts) = take m (uniq (package_names args))"
proof -
  have w: "\<not> isEnvAssign w" "w \<noteq> ''sudo''" "\<not> HasPrefix w ''-''"
    using assms(2) by (auto simp: isEnvAssign_def HasPrefix_def)
  obtain b where b: "skip_prefix [] (env @ w # ts) = (b, w # ts)"
    using skip_prefix_all [OF assms(1) w] by blast
  obtain b1 us where b1: "apt_args m False [] (w # b) ts = apt_args m True [] b1 us" "drop_values us = args"
    "list_all (\<lambda>t. \<not> isOperator t) us"
    using apt_args_flags [OF assms(3-6)] by blast
  obtain b2 r where b2: "apt_args m True [] b1 us = (take m (uniq (package_names args)), b2, r)"
    "r = [] \<or> m \<le> length (uniq (package_names args))"
    using apt_args_plain [OF b1(3), of "[]" m b1] b1(2) by auto
  obtain b3 r3 where b3: "skip_operator b2 r = (b3, r3)" by fastforce
  have "segment m [] [] (env @ w # ts) = Some (take m (uniq (package_names args)), b3, r3)"
    using assms(2) by (auto simp: segment_def b b1 b2 b3)
  moreover have "parse_segments m (take m (uniq (package_names args))) b3 r3 = take m (uniq (package_names args))"
  proof -
    have "r3 = [] \<or> \<not> length (take m (uniq (package_names args))) < m"
      using b2(2) b3 by (auto simp: skip_operator_def)
    then show ?thesis by (subst parse_segments.simps) auto
  qed
  ultimately show ?thesis using assms(6) by (subst parse_segments.simps) simp
qed

lemma word_not_operator: "word_token t \<Longrightarrow> \<not> isOperator t"
  by (auto simp: word_token_def isOperator_def isDelim_def)

section \<open>Properties of the parser\<close>

text \<open>The tokenizer loses nothing but blanks: the concatenation of the tokens is the command
  without its blanks, tabs and carriage returns, and every token is a shell operator or a
  non-empty word without delimiters, so an operator can never hide inside a word.
\<close>

theorem tokenize_spec:
  "concat (tokenize cmd) = filter (\<lambda>c. \<not> isBlank c) cmd \<and>
   (\<forall>tok. tok \<in> set (tokenize cmd) \<longrightarrow> isOperator tok \<or> (tok \<noteq> [] \<and> list_all (\<lambda>c. \<not> isDelim c) tok))"
  using tokenize_facts [of cmd] by (auto simp: word_token_def)

theorem tokenize_spec_witness:
  "tokenize ''a b&&c'' = [''a'', ''b'', ''&&'', ''c''] \<and> isOperator ''&&''"
proof -
  have t: "tokenize ''a b&&c'' = [''a'', ''b'', ''&&'', ''c'']" by code_simp
  then have "''&&'' \<in> set (tokenize ''a b&&c'')" by simp
  then have "isOperator ''&&''" using tokenize_spec [of "''a b&&c''"] by (auto simp: isDelim_def)
  with t show ?thesis by simp
qed

lemma ParseApt_inv: "found_inv (nat m) (ParseApt cmd m)"
  using parse_segments_inv [of "nat m" "[]" "[]" "tokenize cmd"] by (simp add: ParseApt_def found_inv_def)

text \<open>
  C9. The security boundary: whatever the untrusted command, every name \<open>ParseApt\<close> returns
  begins with an ASCII letter or digit, consists of letters, digits and \<open>. _ + : -\<close> only (no
  shell metacharacter, quote, path or flag), and has less than 64 bytes; the names are
  distinct and at most \<open>max\<close>.
\<close>

theorem ParseApt_safe:
  "distinct (ParseApt cmd m) \<and> int (length (ParseApt cmd m)) \<le> max m 0 \<and>
   list_all (\<lambda>name. packageValid name \<and> package_text name \<and> name \<noteq> [] \<and> isAlnum (hd name) \<and> list_all name_char name \<and>
     length name < PackageNameMax) (ParseApt cmd m)"
  using ParseApt_inv [of m cmd] by (auto simp: found_inv_def list_all_iff packageValid_iff simp flip: package_text_iff)

text \<open>
  C26. What an install command teaches: for a command made of words with blanks between them
  (and possibly around them), namely environment assignments and \<open>sudo\<close>, then \<open>apt\<close> or
  \<open>apt-get\<close>, then words which, without the options that take a value and their values, are
  flags, \<open>install\<close> and arguments, the result is exactly the package names among the
  arguments, version pins cut off, flags and paths skipped, repetitions removed, up to the
  limit. Words, spacing, assignments, options and package names are stated without any
  function of the code.
\<close>

theorem ParseApt_install:
  assumes "spaced (env @ w # ts) cmd" and "list_all plain_word (env @ w # ts)"
    and "list_all (\<lambda>t. env_assignment t \<or> t = ''sudo'') env" and "w \<in> {''apt'', ''apt-get''}"
    and "drop_values ts = flags @ ''install'' # args" and "list_all (\<lambda>t. HasPrefix t ''-'') flags" and "0 < m"
  shows "ParseApt cmd m = take (nat m) (uniq (package_names args))"
proof -
  have tok: "tokenize cmd = env @ w # ts" using assms(1,2) by (rule tokenize_spaced)
  have "cmd \<noteq> []" using tok by (auto simp: tokenize.simps [of "[]"])
  moreover have "list_all (\<lambda>t. \<not> isOperator t) ts"
    using assms(2) word_not_operator by (auto simp: list_all_iff plain_word_iff)
  ultimately show ?thesis
    using parse_install_command [OF assms(3) [unfolded env_assignment_iff] assms(4-6)] assms(7)
    by (simp add: ParseApt_def tok)
qed

theorem ParseApt_install_witness:
  "ParseApt ''sudo  apt-get -t sid install jq ./x.deb gcc=12 jq'' 128 = [''jq'', ''gcc'']"
proof -
  let ?ts = "[''-t'', ''sid'', ''install'', ''jq'', ''./x.deb'', ''gcc=12'', ''jq'']"
  have one: "spaced ws s \<Longrightarrow> spaced (w # ws) (w @ CHR '' '' # s)"
    and two: "spaced ws s \<Longrightarrow> spaced (w # ws) (CHR '' '' # w @ CHR '' '' # s)" for w ws s
    using spaced_Cons [of "[]" "CHR '' ''" ws s w] spaced_Cons [of "'' ''" "CHR '' ''" ws s w]
    by (simp_all add: blank_bytes_def)
  have "spaced [''jq''] ''jq''" using spaced_last [of "[]" "''jq''"] by simp
  then have "spaced ([''sudo''] @ ''apt-get'' # ?ts) ''sudo  apt-get -t sid install jq ./x.deb gcc=12 jq''"
    using one [of _ _ "''sudo''", OF two [of _ _ "''apt-get''", OF one [of _ _ "''-t''", OF one [of _ _ "''sid''", OF
      one [of _ _ "''install''", OF one [of _ _ "''jq''", OF one [of _ _ "''./x.deb''", OF
      one [of "[''jq'']" "''jq''" "''gcc=12''"]]]]]]]]
    by simp
  moreover have "list_all plain_word ([''sudo''] @ ''apt-get'' # ?ts)"
    by (simp add: plain_word_def blank_bytes_def)
  moreover have "drop_values ?ts = [] @ ''install'' # [''jq'', ''./x.deb'', ''gcc=12'', ''jq'']"
    by (simp add: value_options_def)
  ultimately have "ParseApt ''sudo  apt-get -t sid install jq ./x.deb gcc=12 jq'' 128 =
      take (nat 128) (uniq (package_names [''jq'', ''./x.deb'', ''gcc=12'', ''jq'']))"
    by (intro ParseApt_install [of "[''sudo'']" "''apt-get''" ?ts _ "[]"]) simp_all
  also have "\<dots> = [''jq'', ''gcc'']" by code_simp
  finally show ?thesis .
qed

text \<open>
  Another subcommand ends the argument loop without skipping the rest of its segment, so an
  \<open>apt install\<close> among the arguments of \<open>apt-get remove\<close> is parsed as a command of its own.
\<close>

lemma ParseApt_restarts_inside_segment:
  "ParseApt ''apt-get remove apt install gcc'' 128 = [''gcc'']"
  by code_simp

end
