(* ===== verification/Go_JSON.thy ===== *)
theory Go_JSON
  imports Go_Strings
begin

text \<open>
  What the sandbox module uses of \<open>encoding/json\<close>: the text syntax (a tokenizer and a stack
  machine over the tokens, with the nesting limit of the Go scanner), the string escapes of
  both directions with the replacement of ill-formed UTF-8, and the compact printer with HTML
  escaping. A JSON number is kept as its literal, since no request field is a number.
\<close>

section \<open>Values and printing\<close>

datatype json = JNull | JBool bool | JNum string | JStr string | JArr "json list"
  | JObj "(string \<times> json) list"

definition hex_digit :: "nat \<Rightarrow> char" where
  "hex_digit n = char_of (if n < 10 then 48 + n else 87 + n)"

definition BS :: char where [simp]: "BS = CHR 0x5C"   \<comment> \<open>backslash\<close>
definition DQ :: char where [simp]: "DQ = CHR 0x22"   \<comment> \<open>double quote\<close>

definition escape_ascii :: "char \<Rightarrow> string" where
  "escape_ascii c =
    (if c = DQ \<or> c = BS then [BS, c]
     else if c = CHR 0x08 then [BS, CHR ''b'']
     else if c = CHR 0x0C then [BS, CHR ''f'']
     else if c = CHR 0x0A then [BS, CHR ''n'']
     else if c = CHR 0x0D then [BS, CHR ''r'']
     else if c = CHR 0x09 then [BS, CHR ''t'']
     else if ord c < 0x20 \<or> c = CHR ''<'' \<or> c = CHR ''>'' \<or> c = CHR ''&''
     then [BS, CHR ''u'', CHR ''0'', CHR ''0'', hex_digit (ord c div 16), hex_digit (ord c mod 16)]
     else [c])"

definition escape_rune :: "string \<Rightarrow> string" where
  \<comment> \<open>how \<open>appendString\<close> writes the first rune of a non-empty string\<close>
  "escape_rune s =
    (let (r, w) = decode_rune s in
     if ord (hd s) < 0x80 then escape_ascii (hd s)
     else if r = RuneError \<and> w = 1 then BS # ''ufffd''
     else if r = 0x2028 then BS # ''u2028''
     else if r = 0x2029 then BS # ''u2029''
     else take w s)"

fun quote_from :: "nat \<Rightarrow> string \<Rightarrow> string" where
  \<comment> \<open>\<open>skip\<close> bytes of the current rune are already written\<close>
  "quote_from skip [] = []"
| "quote_from 0 (c # s) = escape_rune (c # s) @ quote_from (rune_width (c # s) - 1) s"
| "quote_from (Suc skip) (c # s) = quote_from skip s"

definition quote :: "string \<Rightarrow> string" where
  "quote s = DQ # quote_from 0 s @ [DQ]"

fun join :: "'a list \<Rightarrow> 'a list list \<Rightarrow> 'a list" where
  "join sep [] = []"
| "join sep [x] = x"
| "join sep (x # y # ys) = x @ sep @ join sep (y # ys)"

primrec print_json :: "json \<Rightarrow> string" where
  "print_json JNull = ''null''"
| "print_json (JBool b) = (if b then ''true'' else ''false'')"
| "print_json (JNum n) = n"
| "print_json (JStr s) = quote s"
| "print_json (JArr vs) = ''['' @ join '','' (map print_json vs) @ '']''"
| "print_json (JObj ms) = ''{'' @ join '','' (map (\<lambda>m. quote (fst m) @ '':'' @ snd m) (map (map_prod id print_json) ms)) @ ''}''"

section \<open>Tokens\<close>

datatype jtoken = TObjOpen | TObjClose | TArrOpen | TArrClose | TColon | TComma
  | TLit json | TStr string

definition hex_val :: "char \<Rightarrow> nat option" where
  "hex_val c =
    (if 48 \<le> ord c \<and> ord c \<le> 57 then Some (ord c - 48)
     else if 97 \<le> ord c \<and> ord c \<le> 102 then Some (ord c - 87)
     else if 65 \<le> ord c \<and> ord c \<le> 70 then Some (ord c - 55)
     else None)"

fun hex4 :: "string \<Rightarrow> (nat \<times> string) option" where
  "hex4 (a # b # c # d # s) =
    (case (hex_val a, hex_val b, hex_val c, hex_val d) of
       (Some i, Some j, Some k, Some l) \<Rightarrow> Some (((i * 16 + j) * 16 + k) * 16 + l, s)
     | _ \<Rightarrow> None)"
| "hex4 s = None"

definition u_escape :: "string \<Rightarrow> (nat \<times> string) option" where
  \<comment> \<open>\<open>getu4\<close>: a code unit escape at the start of the text\<close>
  "u_escape s = (if take 2 s = [BS, CHR ''u''] then hex4 (drop 2 s) else None)"

definition escape_rune_at :: "nat \<Rightarrow> string \<Rightarrow> nat \<times> string" where
  \<comment> \<open>the code point of a \<open>\u\<close> escape with value \<open>r\<close>, pairing surrogates, and the text after it\<close>
  "escape_rune_at r s =
    (if 0xD800 \<le> r \<and> r < 0xE000 then
       (case u_escape s of
          Some (r2, s2) \<Rightarrow>
            if r < 0xDC00 \<and> 0xDC00 \<le> r2 \<and> r2 < 0xE000
            then ((r - 0xD800) * 1024 + (r2 - 0xDC00) + 0x10000, s2) else (RuneError, s)
        | None \<Rightarrow> (RuneError, s))
     else (r, s))"

definition simple_escape :: "char \<Rightarrow> char option" where
  "simple_escape c =
    (if c = DQ \<or> c = BS \<or> c = CHR ''/'' then Some c
     else if c = CHR ''b'' then Some (CHR 0x08)
     else if c = CHR ''f'' then Some (CHR 0x0C)
     else if c = CHR ''n'' then Some (CHR 0x0A)
     else if c = CHR ''r'' then Some (CHR 0x0D)
     else if c = CHR ''t'' then Some (CHR 0x09)
     else None)"

lemma hex4_length: "hex4 s = Some (r, s') \<Longrightarrow> length s' < length s"
  by (cases s rule: hex4.cases) (auto split: option.splits)

lemma escape_rune_at_length: "length (snd (escape_rune_at r s)) \<le> length s"
proof -
  have "length s' \<le> length s" if "u_escape s = Some (r', s')" for r' s'
    using that hex4_length [of "drop 2 s"] by (fastforce simp: u_escape_def split: if_splits)
  then show ?thesis by (auto simp: escape_rune_at_def split: option.splits)
qed

function unquote :: "string \<Rightarrow> (string \<times> string) option" where
  \<comment> \<open>the text after an opening quote: the decoded string and the text after the closing quote\<close>
  "unquote [] = None"
| "unquote (c # s) =
    (if c = DQ then Some ([], s)
     else if c = BS then
       (case s of
          [] \<Rightarrow> None
        | e # s1 \<Rightarrow>
           if e = CHR ''u'' then
             (case hex4 s1 of
                None \<Rightarrow> None
              | Some (r, s2) \<Rightarrow>
                  let (r, s3) = escape_rune_at r s2
                  in map_option (map_prod ((@) (encode_rune r)) id) (unquote s3))
           else
             (case simple_escape e of
                None \<Rightarrow> None
              | Some d \<Rightarrow> map_option (map_prod ((#) d) id) (unquote s1)))
     else if ord c < 0x20 then None
     else
       let (r, w) = decode_rune (c # s)
       in map_option (map_prod ((@) (encode_rune r)) id) (unquote (drop (w - 1) s)))"
  by pat_completeness auto
termination
proof (relation "measure length", goal_cases)
  case (2 c s e s1 x r s2 y r' s3)
  then show ?case
    using hex4_length [of s1 r s2] escape_rune_at_length [of r s2]
    by (metis (no_types, lifting) in_measure length_Cons less_SucI less_le_trans not_less_eq snd_conv
        order_le_less_trans)
qed auto

declare unquote.simps(2) [simp del]

definition isDigit :: "char \<Rightarrow> bool" where "isDigit c \<longleftrightarrow> 48 \<le> ord c \<and> ord c \<le> 57"

definition scan_digits :: "string \<Rightarrow> (string \<times> string) option" where
  \<comment> \<open>one digit or more\<close>
  "scan_digits s =
    (case takeWhile isDigit s of [] \<Rightarrow> None | ds \<Rightarrow> Some (ds, dropWhile isDigit s))"

definition scan_int :: "string \<Rightarrow> (string \<times> string) option" where
  "scan_int s =
    (case s of
       [] \<Rightarrow> None
     | c # s' \<Rightarrow> if c = CHR ''0'' then Some (''0'', s') else scan_digits s)"

definition scan_frac :: "string \<Rightarrow> (string \<times> string) option" where
  "scan_frac s =
    (case s of
       [] \<Rightarrow> Some ([], [])
     | c # s' \<Rightarrow> if c = CHR ''.'' then map_option (map_prod ((#) c) id) (scan_digits s') else Some ([], s))"

definition scan_exp :: "string \<Rightarrow> (string \<times> string) option" where
  "scan_exp s =
    (case s of
       [] \<Rightarrow> Some ([], [])
     | c # s1 \<Rightarrow>
        if c = CHR ''e'' \<or> c = CHR ''E'' then
          (case s1 of
             [] \<Rightarrow> None
           | d # s2 \<Rightarrow>
              if d = CHR ''+'' \<or> d = CHR ''-'' then map_option (map_prod (\<lambda>x. c # d # x) id) (scan_digits s2)
              else map_option (map_prod ((#) c) id) (scan_digits s1))
        else Some ([], s))"

definition scan_number :: "string \<Rightarrow> (string \<times> string) option" where
  "scan_number s =
    (let (sign, s) = (if s \<noteq> [] \<and> hd s = CHR ''-'' then (''-'', tl s) else ([], s)) in
     case scan_int s of
       None \<Rightarrow> None
     | Some (i, s) \<Rightarrow>
     (case scan_frac s of
       None \<Rightarrow> None
     | Some (f, s) \<Rightarrow>
     (case scan_exp s of
       None \<Rightarrow> None
     | Some (e, s) \<Rightarrow> Some (sign @ i @ f @ e, s))))"

definition scan_token :: "string \<Rightarrow> (jtoken \<times> string) option" where
  \<comment> \<open>the token at the start of a non-empty text\<close>
  "scan_token s =
    (let c = hd s; s' = tl s in
     if c = CHR ''{'' then Some (TObjOpen, s')
     else if c = CHR ''}'' then Some (TObjClose, s')
     else if c = CHR ''['' then Some (TArrOpen, s')
     else if c = CHR '']'' then Some (TArrClose, s')
     else if c = CHR '':'' then Some (TColon, s')
     else if c = CHR '','' then Some (TComma, s')
     else if c = DQ then map_option (map_prod TStr id) (unquote s')
     else if HasPrefix s ''true'' then Some (TLit (JBool True), drop 4 s)
     else if HasPrefix s ''false'' then Some (TLit (JBool False), drop 5 s)
     else if HasPrefix s ''null'' then Some (TLit JNull, drop 4 s)
     else map_option (map_prod (TLit \<circ> JNum) id) (scan_number s))"

definition json_space :: "char \<Rightarrow> bool" where
  "json_space c \<longleftrightarrow> c = CHR '' '' \<or> c = CHR 0x09 \<or> c = CHR 0x0A \<or> c = CHR 0x0D"

lemma unquote_length: "unquote s = Some (x, s') \<Longrightarrow> length s' < length s"
proof (induction s arbitrary: x s' rule: length_induct)
  case (1 s)
  have IH: "length s' < length u" if "unquote u = Some (x, s')" "length u < length s" for u x s'
    using 1(1) that by blast
  show ?case
  proof (cases s)
    case Nil
    then show ?thesis using 1(2) by simp
  next
    case (Cons c u)
    consider "c = DQ" | (esc) "c \<noteq> DQ" "c = BS" | (rune) "c \<noteq> DQ" "c \<noteq> BS" by blast
    then show ?thesis
    proof cases
      case esc
      then obtain e s1 where u: "u = e # s1"
        using 1(2) Cons by (cases u) (auto simp: unquote.simps(2))
      show ?thesis
      proof (cases "e = CHR ''u''")
        case True
        then obtain r s2 where r: "hex4 s1 = Some (r, s2)"
          using 1(2) Cons u esc by (auto simp: unquote.simps(2) split: option.splits)
        obtain r' s3 where r': "escape_rune_at r s2 = (r', s3)" by fastforce
        have "length s3 < length s1"
          using hex4_length [OF r] escape_rune_at_length [of r s2] r' by simp
        moreover obtain y where "unquote s3 = Some (y, s')"
          using 1(2) Cons u esc True r r' by (auto simp: unquote.simps(2))
        ultimately show ?thesis using IH [of s3] Cons u by fastforce
      next
        case False
        then obtain y where "unquote s1 = Some (y, s')"
          using 1(2) Cons u esc by (auto simp: unquote.simps(2) split: option.splits)
        then show ?thesis using IH [of s1] Cons u by fastforce
      qed
    next
      case rune
      then obtain y where "unquote (drop (snd (decode_rune s) - 1) u) = Some (y, s')"
        using 1(2) Cons
        by (auto simp: unquote.simps(2) split_beta simp del: decode_rune.simps split: if_splits)
      then show ?thesis using IH [of "drop (snd (decode_rune s) - 1) u"] Cons by fastforce
    qed (use 1(2) Cons in \<open>simp add: unquote.simps(2)\<close>)
  qed
qed

lemma scan_digits_length: "scan_digits s = Some (x, s') \<Longrightarrow> length s' < length s"
proof -
  assume a: "scan_digits s = Some (x, s')"
  then have "takeWhile isDigit s \<noteq> []" "s' = dropWhile isDigit s"
    by (auto simp: scan_digits_def split: list.splits)
  moreover have "length (takeWhile isDigit s) + length (dropWhile isDigit s) = length s"
    by (metis length_append takeWhile_dropWhile_id)
  ultimately show ?thesis by (cases "takeWhile isDigit s") auto
qed

lemma scan_int_length: "scan_int s = Some (x, s') \<Longrightarrow> length s' < length s"
  using scan_digits_length [of s x s'] by (auto simp: scan_int_def split: list.splits if_splits)

lemma scan_frac_length: "scan_frac s = Some (x, s') \<Longrightarrow> length s' \<le> length s"
  using scan_digits_length by (fastforce simp: scan_frac_def split: list.splits if_splits)

lemma scan_exp_length: "scan_exp s = Some (x, s') \<Longrightarrow> length s' \<le> length s"
  using scan_digits_length by (fastforce simp: scan_exp_def split: list.splits if_splits)

lemma scan_number_length: "scan_number s = Some (x, s') \<Longrightarrow> length s' < length s"
proof -
  assume a: "scan_number s = Some (x, s')"
  define u where "u = (if s \<noteq> [] \<and> hd s = CHR ''-'' then tl s else s)"
  have "length u \<le> length s" by (simp add: u_def)
  moreover from a obtain i s1 f s2 e where "scan_int u = Some (i, s1)" "scan_frac s1 = Some (f, s2)"
    "scan_exp s2 = Some (e, s')"
    by (auto simp: scan_number_def u_def Let_def split: option.splits if_splits)
  ultimately show ?thesis
    using scan_int_length [of u i s1] scan_frac_length [of s1 f s2] scan_exp_length [of s2 e s'] by simp
qed

lemma scan_token_length: "s \<noteq> [] \<Longrightarrow> scan_token s = Some (t, s') \<Longrightarrow> length s' < length s"
  using unquote_length [of "tl s"] scan_number_length [of s]
  by (cases s) (fastforce simp: scan_token_def Let_def split: if_splits)+

function lex_json :: "string \<Rightarrow> jtoken list option" where
  "lex_json s =
    (case dropWhile json_space s of
       [] \<Rightarrow> Some []
     | s1 \<Rightarrow>
        (case scan_token s1 of
           None \<Rightarrow> None
         | Some (t, s2) \<Rightarrow> map_option ((#) t) (lex_json s2)))"
  by pat_completeness auto
termination
proof (relation "measure length", goal_cases)
  case (2 s c u x t s2)
  then have "length s2 < length (c # u)" using scan_token_length [of "c # u" t s2] by simp
  also have "length (c # u) \<le> length s" using 2(1) length_dropWhile_le [of json_space s] by simp
  finally show ?case by simp
qed simp

declare lex_json.simps [simp del]

section \<open>The parser\<close>

text \<open>
  A frame is a container that is being read: an array with its elements so far, latest
  first, or an object with its members so far, latest first, and the key whose value is due.
\<close>

datatype jframe = FArr "json list" | FObj "(string \<times> json) list" string

datatype jstate = PValue "jframe list" | PFirst "jframe list" | PKeyFirst "jframe list"
  | PKey "jframe list" "(string \<times> json) list" | PColon "jframe list" "(string \<times> json) list" string
  | PAfter "jframe list" json

definition maxNestingDepth :: nat where "maxNestingDepth = 10000"

definition begin_value :: "jframe list \<Rightarrow> jtoken \<Rightarrow> jstate option" where
  "begin_value stk t =
    (case t of
       TLit v \<Rightarrow> Some (PAfter stk v)
     | TStr s \<Rightarrow> Some (PAfter stk (JStr s))
     | TArrOpen \<Rightarrow> if length stk < maxNestingDepth then Some (PFirst stk) else None
     | TObjOpen \<Rightarrow> if length stk < maxNestingDepth then Some (PKeyFirst stk) else None
     | _ \<Rightarrow> None)"

fun json_step :: "jstate \<Rightarrow> jtoken \<Rightarrow> jstate option" where
  "json_step (PValue stk) t = begin_value stk t"
| "json_step (PFirst stk) t =
    (if t = TArrClose then Some (PAfter stk (JArr [])) else begin_value (FArr [] # stk) t)"
| "json_step (PKeyFirst stk) t =
    (case t of TObjClose \<Rightarrow> Some (PAfter stk (JObj [])) | TStr k \<Rightarrow> Some (PColon stk [] k) | _ \<Rightarrow> None)"
| "json_step (PKey stk ms) t = (case t of TStr k \<Rightarrow> Some (PColon stk ms k) | _ \<Rightarrow> None)"
| "json_step (PColon stk ms k) t = (if t = TColon then Some (PValue (FObj ms k # stk)) else None)"
| "json_step (PAfter [] v) t = None"
| "json_step (PAfter (FArr vs # stk) v) t =
    (if t = TComma then Some (PValue (FArr (v # vs) # stk))
     else if t = TArrClose then Some (PAfter stk (JArr (rev (v # vs)))) else None)"
| "json_step (PAfter (FObj ms k # stk) v) t =
    (if t = TComma then Some (PKey stk ((k, v) # ms))
     else if t = TObjClose then Some (PAfter stk (JObj (rev ((k, v) # ms)))) else None)"

fun json_run :: "jstate \<Rightarrow> jtoken list \<Rightarrow> jstate option" where
  "json_run st [] = Some st"
| "json_run st (t # ts) = (case json_step st t of None \<Rightarrow> None | Some st' \<Rightarrow> json_run st' ts)"

definition parse_json :: "string \<Rightarrow> json option" where
  "parse_json s =
    (case lex_json s of
       None \<Rightarrow> None
     | Some ts \<Rightarrow>
        (case json_run (PValue []) ts of Some (PAfter [] v) \<Rightarrow> Some v | _ \<Rightarrow> None))"

section \<open>UTF-8 facts\<close>

definition sanitize :: "string \<Rightarrow> string" where
  \<comment> \<open>the string with every ill-formed byte replaced by the replacement character\<close>
  "sanitize s = concat (map encode_rune (runes s))"

lemma runes_from_drop: "runes_from k s = runes_from 0 (drop k s)"
  by (induction k s rule: runes_from.induct) auto

lemma quote_from_drop: "quote_from k s = quote_from 0 (drop k s)"
  by (induction k s rule: quote_from.induct) auto

lemma drop_width: "drop (rune_width (c # s) - Suc 0) s = drop (rune_width (c # s)) (c # s)"
  using rune_width_pos [of "c # s"] by (cases "rune_width (c # s)") auto

lemma quote_from_step:
  "s \<noteq> [] \<Longrightarrow> quote_from 0 s = escape_rune s @ quote_from 0 (drop (rune_width s) s)"
  by (cases s) (simp_all add: quote_from_drop [of "_ - _"] drop_width)

lemma sanitize_Nil [simp]: "sanitize [] = []"
  by (simp add: sanitize_def runes_def)

lemma sanitize_step:
  "s \<noteq> [] \<Longrightarrow> sanitize s = encode_rune (fst (decode_rune s)) @ sanitize (drop (rune_width s) s)"
  by (cases s) (simp_all add: sanitize_def runes_def runes_from_drop [of "_ - _"] drop_width del: decode_rune.simps)

lemma rune_induct [case_names Nil step]:
  assumes "P []" and "\<And>s. s \<noteq> [] \<Longrightarrow> P (drop (rune_width s) s) \<Longrightarrow> P s"
  shows "P s"
proof (induction s rule: length_induct)
  case (1 s)
  show ?case
  proof (cases "s = []")
    case False
    then have "length (drop (rune_width s) s) < length s" using rune_width_pos [of s] by (cases s) auto
    then show ?thesis using 1 assms(2) False by blast
  qed (use assms(1) in simp)
qed

lemma decode_multi:
  assumes "decode_rune s = (r, w)" and "2 \<le> w"
  obtains (two) c b t where "s = c # b # t" "w = 2" "0xC2 \<le> ord c" "ord c \<le> 0xDF" "cont b"
      "r = (ord c - 0xC0) * 64 + (ord b - 0x80)"
    | (three) c b d t where "s = c # b # d # t" "w = 3" "0xE0 \<le> ord c" "ord c \<le> 0xEF"
      "(if ord c = 0xE0 then 0xA0 else 0x80) \<le> ord b" "ord b \<le> (if ord c = 0xED then 0x9F else 0xBF)" "cont d"
      "r = ((ord c - 0xE0) * 64 + (ord b - 0x80)) * 64 + (ord d - 0x80)"
    | (four) c b d e t where "s = c # b # d # e # t" "w = 4" "0xF0 \<le> ord c" "ord c \<le> 0xF4"
      "(if ord c = 0xF0 then 0x90 else 0x80) \<le> ord b" "ord b \<le> (if ord c = 0xF4 then 0x8F else 0xBF)"
      "cont d" "cont e"
      "r = (((ord c - 0xF0) * 64 + (ord b - 0x80)) * 64 + (ord d - 0x80)) * 64 + (ord e - 0x80)"
proof (cases s)
  case Nil
  then show thesis using assms by simp
next
  case (Cons c u)
  consider (a) "ord c < 0xC2 \<or> 0xF4 < ord c" | (b) "0xC2 \<le> ord c" "ord c \<le> 0xDF"
    | (c) "0xE0 \<le> ord c" "ord c \<le> 0xEF" | (d) "0xF0 \<le> ord c" "ord c \<le> 0xF4" by linarith
  then show thesis
  proof cases
    case a
    then show thesis using assms Cons by (auto simp: Let_def split: if_splits)
  next
    case b
    then have "\<not> ord c < 0x80" by simp
    then show thesis using assms Cons two b
      by (auto simp only: decode_rune.simps Let_def if_False if_True simp_thms split: if_splits list.splits)
  next
    case c
    then have "\<not> ord c < 0x80" "\<not> (0xC2 \<le> ord c \<and> ord c \<le> 0xDF)" by simp_all
    then show thesis using assms Cons three c
      by (auto simp only: decode_rune.simps Let_def if_False if_True simp_thms split: if_splits list.splits) auto
  next
    case d
    then have "\<not> ord c < 0x80" "\<not> (0xC2 \<le> ord c \<and> ord c \<le> 0xDF)" "\<not> (0xE0 \<le> ord c \<and> ord c \<le> 0xEF)"
      by simp_all
    then show thesis using assms Cons four d
      by (auto simp only: decode_rune.simps Let_def if_False if_True simp_thms split: if_splits list.splits) auto
  qed
qed

lemma decode_two:
  "0xC2 \<le> ord c \<Longrightarrow> ord c \<le> 0xDF \<Longrightarrow> cont b \<Longrightarrow>
    decode_rune (c # b # t) = ((ord c - 0xC0) * 64 + (ord b - 0x80), 2)"
  by (simp add: Let_def)

lemma decode_three:
  "0xE0 \<le> ord c \<Longrightarrow> ord c \<le> 0xEF \<Longrightarrow> (if ord c = 0xE0 then 0xA0 else 0x80) \<le> ord b \<Longrightarrow>
    ord b \<le> (if ord c = 0xED then 0x9F else 0xBF) \<Longrightarrow> cont d \<Longrightarrow>
    decode_rune (c # b # d # t) = (((ord c - 0xE0) * 64 + (ord b - 0x80)) * 64 + (ord d - 0x80), 3)"
  unfolding decode_rune.simps Let_def by simp

lemma decode_four:
  "0xF0 \<le> ord c \<Longrightarrow> ord c \<le> 0xF4 \<Longrightarrow> (if ord c = 0xF0 then 0x90 else 0x80) \<le> ord b \<Longrightarrow>
    ord b \<le> (if ord c = 0xF4 then 0x8F else 0xBF) \<Longrightarrow> cont d \<Longrightarrow> cont e \<Longrightarrow>
    decode_rune (c # b # d # e # t) =
      ((((ord c - 0xF0) * 64 + (ord b - 0x80)) * 64 + (ord d - 0x80)) * 64 + (ord e - 0x80), 4)"
  unfolding decode_rune.simps Let_def by simp

lemma decode_rune_prefix:
  assumes "decode_rune s = (r, w)" and "2 \<le> w"
  shows "decode_rune (take w s @ t) = (r, w)"
  using assms
proof (cases rule: decode_multi)
  case (two c b u)
  then show ?thesis using decode_two [of c b t] by (simp del: decode_rune.simps)
next
  case (three c b d u)
  then show ?thesis using decode_three [of c b d t] by (simp del: decode_rune.simps)
next
  case (four c b d e u)
  then show ?thesis using decode_four [of c b d e t] by (simp del: decode_rune.simps)
qed

lemma decode_rune_high:
  assumes "decode_rune (c # s) = (r, w)" and "0x80 \<le> ord c" and "\<not> (r = RuneError \<and> w = 1)"
  shows "2 \<le> w"
  using assms by (auto simp: Let_def split: if_splits list.splits)

section \<open>Strings survive printing and parsing\<close>

lemma hex_val_digit: "n < 16 \<Longrightarrow> hex_val (hex_digit n) = Some n"
  by (simp add: hex_val_def hex_digit_def)

lemma encode_rune_ascii: "ord c < 0x80 \<Longrightarrow> encode_rune (ord c) = [c]"
  by (simp add: encode_rune_def ord_def)

lemma unquote_u:
  assumes "hex4 s1 = Some (r, s2)" and "\<not> (0xD800 \<le> r \<and> r < 0xE000)"
  shows "unquote (BS # CHR ''u'' # s1) = map_option (map_prod ((@) (encode_rune r)) id) (unquote s2)"
proof -
  have "escape_rune_at r s2 = (r, s2)" by (simp only: escape_rune_at_def assms(2) if_False)
  then show ?thesis using assms(1) by (simp add: unquote.simps(2) del: hex4.simps)
qed

lemma unquote_escape_ascii:
  assumes "ord c < 0x80"
  shows "unquote (escape_ascii c @ t) = map_option (map_prod ((@) [c]) id) (unquote t)"
proof -
  consider (quoted) "c = DQ \<or> c = BS" | (letter) "c \<in> {CHR 0x08, CHR 0x0C, CHR 0x0A, CHR 0x0D, CHR 0x09}"
    | (hex) "c \<noteq> DQ" "c \<noteq> BS" "c \<notin> {CHR 0x08, CHR 0x0C, CHR 0x0A, CHR 0x0D, CHR 0x09}"
        "ord c < 0x20 \<or> c = CHR ''<'' \<or> c = CHR ''>'' \<or> c = CHR ''&''"
    | (plain) "c \<noteq> DQ" "c \<noteq> BS" "c \<notin> {CHR 0x08, CHR 0x0C, CHR 0x0A, CHR 0x0D, CHR 0x09}"
        "\<not> (ord c < 0x20 \<or> c = CHR ''<'' \<or> c = CHR ''>'' \<or> c = CHR ''&'')" by blast
  then show ?thesis
  proof cases
    case hex
    define h where "h = CHR ''0'' # CHR ''0'' # hex_digit (ord c div 16) # hex_digit (ord c mod 16) # t"
    have "hex_val CHR ''0'' = Some 0" by (simp add: hex_val_def)
    then have "hex4 h = Some (ord c, t)"
      using assms hex_val_digit [of "ord c div 16"] hex_val_digit [of "ord c mod 16"]
      by (simp add: h_def div_mult_mod_eq)
    then have "unquote (BS # CHR ''u'' # h) = map_option (map_prod ((@) [c]) id) (unquote t)"
      using assms encode_rune_ascii [OF assms] unquote_u [of h "ord c" t] by simp
    moreover have "escape_ascii c @ t = BS # CHR ''u'' # h"
      using hex by (simp add: escape_ascii_def h_def)
    ultimately show ?thesis by simp
  next
    case plain
    then have "escape_ascii c = [c]" by (simp add: escape_ascii_def)
    moreover have "decode_rune (c # t) = (ord c, 1)" using assms by simp
    ultimately show ?thesis
      using plain encode_rune_ascii [OF assms] by (simp add: unquote.simps(2) del: decode_rune.simps)
  qed (auto simp: escape_ascii_def unquote.simps(2) simple_escape_def map_prod_def)
qed

lemma unquote_escape:
  assumes "s \<noteq> []"
  shows "unquote (escape_rune s @ t) =
    map_option (map_prod ((@) (encode_rune (fst (decode_rune s)))) id) (unquote t)"
proof -
  obtain c u where s: "s = c # u" using assms by (cases s) auto
  obtain r w where d: "decode_rune s = (r, w)" by fastforce
  show ?thesis
  proof (cases "ord c < 0x80")
    case True
    then show ?thesis
      using unquote_escape_ascii [OF True] by (simp add: s escape_rune_def encode_rune_ascii)
  next
    case False
    consider (bad) "r = RuneError \<and> w = 1" | (ls) "\<not> (r = RuneError \<and> w = 1)" "r = 0x2028"
      | (ps) "\<not> (r = RuneError \<and> w = 1)" "r = 0x2029"
      | (plain) "\<not> (r = RuneError \<and> w = 1)" "r \<noteq> 0x2028" "r \<noteq> 0x2029" by blast
    then show ?thesis
    proof cases
      case bad
      have "hex4 (''fffd'' @ t) = Some (RuneError, t)" by (simp add: hex_val_def RuneError_def)
      then have "unquote (BS # CHR ''u'' # ''fffd'' @ t) =
          map_option (map_prod ((@) (encode_rune RuneError)) id) (unquote t)"
        by (rule unquote_u) (simp add: RuneError_def)
      then show ?thesis using bad d False by (simp add: escape_rune_def s)
    next
      case ls
      have "hex4 (''2028'' @ t) = Some (0x2028, t)" by (simp add: hex_val_def)
      then have "unquote (BS # CHR ''u'' # ''2028'' @ t) =
          map_option (map_prod ((@) (encode_rune 0x2028)) id) (unquote t)"
        by (rule unquote_u) simp
      then show ?thesis using ls d False by (simp add: escape_rune_def s RuneError_def)
    next
      case ps
      have "hex4 (''2029'' @ t) = Some (0x2029, t)" by (simp add: hex_val_def)
      then have "unquote (BS # CHR ''u'' # ''2029'' @ t) =
          map_option (map_prod ((@) (encode_rune 0x2029)) id) (unquote t)"
        by (rule unquote_u) simp
      then show ?thesis using ps d False by (simp add: escape_rune_def s RuneError_def)
    next
      case plain
      then have w: "2 \<le> w" using decode_rune_high [of c u r w] d False s by auto
      then have tk: "take w s = c # take (w - 1) u" by (cases w) (simp_all add: s)
      have wl: "w \<le> length s" using d w by (cases rule: decode_multi) auto
      have pre: "decode_rune (c # take (w - 1) u @ t) = (r, w)"
        using decode_rune_prefix [OF d w, of t] tk by simp
      have "unquote (take w s @ t) = unquote (c # take (w - 1) u @ t)" by (simp add: tk)
      also have "\<dots> = map_option (map_prod ((@) (encode_rune r)) id) (unquote (drop (w - 1) (take (w - 1) u @ t)))"
        using False pre by (subst unquote.simps(2)) (auto simp: DQ_def simp del: decode_rune.simps)
      also have "drop (w - 1) (take (w - 1) u @ t) = t" using wl s by simp
      finally have "unquote (take w s @ t) = map_option (map_prod ((@) (encode_rune r)) id) (unquote t)" .
      moreover have "escape_rune s = take w s"
        using plain d False s by (auto simp: escape_rune_def simp del: decode_rune.simps)
      ultimately show ?thesis using d by (simp only: fst_conv)
    qed
  qed
qed

lemma unquote_quote_from: "unquote (quote_from 0 s @ DQ # rest) = Some (sanitize s, rest)"
proof (induction s rule: rune_induct)
  case Nil
  then show ?case by (simp add: unquote.simps(2))
next
  case (step s)
  then show ?case
    using unquote_escape [OF step(1)] by (simp add: quote_from_step sanitize_step)
qed

lemma sanitize_ascii: "ascii s \<Longrightarrow> sanitize s = s"
proof (induction s)
  case (Cons c s)
  then show ?case
    using sanitize_step [of "c # s"] by (simp add: rune_width_def encode_rune_ascii)
qed simp

end
