(* ===== verification/JSON_Roundtrip.thy ===== *)
theory JSON_Roundtrip
  imports Go_JSON
begin

text \<open>
  The printer and the parser of \<open>Go_JSON\<close> fit together: a printed value parses back to itself,
  up to the replacement of ill-formed UTF-8 in its strings.
\<close>

section \<open>The tokens of a printed value\<close>

primrec sanitized :: "json \<Rightarrow> json" where
  "sanitized JNull = JNull"
| "sanitized (JBool b) = JBool b"
| "sanitized (JNum n) = JNum n"
| "sanitized (JStr s) = JStr (sanitize s)"
| "sanitized (JArr vs) = JArr (map sanitized vs)"
| "sanitized (JObj ms) = JObj (map (\<lambda>m. (sanitize (fst m), snd m)) (map (map_prod id sanitized) ms))"

primrec jtokens :: "json \<Rightarrow> jtoken list" where
  "jtokens JNull = [TLit JNull]"
| "jtokens (JBool b) = [TLit (JBool b)]"
| "jtokens (JNum n) = [TLit (JNum n)]"
| "jtokens (JStr s) = [TStr (sanitize s)]"
| "jtokens (JArr vs) = TArrOpen # join [TComma] (map jtokens vs) @ [TArrClose]"
| "jtokens (JObj ms) = TObjOpen # join [TComma]
     (map (\<lambda>m. TStr (sanitize (fst m)) # TColon # snd m) (map (map_prod id jtokens) ms)) @ [TObjClose]"

primrec jdepth :: "json \<Rightarrow> nat" where
  "jdepth JNull = 0"
| "jdepth (JBool b) = 0"
| "jdepth (JNum n) = 0"
| "jdepth (JStr s) = 0"
| "jdepth (JArr vs) = Suc (fold max (map jdepth vs) 0)"
| "jdepth (JObj ms) = Suc (fold max (map snd (map (map_prod id jdepth) ms)) 0)"

definition num_ok :: "string \<Rightarrow> bool" where
  \<comment> \<open>a decimal literal of a natural number\<close>
  "num_ok n \<longleftrightarrow> n \<noteq> [] \<and> list_all isDigit n \<and> (hd n = CHR ''0'' \<longrightarrow> n = ''0'')"

primrec print_ok :: "json \<Rightarrow> bool" where
  "print_ok JNull = True"
| "print_ok (JBool b) = True"
| "print_ok (JNum n) = num_ok n"
| "print_ok (JStr s) = True"
| "print_ok (JArr vs) = list_all id (map print_ok vs)"
| "print_ok (JObj ms) = list_all id (map snd (map (map_prod id print_ok) ms))"

definition sep :: "string \<Rightarrow> bool" where
  \<comment> \<open>what may follow a value\<close>
  "sep rest \<longleftrightarrow> rest = [] \<or> hd rest \<in> {CHR '','', CHR '']'', CHR ''}''}"

lemma lex_token:
  assumes "s \<noteq> []" and "\<not> json_space (hd s)" and "scan_token s = Some (t, s2)"
  shows "lex_json s = map_option ((#) t) (lex_json s2)"
proof -
  have "dropWhile json_space s = s" using assms by (cases s) auto
  then show ?thesis using assms by (subst lex_json.simps) (cases s; simp)
qed

lemma lex_Nil [simp]: "lex_json [] = Some []"
  by (simp add: lex_json.simps)

lemma lex_punct [simp]:
  "lex_json (CHR ''['' # s) = map_option ((#) TArrOpen) (lex_json s)"
  "lex_json (CHR '']'' # s) = map_option ((#) TArrClose) (lex_json s)"
  "lex_json (CHR ''{'' # s) = map_option ((#) TObjOpen) (lex_json s)"
  "lex_json (CHR ''}'' # s) = map_option ((#) TObjClose) (lex_json s)"
  "lex_json (CHR '','' # s) = map_option ((#) TComma) (lex_json s)"
  "lex_json (CHR '':'' # s) = map_option ((#) TColon) (lex_json s)"
  by (rule lex_token; simp add: json_space_def scan_token_def)+

lemma lex_quote: "lex_json (quote s @ rest) = map_option ((#) (TStr (sanitize s))) (lex_json rest)"
  by (rule lex_token) (simp_all add: quote_def json_space_def scan_token_def unquote_quote_from [simplified])

lemma lex_words:
  "lex_json (''true'' @ s) = map_option ((#) (TLit (JBool True))) (lex_json s)"
  "lex_json (''false'' @ s) = map_option ((#) (TLit (JBool False))) (lex_json s)"
  "lex_json (''null'' @ s) = map_option ((#) (TLit JNull)) (lex_json s)"
  by (rule lex_token; simp add: json_space_def scan_token_def HasPrefix_def)+

lemma sep_not_digit: "sep rest \<Longrightarrow> takeWhile isDigit rest = [] \<and> dropWhile isDigit rest = rest"
  by (cases rest) (auto simp: sep_def isDigit_def)

lemma scan_number_literal:
  assumes "num_ok n" and "sep rest"
  shows "scan_number (n @ rest) = Some (n, rest)"
proof -
  have n: "n \<noteq> []" "list_all isDigit n" using assms(1) by (simp_all add: num_ok_def)
  then have h: "hd (n @ rest) \<noteq> CHR ''-''" by (cases n) (auto simp: isDigit_def)
  have frac: "scan_frac rest = Some ([], rest)" "scan_exp rest = Some ([], rest)"
    using assms(2) by (auto simp: scan_frac_def scan_exp_def sep_def split: list.splits)
  have "scan_int (n @ rest) = Some (n, rest)"
  proof (cases "hd n = CHR ''0''")
    case True
    then have "n = ''0''" using assms(1) by (simp add: num_ok_def)
    then show ?thesis by (simp add: scan_int_def)
  next
    case False
    have "takeWhile isDigit (n @ rest) = n" "dropWhile isDigit (n @ rest) = rest"
      using n sep_not_digit [OF assms(2)] by (simp_all add: list_all_iff takeWhile_append dropWhile_append)
    then have "scan_digits (n @ rest) = Some (n, rest)"
      unfolding scan_digits_def by (simp only:) (use n(1) in \<open>cases n; simp\<close>)
    then show ?thesis using False n(1) by (cases n) (simp_all add: scan_int_def)
  qed
  then show ?thesis using h frac by (simp add: scan_number_def)
qed

lemma lex_number:
  assumes "num_ok n" and "sep rest"
  shows "lex_json (n @ rest) = map_option ((#) (TLit (JNum n))) (lex_json rest)"
proof (rule lex_token)
  obtain c m where n: "n = c # m" "isDigit c" using assms(1) by (cases n) (auto simp: num_ok_def)
  then have c: "c \<notin> {CHR ''{'', CHR ''}'', CHR ''['', CHR '']'', CHR '':'', CHR '','', DQ, CHR ''t'', CHR ''f'', CHR ''n''}"
    by (auto simp: isDigit_def)
  show "n @ rest \<noteq> []" using n by simp
  show "\<not> json_space (hd (n @ rest))" using n by (auto simp: json_space_def isDigit_def)
  show "scan_token (n @ rest) = Some (TLit (JNum n), rest)"
    using c scan_number_literal [OF assms] unfolding n(1) by (simp add: scan_token_def HasPrefix_def)
qed

lemma sep_simps [simp]: "sep (CHR '','' # s)" "sep (CHR '']'' # s)" "sep (CHR ''}'' # s)" "sep []"
  by (simp_all add: sep_def)

lemma append_fun: "(@) [] = (\<lambda>ys. ys)" "(@) (x # xs) = (\<lambda>ys. x # xs @ ys)"
  by auto

lemma lex_join:
  assumes "\<And>x rest. x \<in> set xs \<Longrightarrow> sep rest \<Longrightarrow> lex_json (f x @ rest) = map_option ((@) (g x)) (lex_json rest)"
    and "sep rest"
  shows "lex_json (join '','' (map f xs) @ rest) = map_option ((@) (join [TComma] (map g xs))) (lex_json rest)"
  using assms
proof (induction xs rule: induct_list012)
  case (3 x y zs)
  have "lex_json (join '','' (map f (x # y # zs)) @ rest) =
      lex_json (f x @ CHR '','' # (join '','' (map f (y # zs)) @ rest))" by simp
  also have "\<dots> = map_option ((@) (g x)) (lex_json (CHR '','' # (join '','' (map f (y # zs)) @ rest)))"
    by (rule 3(3)) simp_all
  also have "lex_json (join '','' (map f (y # zs)) @ rest) = map_option ((@) (join [TComma] (map g (y # zs)))) (lex_json rest)"
    by (rule 3(2)) (use 3(3,4) in simp_all)
  then have "lex_json (CHR '','' # (join '','' (map f (y # zs)) @ rest)) =
      map_option ((#) TComma) (map_option ((@) (join [TComma] (map g (y # zs)))) (lex_json rest))" by simp
  finally show ?case by (simp add: option.map_comp comp_def)
qed (simp_all add: option.map_ident append_fun)

lemma lex_print: "print_ok v \<Longrightarrow> sep rest \<Longrightarrow> lex_json (print_json v @ rest) = map_option ((@) (jtokens v)) (lex_json rest)"
proof (induction v arbitrary: rest)
  case (JArr vs)
  have "lex_json (join '','' (map print_json vs) @ '']'' @ rest) =
      map_option ((@) (join [TComma] (map jtokens vs))) (lex_json ('']'' @ rest))"
    by (rule lex_join) (use JArr in \<open>auto simp: list_all_iff\<close>)
  then show ?case by (simp add: option.map_comp comp_def)
next
  case (JObj ms)
  let ?f = "\<lambda>m. quote (fst m) @ '':'' @ print_json (snd m)"
  let ?g = "\<lambda>m. TStr (sanitize (fst m)) # TColon # jtokens (snd m)"
  have "lex_json (join '','' (map ?f ms) @ ''}'' @ rest) = map_option ((@) (join [TComma] (map ?g ms))) (lex_json (''}'' @ rest))"
  proof (rule lex_join)
    fix m and r :: string assume m: "m \<in> set ms" "sep r"
    have "print_ok (snd m)" using JObj(2) m(1) by (auto simp: list_all_iff)
    then have "lex_json (print_json (snd m) @ r) = map_option ((@) (jtokens (snd m))) (lex_json r)"
      using JObj(1) [of m "snd m"] m by (cases m) auto
    then show "lex_json (?f m @ r) = map_option ((@) (?g m)) (lex_json r)"
      by (simp add: lex_quote option.map_comp comp_def append_fun)
  qed simp
  then show ?case by (simp add: comp_def option.map_comp map_prod_def split_beta)
qed (simp_all add: lex_words [simplified] lex_number lex_quote option.map_ident comp_def append_fun)

section \<open>Parsing the tokens\<close>

lemma json_run_append:
  "json_run st (ts @ us) = (case json_run st ts of None \<Rightarrow> None | Some st' \<Rightarrow> json_run st' us)"
  by (induction st ts rule: json_run.induct) (auto split: option.splits)

lemma jtokens_first: "\<exists>t ts. jtokens v = t # ts \<and> t \<noteq> TArrClose"
  by (cases v) auto

lemma run_first_element:
  "json_run (PFirst stk) (jtokens v @ ts) = json_run (PValue (FArr [] # stk)) (jtokens v @ ts)"
  using jtokens_first [of v] by auto

lemma fold_max_le: "fold max xs (n :: nat) \<le> m \<longleftrightarrow> n \<le> m \<and> (\<forall>x \<in> set xs. x \<le> m)"
  by (induction xs arbitrary: n) auto

definition runs :: "json \<Rightarrow> bool" where
  \<comment> \<open>the machine reads the tokens of the value wherever the nesting limit allows it\<close>
  "runs v \<longleftrightarrow> (\<forall>stk ts. length stk + jdepth v \<le> maxNestingDepth \<longrightarrow>
     json_run (PValue stk) (jtokens v @ ts) = json_run (PAfter stk (sanitized v)) ts)"

lemma runs_elements:
  assumes "vs \<noteq> []" and "\<And>v. v \<in> set vs \<Longrightarrow> runs v"
    and "\<And>v. v \<in> set vs \<Longrightarrow> Suc (length stk) + jdepth v \<le> maxNestingDepth"
  shows "json_run (PValue (FArr acc # stk)) (join [TComma] (map jtokens vs) @ TArrClose # ts) =
    json_run (PAfter stk (JArr (rev acc @ map sanitized vs))) ts"
  using assms
proof (induction vs arbitrary: acc rule: induct_list012)
  case (2 v)
  then have "runs v" "length (FArr acc # stk) + jdepth v \<le> maxNestingDepth" by simp_all
  then have "json_run (PValue (FArr acc # stk)) (jtokens v @ TArrClose # ts) =
      json_run (PAfter (FArr acc # stk) (sanitized v)) (TArrClose # ts)" unfolding runs_def by blast
  then show ?case by simp
next
  case (3 v w vs)
  let ?rest = "join [TComma] (map jtokens (w # vs)) @ TArrClose # ts"
  have "runs v" "length (FArr acc # stk) + jdepth v \<le> maxNestingDepth" using 3(4,5) by simp_all
  then have "json_run (PValue (FArr acc # stk)) (jtokens v @ TComma # ?rest) =
      json_run (PAfter (FArr acc # stk) (sanitized v)) (TComma # ?rest)" unfolding runs_def by blast
  also have "\<dots> = json_run (PValue (FArr (sanitized v # acc) # stk)) ?rest" by simp
  also have "\<dots> = json_run (PAfter stk (JArr (rev (sanitized v # acc) @ map sanitized (w # vs)))) ts"
    by (rule 3(2)) (use 3(4,5) in simp_all)
  finally show ?case by simp
qed simp

definition member_tokens :: "string \<times> json \<Rightarrow> jtoken list" where
  "member_tokens m = TStr (sanitize (fst m)) # TColon # jtokens (snd m)"

lemma run_member:
  assumes "st = (if acc = [] then PKeyFirst stk else PKey stk acc)"
  shows "json_run st (member_tokens m @ us) =
    json_run (PValue (FObj acc (sanitize (fst m)) # stk)) (jtokens (snd m) @ us)"
  using assms by (cases "acc = []") (simp_all add: member_tokens_def)

lemma runs_members:
  assumes "ms \<noteq> []" and "\<And>m. m \<in> set ms \<Longrightarrow> runs (snd m)"
    and "\<And>m. m \<in> set ms \<Longrightarrow> Suc (length stk) + jdepth (snd m) \<le> maxNestingDepth"
    and "st = (if acc = [] then PKeyFirst stk else PKey stk acc)"
  shows "json_run st (join [TComma] (map member_tokens ms) @ TObjClose # ts) =
    json_run (PAfter stk (JObj (rev acc @ map (\<lambda>m. (sanitize (fst m), sanitized (snd m))) ms))) ts"
  using assms
proof (induction ms arbitrary: acc st rule: induct_list012)
  case (2 m)
  let ?f = "FObj acc (sanitize (fst m))"
  have "runs (snd m)" "length (?f # stk) + jdepth (snd m) \<le> maxNestingDepth" using 2(2,3) by simp_all
  then have "json_run (PValue (?f # stk)) (jtokens (snd m) @ TObjClose # ts) =
      json_run (PAfter (?f # stk) (sanitized (snd m))) (TObjClose # ts)" unfolding runs_def by blast
  then show ?case using run_member [OF 2(4), of m] by simp
next
  case (3 m n ms)
  let ?f = "FObj acc (sanitize (fst m))"
  let ?rest = "join [TComma] (map member_tokens (n # ms)) @ TObjClose # ts"
  have "runs (snd m)" "length (?f # stk) + jdepth (snd m) \<le> maxNestingDepth" using 3(4,5) by simp_all
  then have "json_run (PValue (?f # stk)) (jtokens (snd m) @ TComma # ?rest) =
      json_run (PAfter (?f # stk) (sanitized (snd m))) (TComma # ?rest)" unfolding runs_def by blast
  also have "\<dots> = json_run (PKey stk ((sanitize (fst m), sanitized (snd m)) # acc)) ?rest" by simp
  also have "\<dots> = json_run (PAfter stk (JObj (rev ((sanitize (fst m), sanitized (snd m)) # acc) @
      map (\<lambda>m. (sanitize (fst m), sanitized (snd m))) (n # ms)))) ts"
    by (rule 3(2)) (use 3(4,5) in simp_all)
  finally show ?case using run_member [OF 3(6), of m] by simp
qed simp

lemma runs_json: "runs v"
proof (induction v)
  case (JArr vs)
  show ?case
    unfolding runs_def
  proof (intro allI impI)
    fix stk :: "jframe list" and ts assume d: "length stk + jdepth (JArr vs) \<le> maxNestingDepth"
    then have lt: "length stk < maxNestingDepth" by simp
    have dv: "Suc (length stk) + jdepth v \<le> maxNestingDepth" if "v \<in> set vs" for v
      using d that fold_max_le [of "map jdepth vs" 0 "fold max (map jdepth vs) 0"] by fastforce
    show "json_run (PValue stk) (jtokens (JArr vs) @ ts) = json_run (PAfter stk (sanitized (JArr vs))) ts"
    proof (cases vs)
      case Nil
      then show ?thesis using lt by (simp add: begin_value_def)
    next
      case (Cons v ws)
      have j: "\<exists>us. join [TComma] (map jtokens vs) = jtokens v @ us"
        unfolding Cons by (cases ws) auto
      then obtain us where us: "join [TComma] (map jtokens vs) = jtokens v @ us" by blast
      have "json_run (PValue stk) (jtokens (JArr vs) @ ts) =
          json_run (PFirst stk) (jtokens v @ us @ TArrClose # ts)"
        using lt us by (simp add: begin_value_def)
      also have "\<dots> = json_run (PValue (FArr [] # stk)) (join [TComma] (map jtokens vs) @ TArrClose # ts)"
        unfolding us by (simp add: run_first_element)
      also have "\<dots> = json_run (PAfter stk (JArr (rev [] @ map sanitized vs))) ts"
        by (rule runs_elements) (use JArr dv Cons in auto)
      finally show ?thesis by simp
    qed
  qed
next
  case (JObj ms)
  show ?case
    unfolding runs_def
  proof (intro allI impI)
    fix stk :: "jframe list" and ts assume d: "length stk + jdepth (JObj ms) \<le> maxNestingDepth"
    then have lt: "length stk < maxNestingDepth" by simp
    have dv: "Suc (length stk) + jdepth (snd m) \<le> maxNestingDepth" if "m \<in> set ms" for m
      using d that fold_max_le [of "map (jdepth \<circ> snd) ms" 0 "fold max (map (jdepth \<circ> snd) ms) 0"]
      by (fastforce simp: comp_def)
    have tk: "jtokens (JObj ms) = TObjOpen # join [TComma] (map member_tokens ms) @ [TObjClose]"
      and sn: "sanitized (JObj ms) = JObj (map (\<lambda>m. (sanitize (fst m), sanitized (snd m))) ms)"
      by (simp_all add: member_tokens_def [abs_def] comp_def)
    show "json_run (PValue stk) (jtokens (JObj ms) @ ts) = json_run (PAfter stk (sanitized (JObj ms))) ts"
    proof (cases "ms = []")
      case True
      then show ?thesis using lt by (simp add: begin_value_def)
    next
      case False
      have "json_run (PValue stk) (jtokens (JObj ms) @ ts) =
          json_run (PKeyFirst stk) (join [TComma] (map member_tokens ms) @ TObjClose # ts)"
        unfolding tk using lt by (simp add: begin_value_def)
      also have "\<dots> = json_run (PAfter stk (JObj (rev [] @ map (\<lambda>m. (sanitize (fst m), sanitized (snd m))) ms))) ts"
        by (rule runs_members) (use JObj dv False in \<open>auto simp: snds.simps intro: snds.intros\<close>)
      finally show ?thesis unfolding sn by simp
    qed
  qed
qed (simp_all add: runs_def begin_value_def)

lemma parse_print:
  assumes "print_ok v" and "jdepth v \<le> maxNestingDepth"
  shows "parse_json (print_json v) = Some (sanitized v)"
proof -
  have "lex_json (print_json v) = Some (jtokens v)"
    using lex_print [OF assms(1), of "[]"] by simp
  moreover have "json_run (PValue []) (jtokens v) = Some (PAfter [] (sanitized v))"
    using runs_json [of v, unfolded runs_def, rule_format, of "[]" "[]"] assms(2) by simp
  ultimately show ?thesis by (simp add: parse_json_def)
qed

section \<open>Well-formed UTF-8\<close>

definition norm_rune :: "nat \<Rightarrow> nat" where
  "norm_rune r = (if r > 0x10FFFF \<or> 0xD800 \<le> r \<and> r \<le> 0xDFFF then RuneError else r)"

lemma norm_rune_idem [simp]: "norm_rune (norm_rune r) = norm_rune r"
  by (simp add: norm_rune_def RuneError_def)

lemma encode_norm [simp]: "encode_rune (norm_rune r) = encode_rune r"
  by (simp add: encode_rune_def norm_rune_def RuneError_def)

lemma cont_char: "n < 64 \<Longrightarrow> cont (char_of (0x80 + n :: nat))"
  by (simp add: cont_def)

lemma decode_encode:
  "decode_rune (encode_rune r @ t) = (norm_rune r, length (encode_rune r)) \<and> encode_rune r \<noteq> []"
proof -
  define k where "k = norm_rune r"
  have k: "k \<le> 0x10FFFF" "\<not> (0xD800 \<le> k \<and> k \<le> 0xDFFF)" "norm_rune k = k" and e: "encode_rune r = encode_rune k"
    by (auto simp: k_def norm_rune_def RuneError_def encode_rune_def)
  have "decode_rune (encode_rune k @ t) = (k, length (encode_rune k)) \<and> encode_rune k \<noteq> []"
  proof -
    consider (one) "k < 0x80" | (two) "0x80 \<le> k" "k < 0x800" | (three) "0x800 \<le> k" "k < 0x10000"
      | (four) "0x10000 \<le> k" by linarith
    then show ?thesis
    proof cases
      case one
      then have "encode_rune k = [char_of k]" by (simp add: encode_rune_def)
      then show ?thesis using one by simp
    next
      case two
      then have "encode_rune k = [char_of (0xC0 + k div 64), char_of (0x80 + k mod 64)]"
        by (simp add: encode_rune_def)
      moreover have "0xC0 + k div 64 \<le> 0xDF" "0xC2 \<le> 0xC0 + k div 64" using two by auto
      moreover have "k div 64 * 64 + k mod 64 = k" by simp
      ultimately show ?thesis
        using decode_two [of "char_of (0xC0 + k div 64)" "char_of (0x80 + k mod 64)" t] cont_char [of "k mod 64"]
        by (simp del: decode_rune.simps)
    next
      case three
      define a b c where "a = k div 4096" and "b = k div 64 mod 64" and "c = k mod 64"
      have abc: "k = (a * 64 + b) * 64 + c" "b < 64" "c < 64" "a < 16"
        using three by (auto simp: a_def b_def c_def div_mult2_eq [of k 64 64, simplified])
      have enc: "encode_rune k = [char_of (0xE0 + a), char_of (0x80 + b), char_of (0x80 + c)]"
        using three k(2) unfolding a_def b_def c_def encode_rune_def by auto
      have lo: "(if 0xE0 + a = 0xE0 then 0xA0 else 0x80) \<le> 0x80 + b"
        and hi: "0x80 + b \<le> (if 0xE0 + a = 0xED then 0x9F else 0xBF)"
        using abc three k(2) by auto
      show ?thesis
        using decode_three [of "char_of (0xE0 + a)" "char_of (0x80 + b)" "char_of (0x80 + c)" t]
          cont_char [OF abc(3)] lo hi abc enc by (simp del: decode_rune.simps)
    next
      case four
      define a b c d where "a = k div 262144" and "b = k div 4096 mod 64" and "c = k div 64 mod 64"
        and "d = k mod 64"
      have abc: "k = ((a * 64 + b) * 64 + c) * 64 + d" "b < 64" "c < 64" "d < 64" "a \<le> 4"
        using k(1) by (auto simp: a_def b_def c_def d_def div_mult2_eq [of k 64 64, simplified]
            div_mult2_eq [of k 4096 64, simplified])
      have enc: "encode_rune k =
          [char_of (0xF0 + a), char_of (0x80 + b), char_of (0x80 + c), char_of (0x80 + d)]"
        using four k unfolding a_def b_def c_def d_def encode_rune_def by auto
      have lo: "(if 0xF0 + a = 0xF0 then 0x90 else 0x80) \<le> 0x80 + b"
        and hi: "0x80 + b \<le> (if 0xF0 + a = 0xF4 then 0x8F else 0xBF)"
        using abc four k(1) by auto
      show ?thesis
        using decode_four [of "char_of (0xF0 + a)" "char_of (0x80 + b)" "char_of (0x80 + c)" "char_of (0x80 + d)" t]
          cont_char [OF abc(3)] cont_char [OF abc(4)] lo hi abc enc by (simp del: decode_rune.simps)
    qed
  qed
  then show ?thesis unfolding e k_def [symmetric] .
qed

lemma sanitize_encode: "sanitize (encode_rune r @ t) = encode_rune r @ sanitize t"
proof -
  note d = decode_encode [of r t]
  have "encode_rune r @ t \<noteq> []" using d by simp
  from sanitize_step [OF this] show ?thesis using d by (simp add: rune_width_def)
qed

lemma sanitize_idem [simp]: "sanitize (sanitize s) = sanitize s"
  by (induction s rule: rune_induct) (simp_all add: sanitize_step sanitize_encode)

definition valid_utf8 :: "string \<Rightarrow> bool" where
  "valid_utf8 s \<longleftrightarrow> sanitize s = s"

lemma valid_utf8_sanitize [simp]: "valid_utf8 (sanitize s)"
  by (simp add: valid_utf8_def)

lemma sanitize_append_valid: "sanitize (sanitize s @ t) = sanitize s @ sanitize t"
  by (induction s rule: rune_induct) (simp_all add: sanitize_step [of "_ :: string"] sanitize_encode)

section \<open>Parsed strings are well-formed\<close>

lemma valid_utf8_Nil [simp]: "valid_utf8 []"
  by (simp add: valid_utf8_def)

lemma valid_utf8_encode: "valid_utf8 x \<Longrightarrow> valid_utf8 (encode_rune r @ x)"
  by (simp add: valid_utf8_def sanitize_encode)

lemma valid_utf8_ascii_Cons: "ord c < 0x80 \<Longrightarrow> valid_utf8 x \<Longrightarrow> valid_utf8 (c # x)"
  using valid_utf8_encode [of x "ord c"] by (simp add: encode_rune_ascii)

lemma valid_utf8_ascii: "ascii s \<Longrightarrow> valid_utf8 s"
  by (simp add: valid_utf8_def sanitize_ascii)

lemma simple_escape_ascii: "simple_escape e = Some d \<Longrightarrow> ord d < 0x80"
  by (auto simp: simple_escape_def split: if_splits)

lemma unquote_valid: "unquote s = Some (x, rest) \<Longrightarrow> valid_utf8 x"
proof (induction s arbitrary: x rest rule: length_induct)
  case (1 s)
  have IH: "valid_utf8 x" if "unquote u = Some (x, r)" "length u < length s" for u x r
    using 1(1) that by blast
  show ?case
  proof (cases s)
    case Nil
    then show ?thesis using 1(2) by simp
  next
    case (Cons c u)
    consider "c = DQ" | (esc) "c \<noteq> DQ" "c = BS" | (rune) "c \<noteq> DQ" "c \<noteq> BS" by blast
    then show ?thesis
    proof cases
      case esc
      then obtain e s1 where u: "u = e # s1"
        using 1(2) Cons by (cases u) (auto simp: unquote.simps(2))
      show ?thesis
      proof (cases "e = CHR ''u''")
        case True
        then obtain r s2 where r: "hex4 s1 = Some (r, s2)"
          using 1(2) Cons u esc by (auto simp: unquote.simps(2) split: option.splits)
        obtain r' s3 where r': "escape_rune_at r s2 = (r', s3)" by fastforce
        have l: "length s3 < length s"
          using hex4_length [OF r] escape_rune_at_length [of r s2] r' Cons u by simp
        obtain y where "unquote s3 = Some (y, rest)" "x = encode_rune r' @ y"
          using 1(2) Cons u esc True r r' by (auto simp: unquote.simps(2))
        then show ?thesis using IH [of s3 y rest] l valid_utf8_encode by simp
      next
        case False
        then obtain y d where "unquote s1 = Some (y, rest)" "simple_escape e = Some d" "x = d # y"
          using 1(2) Cons u esc by (auto simp: unquote.simps(2) split: option.splits)
        then show ?thesis
          using IH [of s1 y rest] Cons u valid_utf8_ascii_Cons simple_escape_ascii by simp
      qed
    next
      case rune
      then obtain y where "unquote (drop (snd (decode_rune s) - 1) u) = Some (y, rest)"
        "x = encode_rune (fst (decode_rune s)) @ y"
        using 1(2) Cons
        by (auto simp: unquote.simps(2) split_beta simp del: decode_rune.simps split: if_splits)
      then show ?thesis
        using IH [of "drop (snd (decode_rune s) - 1) u" y rest] Cons valid_utf8_encode by simp
    qed (use 1(2) Cons in \<open>simp add: unquote.simps(2)\<close>)
  qed
qed

primrec json_valid :: "json \<Rightarrow> bool" where
  \<comment> \<open>every string and key is well-formed UTF-8\<close>
  "json_valid JNull = True"
| "json_valid (JBool b) = True"
| "json_valid (JNum n) = True"
| "json_valid (JStr s) = valid_utf8 s"
| "json_valid (JArr vs) = list_all id (map json_valid vs)"
| "json_valid (JObj ms) = list_all (\<lambda>m. valid_utf8 (fst m) \<and> snd m) (map (map_prod id json_valid) ms)"

definition token_valid :: "jtoken \<Rightarrow> bool" where
  "token_valid t \<longleftrightarrow> (case t of TStr s \<Rightarrow> valid_utf8 s | TLit v \<Rightarrow> json_valid v | _ \<Rightarrow> True)"

lemma scan_token_valid: "scan_token s = Some (t, s') \<Longrightarrow> token_valid t"
  by (auto simp: scan_token_def Let_def token_valid_def dest: unquote_valid split: if_splits)

lemma lex_json_valid: "lex_json s = Some ts \<Longrightarrow> list_all token_valid ts"
proof (induction s arbitrary: ts rule: lex_json.induct)
  case (1 s)
  show ?case
  proof (cases "dropWhile json_space s")
    case Nil
    have "lex_json s = Some []" by (subst lex_json.simps) (simp only: Nil list.case)
    then show ?thesis using 1(2) by simp
  next
    case (Cons c u)
    then obtain t s2 us where "scan_token (c # u) = Some (t, s2)" "lex_json s2 = Some us" "ts = t # us"
      using 1(2) by (subst (asm) lex_json.simps) (auto split: option.splits)
    then show ?thesis using 1(1) [OF Cons, of "(t, s2)" t s2] scan_token_valid by simp
  qed
qed

definition members_valid :: "(string \<times> json) list \<Rightarrow> bool" where
  "members_valid ms \<longleftrightarrow> list_all (\<lambda>m. valid_utf8 (fst m) \<and> json_valid (snd m)) ms"

fun frame_valid :: "jframe \<Rightarrow> bool" where
  "frame_valid (FArr vs) = list_all json_valid vs"
| "frame_valid (FObj ms k) = (members_valid ms \<and> valid_utf8 k)"

fun state_valid :: "jstate \<Rightarrow> bool" where
  "state_valid (PValue stk) = list_all frame_valid stk"
| "state_valid (PFirst stk) = list_all frame_valid stk"
| "state_valid (PKeyFirst stk) = list_all frame_valid stk"
| "state_valid (PKey stk ms) = (list_all frame_valid stk \<and> members_valid ms)"
| "state_valid (PColon stk ms k) = (list_all frame_valid stk \<and> members_valid ms \<and> valid_utf8 k)"
| "state_valid (PAfter stk v) = (list_all frame_valid stk \<and> json_valid v)"

lemma begin_value_valid:
  "begin_value stk t = Some st \<Longrightarrow> token_valid t \<Longrightarrow> list_all frame_valid stk \<Longrightarrow> state_valid st"
  by (auto simp: begin_value_def token_valid_def split: jtoken.splits if_splits)

lemma json_step_valid:
  "json_step st t = Some st' \<Longrightarrow> token_valid t \<Longrightarrow> state_valid st \<Longrightarrow> state_valid st'"
proof (induction st t rule: json_step.induct)
  case (1 stk t)
  then show ?case using begin_value_valid by simp
next
  case (2 stk t)
  then show ?case using begin_value_valid [of "FArr [] # stk" t st'] by (auto split: if_splits)
qed (auto simp: token_valid_def members_valid_def list_all_iff split: if_splits jtoken.splits)

lemma json_run_valid:
  "json_run st ts = Some st' \<Longrightarrow> list_all token_valid ts \<Longrightarrow> state_valid st \<Longrightarrow> state_valid st'"
  by (induction st ts rule: json_run.induct) (auto split: option.splits dest: json_step_valid)

lemma parse_json_valid: "parse_json s = Some v \<Longrightarrow> json_valid v"
proof -
  assume "parse_json s = Some v"
  then obtain ts where "lex_json s = Some ts" "json_run (PValue []) ts = Some (PAfter [] v)"
    by (auto simp: parse_json_def split: option.splits jstate.splits list.splits)
  then show ?thesis using json_run_valid [of "PValue []" ts "PAfter [] v"] lex_json_valid by simp
qed

end
