(* ===== verification/Learned_Store.thy ===== *)
theory Learned_Store
  imports Apt_Parser JSON_Roundtrip "HOL-Library.AList" "HOL-Library.Multiset"
begin

text \<open>
  The learned-package store of \<open>server-go/modules/sandbox/sandbox.go\<close>: \<open>NewStore\<close>, \<open>read\<close>,
  \<open>Load\<close> and \<open>Record\<close>, over a file system that maps paths to contents. What the operating
  system answers to the calls of one operation is a record of outcomes, so every error path
  is a value. The store's mutex makes its operations atomic with respect to each other; each
  is one function of the file system.

  A Go map is an association list with distinct keys, \<open>None\<close> for the nil map; a Go slice of
  strings inside it is a list, \<open>None\<close> for the nil slice (they differ when they are printed).
\<close>

section \<open>Paths\<close>

fun clean_components :: "bool \<Rightarrow> string list \<Rightarrow> string list \<Rightarrow> string list" where
  "clean_components rooted out [] = rev out"
| "clean_components rooted out (c # cs) =
    (if c = [] \<or> c = ''.'' then clean_components rooted out cs
     else if c = ''..'' then
       (if out \<noteq> [] \<and> hd out \<noteq> ''..'' then clean_components rooted (tl out) cs
        else if rooted then clean_components rooted out cs
        else clean_components rooted (c # out) cs)
     else clean_components rooted (c # out) cs)"

definition path_Clean :: "string \<Rightarrow> string" where
  \<comment> \<open>\<open>filepath.Clean\<close> on Unix\<close>
  "path_Clean path =
    (if path = [] then ''.''
     else
       let rooted = (hd path = CHR ''/'');
           body = join ''/'' (clean_components rooted [] (Split path CHR ''/''))
       in if rooted then CHR ''/'' # body else if body = [] then ''.'' else body)"

definition path_Join :: "string \<Rightarrow> string \<Rightarrow> string" where
  \<comment> \<open>\<open>filepath.Join\<close> of two elements\<close>
  "path_Join a b = (if a = [] then if b = [] then [] else path_Clean b else path_Clean (a @ ''/'' @ b))"

definition path_Dir :: "string \<Rightarrow> string" where
  "path_Dir path =
    path_Clean (case LastIndexByte path CHR ''/'' of None \<Rightarrow> [] | Some i \<Rightarrow> take (i + 1) path)"

section \<open>The document\<close>

definition storeName :: string where "storeName = ''sandbox-learned.json''"
definition maxStoreBytes :: nat where "maxStoreBytes = 1048576"

type_synonym doc = "(string \<times> string list option) list"

fun decode_strings :: "json list \<Rightarrow> string list option" where
  \<comment> \<open>the elements of an array into a \<open>[]string\<close>; a \<open>null\<close> leaves the zero value\<close>
  "decode_strings [] = Some []"
| "decode_strings (v # vs) =
    (case v of
       JStr s \<Rightarrow> map_option ((#) s) (decode_strings vs)
     | JNull \<Rightarrow> map_option ((#) []) (decode_strings vs)
     | _ \<Rightarrow> None)"

definition decode_slice :: "json \<Rightarrow> string list option option" where
  "decode_slice v =
    (case v of
       JNull \<Rightarrow> Some None
     | JArr vs \<Rightarrow> map_option Some (decode_strings vs)
     | _ \<Rightarrow> None)"

fun decode_members :: "(string \<times> json) list \<Rightarrow> doc \<Rightarrow> doc option" where
  "decode_members [] doc = Some doc"
| "decode_members ((k, v) # ms) doc =
    (case decode_slice v of None \<Rightarrow> None | Some xs \<Rightarrow> decode_members ms (AList.update k xs doc))"

definition Unmarshal_doc :: "string \<Rightarrow> doc option option" where
  \<comment> \<open>\<open>json.Unmarshal(raw, &doc)\<close> into an empty map: \<open>None\<close> on an error, \<open>Some None\<close> for the nil map\<close>
  "Unmarshal_doc raw =
    (case parse_json raw of
       Some JNull \<Rightarrow> Some None
     | Some (JObj ms) \<Rightarrow> map_option Some (decode_members ms [])
     | _ \<Rightarrow> None)"

definition slice_json :: "string list option \<Rightarrow> json" where
  "slice_json xs = (case xs of None \<Rightarrow> JNull | Some l \<Rightarrow> JArr (map JStr l))"

definition doc_json :: "doc \<Rightarrow> json" where
  \<comment> \<open>maps are printed in the order of their keys\<close>
  "doc_json doc = JObj (map (\<lambda>(k, xs). (k, slice_json xs)) (sort_key fst doc))"

definition Marshal_doc :: "doc \<Rightarrow> string" where
  "Marshal_doc doc = print_json (doc_json doc)"

definition doc_get :: "doc option \<Rightarrow> string \<Rightarrow> string list" where
  \<comment> \<open>\<open>doc[key]\<close>, the empty list for the nil slice\<close>
  "doc_get doc key =
    (case doc of None \<Rightarrow> [] | Some d \<Rightarrow> (case map_of d key of Some (Some l) \<Rightarrow> l | _ \<Rightarrow> []))"

section \<open>The store\<close>

record store =
  store_path :: string

type_synonym files = "string \<rightharpoonup> string"

record os_outcome =
  stat_ok :: bool
  read_ok :: bool
  temp_suffix :: "string option"   \<comment> \<open>the random part \<open>os.CreateTemp\<close> chose; \<open>None\<close> if it failed\<close>
  write_failed :: "nat option"     \<comment> \<open>the bytes written before the error, if there was one\<close>
  close_ok :: bool
  rename_ok :: bool
  remove_ok :: bool

definition NewStore :: "string \<Rightarrow> store option" where
  "NewStore home =
    (if TrimSpace home = [] then None else Some \<lparr>store_path = path_Join home storeName\<rparr>)"

definition store_read :: "store \<Rightarrow> os_outcome \<Rightarrow> files \<Rightarrow> doc option" where
  "store_read s os fs =
    (case (if stat_ok os then fs (store_path s) else None) of
       None \<Rightarrow> Some []
     | Some raw \<Rightarrow>
        if length raw \<le> 0 \<or> length raw > maxStoreBytes then Some []
        else if \<not> read_ok os then Some []
        else case Unmarshal_doc raw of None \<Rightarrow> Some [] | Some doc \<Rightarrow> doc)"

fun load_names :: "nat \<Rightarrow> string list \<Rightarrow> string list \<Rightarrow> string list" where
  "load_names max_names out [] = out"
| "load_names max_names out (name # names) =
    (if length out \<ge> max_names then out
     else load_names max_names (if packageValid name then out @ [name] else out) names)"

definition store_Load :: "store \<Rightarrow> os_outcome \<Rightarrow> files \<Rightarrow> string \<Rightarrow> int \<Rightarrow> string list" where
  "store_Load s os fs gitRoot max_names =
    (if gitRoot = [] \<or> max_names \<le> 0 then []
     else sort (load_names (nat max_names) [] (doc_get (store_read s os fs) gitRoot)))"

fun record_names :: "string list \<Rightarrow> string list \<Rightarrow> nat \<Rightarrow> string list \<times> nat" where
  "record_names [] existing added = (existing, added)"
| "record_names (name # names) existing added =
    (if \<not> packageValid name then record_names names existing added
     else if length existing \<ge> LearnMax then (existing, added)
     else if contains existing name then record_names names existing added
     else record_names names (existing @ [name]) (added + 1))"

definition temp_path :: "store \<Rightarrow> string \<Rightarrow> string" where
  "temp_path s random =
    (let dir = path_Dir (store_path s); name = storeName @ ''.tmp.'' @ random
     in if last dir = CHR ''/'' then dir @ name else dir @ ''/'' @ name)"

definition remove_file :: "os_outcome \<Rightarrow> string \<Rightarrow> files \<Rightarrow> files" where
  "remove_file os path fs = (if remove_ok os then fs(path := None) else fs)"

definition write_store :: "store \<Rightarrow> os_outcome \<Rightarrow> files \<Rightarrow> string \<Rightarrow> bool \<times> files" where
  \<comment> \<open>unique temporary file and rename: whether it succeeded, and the files\<close>
  "write_store s os fs encoded =
    (case temp_suffix os of
       None \<Rightarrow> (False, fs)
     | Some random \<Rightarrow>
        let temp = temp_path s random
        in if fs temp \<noteq> None then (False, fs)   \<comment> \<open>the file is created exclusively\<close>
           else case write_failed os of
             Some n \<Rightarrow> (False, remove_file os temp (fs(temp \<mapsto> take n encoded)))
           | None \<Rightarrow>
              let fs = fs(temp \<mapsto> encoded)
              in if \<not> close_ok os then (False, remove_file os temp fs)
                 else if \<not> rename_ok os then (False, remove_file os temp fs)
                 else (True, (fs(temp := None))(store_path s \<mapsto> encoded)))"

datatype record_result = Recorded nat | RecordFailed

definition store_Record :: "store \<Rightarrow> os_outcome \<Rightarrow> files \<Rightarrow> string \<Rightarrow> string list \<Rightarrow>
    (record_result \<times> files) option" where
  \<comment> \<open>\<open>None\<close>: the assignment to an entry of the nil map panics\<close>
  "store_Record s os fs gitRoot pkgs =
    (if gitRoot = [] \<or> length pkgs = 0 then Some (Recorded 0, fs)
     else
       let doc = store_read s os fs;
           (existing, added) = record_names pkgs (doc_get doc gitRoot) 0
       in if added = 0 then Some (Recorded 0, fs)
          else case doc of
            None \<Rightarrow> None
          | Some d \<Rightarrow>
             let (ok, fs) = write_store s os fs (Marshal_doc (AList.update gitRoot (Some existing) d))
             in Some (if ok then Recorded added else RecordFailed, fs))"

section \<open>Facts about documents\<close>

definition doc_ok :: "doc \<Rightarrow> bool" where
  \<comment> \<open>a document that a JSON text denotes: distinct keys, all strings well-formed UTF-8\<close>
  "doc_ok d \<longleftrightarrow> distinct (map fst d) \<and> (\<forall>(k, xs) \<in> set d. valid_utf8 k \<and>
     (case xs of None \<Rightarrow> True | Some l \<Rightarrow> list_all valid_utf8 l))"

lemma decode_strings_map: "decode_strings (map JStr l) = Some l"
  by (induction l) auto

lemma decode_slice_json: "decode_slice (slice_json xs) = Some xs"
  by (cases xs) (auto simp: slice_json_def decode_slice_def decode_strings_map)

lemma decode_members_doc:
  "distinct (map fst acc @ map fst d) \<Longrightarrow>
    decode_members (map (\<lambda>(k, xs). (k, slice_json xs)) d) acc = Some (acc @ d)"
proof (induction d arbitrary: acc)
  case (Cons m d)
  obtain k xs where m: "m = (k, xs)" by (cases m)
  have "k \<notin> set (map fst acc)" using Cons.prems by (auto simp: m)
  then have "AList.update k xs acc = acc @ [(k, xs)]"
    by (induction acc) auto
  then show ?case using Cons by (simp add: m decode_slice_json)
qed simp

lemma sanitized_slice: "(case xs of None \<Rightarrow> True | Some l \<Rightarrow> list_all valid_utf8 l) \<Longrightarrow>
    sanitized (slice_json xs) = slice_json xs"
  by (cases xs) (auto simp: slice_json_def valid_utf8_def list_all_iff)

lemma distinct_sort_key: "distinct (map fst (sort_key fst d)) \<longleftrightarrow> distinct (map fst (d :: doc))"
  by (rule mset_eq_imp_distinct_iff) (simp add: mset_map)

lemma doc_ok_sort: "doc_ok (sort_key fst d) \<longleftrightarrow> doc_ok d"
  by (simp add: doc_ok_def distinct_sort_key)

lemma map_of_sort: "distinct (map fst d) \<Longrightarrow> map_of (sort_key fst d) = map_of (d :: doc)"
  using map_of_inject_set [of "sort_key fst d" d] by (simp add: distinct_sort_key)

lemma slice_print: "print_ok (slice_json xs)" "jdepth (slice_json xs) \<le> 1"
proof -
  have "print_ok (slice_json xs) \<and> jdepth (slice_json xs) \<le> 1"
  proof (cases xs)
    case (Some l)
    have "fold max (map jdepth (map JStr l)) 0 \<le> 0" by (simp only: fold_max_le) auto
    then show ?thesis using Some by (auto simp: slice_json_def list_all_iff)
  qed (simp add: slice_json_def)
  then show "print_ok (slice_json xs)" "jdepth (slice_json xs) \<le> 1" by blast+
qed

lemma print_ok_doc: "print_ok (doc_json d)" "jdepth (doc_json d) \<le> 2"
proof -
  show "print_ok (doc_json d)" using slice_print(1) by (auto simp: doc_json_def list_all_iff)
  have "fold max (map (jdepth \<circ> snd) (map (\<lambda>(k, xs). (k, slice_json xs)) (sort_key fst d))) 0 \<le> 1"
    using slice_print(2) by (simp only: fold_max_le) auto
  then show "jdepth (doc_json d) \<le> 2" by (simp add: doc_json_def comp_def split_beta)
qed

lemma Unmarshal_Marshal:
  assumes "doc_ok d"
  shows "Unmarshal_doc (Marshal_doc d) = Some (Some (sort_key fst d))"
proof -
  have "sanitized (doc_json d) = doc_json d"
    using assms sanitized_slice
    by (auto simp: doc_json_def doc_ok_def valid_utf8_def case_prod_beta split_beta intro!: map_cong)
  then have "parse_json (Marshal_doc d) = Some (doc_json d)"
    using parse_print [OF print_ok_doc(1)] print_ok_doc(2) [of d]
    by (simp add: Marshal_doc_def maxNestingDepth_def)
  moreover have "decode_members (map (\<lambda>(k, xs). (k, slice_json xs)) (sort_key fst d)) [] = Some (sort_key fst d)"
    using decode_members_doc [of "[]" "sort_key fst d"] assms doc_ok_sort [of d] by (simp add: doc_ok_def)
  ultimately show ?thesis by (simp add: Unmarshal_doc_def doc_json_def)
qed

lemma decode_strings_valid:
  "decode_strings vs = Some l \<Longrightarrow> list_all json_valid vs \<Longrightarrow> list_all valid_utf8 l"
  by (induction vs arbitrary: l) (auto split: json.splits)

lemma decode_slice_valid:
  "decode_slice v = Some xs \<Longrightarrow> json_valid v \<Longrightarrow> (case xs of None \<Rightarrow> True | Some l \<Rightarrow> list_all valid_utf8 l)"
  using decode_strings_valid by (auto simp: decode_slice_def list_all_iff split: json.splits)

lemma doc_ok_update:
  assumes "doc_ok d" and "valid_utf8 k" and "case xs of None \<Rightarrow> True | Some l \<Rightarrow> list_all valid_utf8 l"
  shows "doc_ok (AList.update k xs d)"
proof -
  have "set (AList.update k xs d) \<subseteq> insert (k, xs) (set d)"
    by (induction d) auto
  then show ?thesis using assms distinct_update [of d k xs] by (fastforce simp: doc_ok_def)
qed

lemma decode_members_ok:
  "decode_members ms d = Some d' \<Longrightarrow> members_valid ms \<Longrightarrow> doc_ok d \<Longrightarrow> doc_ok d'"
proof (induction ms d rule: decode_members.induct)
  case (2 k v ms d)
  then show ?case
    using doc_ok_update [of d k] decode_slice_valid [of v]
    by (auto simp: members_valid_def split: option.splits)
qed auto

lemma Unmarshal_ok: "Unmarshal_doc raw = Some (Some d) \<Longrightarrow> doc_ok d"
proof -
  assume "Unmarshal_doc raw = Some (Some d)"
  then obtain ms where "parse_json raw = Some (JObj ms)" "decode_members ms [] = Some d"
    by (auto simp: Unmarshal_doc_def split: option.splits json.splits)
  moreover from this(1) have "members_valid ms"
    using parse_json_valid [of raw] by (fastforce simp: members_valid_def list_all_iff)
  ultimately show ?thesis using decode_members_ok [of ms "[]" d] by (simp add: doc_ok_def)
qed

lemma doc_ok_Nil: "doc_ok []"
  by (simp add: doc_ok_def)

lemma store_read_ok: "store_read s os fs = Some d \<Longrightarrow> doc_ok d"
  by (auto simp: store_read_def doc_ok_Nil intro: Unmarshal_ok split: option.splits if_splits)

section \<open>Facts about loading and recording\<close>

lemma load_names_eq:
  "length out \<le> m \<Longrightarrow> load_names m out names = take m (out @ filter packageValid names)"
  by (induction names arbitrary: out) (auto simp: take_Cons')

definition new_names :: "string list \<Rightarrow> string list \<Rightarrow> string list" where
  \<comment> \<open>the valid names of \<open>pkgs\<close> not in \<open>existing\<close>, without repetitions, up to the limit of the project\<close>
  "new_names existing pkgs =
    take (LearnMax - length existing) (filter (\<lambda>n. n \<notin> set existing) (uniq (filter packageValid pkgs)))"

lemma uniq_Cons: "uniq (x # xs) = x # filter (\<lambda>y. y \<noteq> x) (uniq xs)"
proof (induction xs rule: rev_induct)
  case (snoc y ys)
  have "uniq (x # ys @ [y]) = (if y \<in> set (x # ys) then uniq (x # ys) else uniq (x # ys) @ [y])"
    using uniq_snoc [of "x # ys" y] by simp
  then show ?case using snoc by (auto simp: uniq_snoc)
qed (simp add: uniq_def)

lemma record_names_eq:
  "record_names pkgs ex n = (ex @ new_names ex pkgs, n + length (new_names ex pkgs))"
proof (induction pkgs arbitrary: ex n)
  case Nil
  then show ?case by (simp add: new_names_def)
next
  case (Cons p ps)
  consider (invalid) "\<not> packageValid p" | (full) "packageValid p" "LearnMax \<le> length ex"
    | (known) "packageValid p" "\<not> LearnMax \<le> length ex" "p \<in> set ex"
    | (new) "packageValid p" "\<not> LearnMax \<le> length ex" "p \<notin> set ex" by blast
  then show ?case
  proof cases
    case invalid
    then show ?thesis using Cons by (simp add: new_names_def)
  next
    case full
    then show ?thesis by (simp add: new_names_def)
  next
    case known
    then have "new_names ex (p # ps) = new_names ex ps"
      by (auto simp: new_names_def uniq_Cons intro!: arg_cong [where f = "take _"] filter_cong)
    then show ?thesis using known Cons by (simp add: contains_iff)
  next
    case new
    then have "new_names ex (p # ps) = p # new_names (ex @ [p]) ps"
      by (auto simp: new_names_def uniq_Cons take_Cons' intro!: arg_cong [where f = "take _"] filter_cong)
    then show ?thesis using new Cons [of "ex @ [p]" "n + 1"] by (simp add: contains_iff)
  qed
qed

lemma distinct_uniq [simp]: "distinct (uniq xs)"
  by (simp add: uniq_def)

lemma new_names_facts:
  "distinct (new_names ex pkgs)" "set (new_names ex pkgs) \<inter> set ex = {}"
  "n \<in> set (new_names ex pkgs) \<Longrightarrow> n \<in> set pkgs \<and> packageValid n"
  "length ex + length (new_names ex pkgs) \<le> max (length ex) LearnMax"
  by (auto simp: new_names_def dest: in_set_takeD)

lemma package_valid_ascii: "packageValid n \<Longrightarrow> ascii n"
proof -
  assume "packageValid n"
  then have "list_all name_char n" by (simp add: packageValid_iff)
  moreover have "ord c < 0x80" if "name_char c" for c
    using that by (auto simp: name_char_def isAlnum_def ord_le_iff)
  ultimately show ?thesis by (auto simp: ascii_iff list_all_iff)
qed

lemma doc_get_valid: "doc_ok d \<Longrightarrow> list_all valid_utf8 (doc_get (Some d) k)"
  by (fastforce simp: doc_get_def doc_ok_def dest: map_of_SomeD split: option.splits)

lemma doc_get_update:
  "doc_get (Some (AList.update k (Some l) d)) k' = (if k' = k then l else doc_get (Some d) k')"
  by (auto simp: doc_get_def update_conv')

lemma doc_get_sort: "distinct (map fst d) \<Longrightarrow> doc_get (Some (sort_key fst d)) k = doc_get (Some d) k"
  by (simp add: doc_get_def map_of_sort)

definition store_intact :: "store \<Rightarrow> os_outcome \<Rightarrow> bool" where
  \<comment> \<open>the temporary file is not the store file itself\<close>
  "store_intact s os \<longleftrightarrow> (case temp_suffix os of None \<Rightarrow> True | Some r \<Rightarrow> temp_path s r \<noteq> store_path s)"

lemma write_store_cases:
  assumes "write_store s os fs encoded = (ok, fs')" and "store_intact s os"
  shows "if ok then fs' (store_path s) = Some encoded \<and> (\<forall>p. p \<noteq> store_path s \<longrightarrow> fs' p = fs p)
    else fs' (store_path s) = fs (store_path s) \<and>
      (\<forall>p. p \<noteq> store_path s \<longrightarrow> fs p \<noteq> None \<longrightarrow> fs' p = fs p)"
  using assms
  by (auto simp: write_store_def store_intact_def remove_file_def Let_def split: option.splits if_splits)

lemma store_Record_eq:
  "store_Record s os fs root pkgs =
    (let doc = store_read s os fs; new = new_names (doc_get doc root) pkgs in
     if root = [] \<or> new = [] then Some (Recorded 0, fs)
     else case doc of
       None \<Rightarrow> None
     | Some d \<Rightarrow>
        let (ok, fs) = write_store s os fs (Marshal_doc (AList.update root (Some (doc_get doc root @ new)) d))
        in Some (if ok then Recorded (length new) else RecordFailed, fs))"
proof (cases "root = [] \<or> pkgs = []")
  case True
  have "new_names ex [] = []" for ex by (simp add: new_names_def)
  then show ?thesis using True by (auto simp: store_Record_def Let_def)
next
  case False
  then show ?thesis unfolding store_Record_def record_names_eq Let_def by simp
qed

lemma Record_cases:
  assumes "store_Record s os fs root pkgs = Some (res, fs')"
  obtains (nothing) "res = Recorded 0" "fs' = fs"
      "root = [] \<or> new_names (doc_get (store_read s os fs) root) pkgs = []"
    | (stored) d ok where "store_read s os fs = Some d" "root \<noteq> []" "new_names (doc_get (Some d) root) pkgs \<noteq> []"
      "write_store s os fs (Marshal_doc (AList.update root
        (Some (doc_get (Some d) root @ new_names (doc_get (Some d) root) pkgs)) d)) = (ok, fs')"
      "res = (if ok then Recorded (length (new_names (doc_get (Some d) root) pkgs)) else RecordFailed)"
proof (cases "root = [] \<or> new_names (doc_get (store_read s os fs) root) pkgs = []")
  case True
  then have "res = Recorded 0" "fs' = fs" using assms by (auto simp: store_Record_eq Let_def)
  then show thesis using True by (rule nothing)
next
  case False
  then obtain d where d: "store_read s os fs = Some d"
    using assms by (cases "store_read s os fs") (auto simp: store_Record_eq Let_def)
  obtain ok fs1 where w: "write_store s os fs (Marshal_doc (AList.update root
      (Some (doc_get (Some d) root @ new_names (doc_get (Some d) root) pkgs)) d)) = (ok, fs1)" by fastforce
  then have "res = (if ok then Recorded (length (new_names (doc_get (Some d) root) pkgs)) else RecordFailed)"
    "fs1 = fs'"
    using False assms d by (auto simp: store_Record_eq Let_def)
  then show thesis using False w d by (intro stored [of d ok]) auto
qed

lemma split_at_append:
  "p c \<Longrightarrow> split_at p (s @ c # t) = split_at p s @ split_at p t"
proof (induction s)
  case (Cons a s)
  obtain y ys where "split_at p s = y # ys" by (meson list.exhaust split_at_not_Nil)
  with Cons show ?case by auto
qed simp

lemma clean_components_snoc:
  "c \<noteq> [] \<Longrightarrow> c \<noteq> ''.'' \<Longrightarrow> c \<noteq> ''..'' \<Longrightarrow>
    \<exists>xs. clean_components rooted out (cs @ [c]) = xs @ [c]"
  by (induction rooted out cs rule: clean_components.induct) auto

lemma join_snoc: "\<exists>pre. join ''/'' (xs @ [c]) = pre @ c \<and> (pre = [] \<or> last pre = CHR ''/'')"
proof (induction xs)
  case (Cons x xs)
  then obtain pre where "join ''/'' (xs @ [c]) = pre @ c" "pre = [] \<or> last pre = CHR ''/''" by blast
  then show ?case
    by (cases xs) (auto intro!: exI [of _ "x @ CHR ''/'' # pre"])
qed simp

lemma storeName_facts: "CHR ''/'' \<notin> set storeName" "storeName \<noteq> []" "storeName \<noteq> ''.''" "storeName \<noteq> ''..''"
  by (simp_all add: storeName_def)

lemma NewStore_path:
  assumes "NewStore home = Some s"
  shows "\<exists>pre. store_path s = pre @ storeName \<and> (pre = [] \<or> last pre = CHR ''/'')"
proof -
  have home: "home \<noteq> []"
    using assms by (auto simp: NewStore_def split: if_splits)
  let ?full = "home @ ''/'' @ storeName"
  have sp: "Split ?full CHR ''/'' = Split home CHR ''/'' @ [storeName]"
    using split_at_append [of "\<lambda>x. x = CHR ''/''" "CHR ''/''" home storeName]
      split_at_none [of "\<lambda>x. x = CHR ''/''" storeName] storeName_facts(1)
    by (auto simp: Split_def list_all_iff)
  obtain xs where xs: "clean_components (hd ?full = CHR ''/'') [] (Split ?full CHR ''/'') = xs @ [storeName]"
    using clean_components_snoc [OF storeName_facts(2,3,4)] sp by metis
  obtain pre where pre: "join ''/'' (xs @ [storeName]) = pre @ storeName" "pre = [] \<or> last pre = CHR ''/''"
    using join_snoc by blast
  have "path_Join home storeName = path_Clean ?full" using home by (simp add: path_Join_def)
  also have "\<dots> = (if hd ?full = CHR ''/'' then CHR ''/'' # pre @ storeName else pre @ storeName)"
    unfolding path_Clean_def Let_def xs pre(1) using home storeName_facts(2) by simp
  finally have "store_path s = (if hd ?full = CHR ''/'' then CHR ''/'' # pre @ storeName else pre @ storeName)"
    using assms by (auto simp: NewStore_def split: if_splits)
  then show ?thesis
    using pre(2) by (cases "hd ?full = CHR ''/''") (auto intro: exI [of _ "CHR ''/'' # pre"] exI [of _ pre])
qed

lemma last_slash_unique:
  assumes "a @ CHR ''/'' # x = b @ CHR ''/'' # y" and "CHR ''/'' \<notin> set x" "CHR ''/'' \<notin> set y"
  shows "x = y"
proof -
  have "LastIndexByte (a @ CHR ''/'' # x) CHR ''/'' = Some (length a)"
    "LastIndexByte (b @ CHR ''/'' # y) CHR ''/'' = Some (length b)"
    using assms(2,3) by simp_all
  with assms(1) have "length a = length b" by simp
  with assms(1) show ?thesis by simp
qed

lemma NewStore_temp:
  assumes "NewStore home = Some s" and "CHR ''/'' \<notin> set r"
  shows "temp_path s r \<noteq> store_path s"
proof
  assume eq: "temp_path s r = store_path s"
  obtain pre where pre: "store_path s = pre @ storeName" "pre = [] \<or> last pre = CHR ''/''"
    using NewStore_path [OF assms(1)] by blast
  define n where "n = storeName @ ''.tmp.'' @ r"
  have n: "CHR ''/'' \<notin> set n" "n \<noteq> storeName" using assms(2) storeName_facts(1) by (auto simp: n_def)
  have "path_Dir (store_path s) \<noteq> []" by (auto simp: path_Dir_def path_Clean_def Let_def)
  then obtain a where a: "temp_path s r = a @ CHR ''/'' # n"
  proof (cases "last (path_Dir (store_path s)) = CHR ''/''")
    case True
    then have "path_Dir (store_path s) = butlast (path_Dir (store_path s)) @ [CHR ''/'']"
      using \<open>path_Dir (store_path s) \<noteq> []\<close> by (metis append_butlast_last_id)
    then have "temp_path s r = butlast (path_Dir (store_path s)) @ CHR ''/'' # n"
      using True by (simp add: temp_path_def Let_def n_def)
    then show ?thesis by (rule that)
  next
    case False
    then show ?thesis by (intro that [of "path_Dir (store_path s)"]) (simp add: temp_path_def Let_def n_def)
  qed
  then have "CHR ''/'' \<in> set (store_path s)" using eq by (metis in_set_conv_decomp)
  then have "pre \<noteq> []" using pre(1) storeName_facts(1) by auto
  then obtain b where "pre = b @ [CHR ''/'']" using pre(2) by (metis append_butlast_last_id)
  then have "a @ CHR ''/'' # n = b @ CHR ''/'' # storeName" using eq a pre(1) by simp
  then have "n = storeName" using last_slash_unique n(1) storeName_facts(1) by blast
  then show False using n(2) by simp
qed

lemma store_Load_eq:
  "store_Load s os fs root m =
    (if root = [] \<or> m \<le> 0 then []
     else sort (take (nat m) (filter packageValid (doc_get (store_read s os fs) root))))"
  by (simp add: store_Load_def load_names_eq)

section \<open>Properties of the store\<close>

text \<open>
  What \<open>Load\<close> returns, whatever is on disk: the first \<open>max\<close> valid names stored for the
  project, sorted; in particular a hand-edited file cannot make it return an invalid name,
  and a missing, empty, oversized, unreadable or unparseable file reads as empty.
\<close>

theorem Load_spec:
  "store_Load s os fs root m =
    (if root = [] \<or> m \<le> 0 then []
     else sort (take (nat m) (filter packageValid (doc_get (store_read s os fs) root)))) \<and>
   sorted (store_Load s os fs root m) \<and> list_all packageValid (store_Load s os fs root m) \<and>
   int (length (store_Load s os fs root m)) \<le> max m 0 \<and>
   (\<forall>raw. (fs (store_path s) = None \<or> \<not> stat_ok os \<or> \<not> read_ok os \<or>
       (fs (store_path s) = Some raw \<and> (raw = [] \<or> maxStoreBytes < length raw \<or> Unmarshal_doc raw = None))) \<longrightarrow>
     store_Load s os fs root m = [])"
proof -
  note eq = store_Load_eq [of s os fs root m]
  have "list_all packageValid (store_Load s os fs root m)"
    unfolding eq by (auto simp: list_all_iff dest: in_set_takeD)
  moreover have "int (length (store_Load s os fs root m)) \<le> max m 0" unfolding eq by auto
  moreover have "store_Load s os fs root m = []" if "store_read s os fs = Some []"
    using that unfolding eq by (simp add: doc_get_def)
  moreover have "store_read s os fs = Some []"
    if "fs (store_path s) = None \<or> \<not> stat_ok os \<or> \<not> read_ok os \<or>
       (fs (store_path s) = Some raw \<and> (raw = [] \<or> maxStoreBytes < length raw \<or> Unmarshal_doc raw = None))" for raw
    using that by (auto simp: store_read_def split: option.splits)
  ultimately show ?thesis using eq by simp
qed

text \<open>
  C8. \<open>Record\<close> is atomic, whatever the operating system does: when it returns, the store file
  is either untouched or exactly the new document, the latter only when a positive number of
  new names is reported; no other existing file is touched. A failed call leaves the store
  as it was.
\<close>

theorem Record_atomic:
  assumes "NewStore home = Some s" and "store_Record s os fs root pkgs = Some (res, fs')"
    and "\<forall>random. temp_suffix os = Some random \<longrightarrow> CHR ''/'' \<notin> set random"
  shows "(case res of
      RecordFailed \<Rightarrow> fs' (store_path s) = fs (store_path s)
    | Recorded n \<Rightarrow> if n = 0 then fs' = fs
        else \<exists>d. store_read s os fs = Some d \<and> n = length (new_names (doc_get (Some d) root) pkgs) \<and>
          fs' (store_path s) = Some (Marshal_doc (AList.update root
            (Some (doc_get (Some d) root @ new_names (doc_get (Some d) root) pkgs)) d))) \<and>
    (\<forall>p. p \<noteq> store_path s \<and> fs p \<noteq> None \<longrightarrow> fs' p = fs p)"
  using assms(2)
proof (cases rule: Record_cases)
  case nothing
  then show ?thesis by simp
next
  case (stored d ok)
  have "store_intact s os"
    using assms(3) NewStore_temp [OF assms(1)] by (auto simp: store_intact_def split: option.splits)
  from write_store_cases [OF stored(4) this] stored(1,3,5) show ?thesis
    by (cases ok) (auto split: record_result.splits)
qed

text \<open>What \<open>Record\<close> reports is what a later \<open>read\<close> finds: after a successful call the
  project's set is the old one followed by the new names, which are valid, distinct, not in
  the old set and as many as reported; every other project's set is unchanged; a set never
  grows past the limit of 128. The document goes through the JSON printer and parser.
\<close>

lemma Record_then_read:
  assumes "NewStore home = Some s" and "store_Record s os fs root pkgs = Some (Recorded n, fs')" and "0 < n"
    and "\<forall>random. temp_suffix os = Some random \<longrightarrow> CHR ''/'' \<notin> set random" and "valid_utf8 root"
    and "stat_ok os2" "read_ok os2"
    and "\<And>raw. fs' (store_path s) = Some raw \<Longrightarrow> length raw \<le> maxStoreBytes"
  defines "old \<equiv> doc_get (store_read s os fs) root"
  shows "doc_get (store_read s os2 fs') root = old @ new_names old pkgs \<and>
    n = length (new_names old pkgs) \<and> distinct (new_names old pkgs) \<and>
    set (new_names old pkgs) \<inter> set old = {} \<and>
    (\<forall>name \<in> set (new_names old pkgs). name \<in> set pkgs \<and> packageValid name) \<and>
    length (old @ new_names old pkgs) \<le> max (length old) LearnMax \<and>
    (\<forall>other. other \<noteq> root \<longrightarrow>
      doc_get (store_read s os2 fs') other = doc_get (store_read s os fs) other)"
  using assms(2)
proof (cases rule: Record_cases)
  case nothing
  then show ?thesis using assms(3) by simp
next
  case (stored d ok)
  have intact: "store_intact s os"
    using assms(4) NewStore_temp [OF assms(1)] by (auto simp: store_intact_def split: option.splits)
  define d' where "d' = AList.update root (Some (old @ new_names old pkgs)) d"
  have old: "old = doc_get (Some d) root" by (simp add: old_def stored(1))
  have ok: "ok" "n = length (new_names old pkgs)" using stored(5) assms(3) by (cases ok; simp add: old)+
  then have content: "fs' (store_path s) = Some (Marshal_doc d')"
    using write_store_cases [OF stored(4) intact] by (simp add: d'_def old)
  have dok: "doc_ok d" using store_read_ok stored(1) by blast
  have "list_all valid_utf8 (new_names old pkgs)"
    using new_names_facts(3) package_valid_ascii valid_utf8_ascii by (auto simp: list_all_iff)
  then have d'ok: "doc_ok d'"
    unfolding d'_def using dok assms(5) doc_get_valid [OF dok] by (intro doc_ok_update) (auto simp: old)
  have ne: "Marshal_doc d' \<noteq> []" by (simp add: Marshal_doc_def doc_json_def)
  have rd: "store_read s os2 fs' = Some (sort_key fst d')"
    using assms(6,7,8) content ne Unmarshal_Marshal [OF d'ok] by (simp add: store_read_def)
  have dist: "distinct (map fst d')" using d'ok by (simp add: doc_ok_def)
  have get: "doc_get (store_read s os2 fs') k = (if k = root then old @ new_names old pkgs else doc_get (Some d) k)" for k
    unfolding rd doc_get_sort [OF dist] by (simp add: d'_def doc_get_update)
  show ?thesis
    using get ok(2) new_names_facts stored(1) by (auto simp: old)
qed

lemma new_names_Nil: "new_names [] pkgs = [] \<longleftrightarrow> filter packageValid pkgs = []"
proof -
  have "uniq xs = [] \<longleftrightarrow> xs = []" for xs by (simp add: uniq_def)
  then show ?thesis by (simp add: new_names_def filter_empty_conv)
qed

lemma Record_reads_back:
  assumes "NewStore home = Some s" and "store_Record s os fs root pkgs = Some (Recorded n, fs')"
    and "\<forall>random. temp_suffix os = Some random \<longrightarrow> CHR ''/'' \<notin> set random" and "valid_utf8 root"
    and "root \<noteq> []" "filter packageValid pkgs \<noteq> []" and "stat_ok os2" "read_ok os2"
    and "\<And>raw. fs' (store_path s) = Some raw \<Longrightarrow> length raw \<le> maxStoreBytes"
  shows "doc_get (store_read s os2 fs') root =
    doc_get (store_read s os fs) root @ new_names (doc_get (store_read s os fs) root) pkgs"
proof (cases "n = 0")
  case False
  then show ?thesis using Record_then_read [OF assms(1,2) _ assms(3,4,7,8,9)] by simp
next
  case True
  from assms(2) have none: "fs' = fs" "new_names (doc_get (store_read s os fs) root) pkgs = []"
    using True assms(5) by (cases rule: Record_cases; simp split: if_splits)+
  then have "doc_get (store_read s os fs) root \<noteq> []" using assms(6) new_names_Nil by metis
  then have "store_read s os fs \<noteq> Some []" by (auto simp: doc_get_def)
  then have "store_read s os2 fs = store_read s os fs"
    using assms(7,8) by (auto simp: store_read_def split: option.splits if_splits)
  then show ?thesis using none by simp
qed

definition sample_os :: os_outcome where
  "sample_os = \<lparr>stat_ok = True, read_ok = True, temp_suffix = Some ''1'', write_failed = None,
     close_ok = True, rename_ok = True, remove_ok = True\<rparr>"

definition sample_store :: store where
  "sample_store = \<lparr>store_path = ''/h/sandbox-learned.json''\<rparr>"

lemma sample_NewStore: "NewStore ''/h/'' = Some sample_store"
  by code_simp

definition sample_after :: files where
  "sample_after = snd (the (store_Record sample_store sample_os Map.empty ''/p'' [''jq'', ''$x'']))"

lemma sample_Record:
  "store_Record sample_store sample_os Map.empty ''/p'' [''jq'', ''$x''] = Some (Recorded 1, sample_after)"
proof -
  have "map_option fst (store_Record sample_store sample_os Map.empty ''/p'' [''jq'', ''$x'']) = Some (Recorded 1)"
    by code_simp
  then show ?thesis by (auto simp: sample_after_def)
qed

theorem Record_atomic_witness:
  "sample_after (store_path sample_store) \<noteq> None \<and> sample_after ''/h/other'' = None"
proof -
  have "\<forall>random. temp_suffix sample_os = Some random \<longrightarrow> CHR ''/'' \<notin> set random"
    by (simp add: sample_os_def)
  from Record_atomic [OF sample_NewStore sample_Record this]
  have "sample_after (store_path sample_store) \<noteq> None" by auto
  moreover have "sample_after ''/h/other'' = None" by code_simp
  ultimately show ?thesis ..
qed

theorem Load_spec_witness:
  "store_Load sample_store sample_os [store_path sample_store \<mapsto> ''nul''] ''/p'' 128 = []"
proof -
  have "Unmarshal_doc ''nul'' = None" by code_simp
  then show ?thesis
    using Load_spec [THEN conjunct2, THEN conjunct2, THEN conjunct2, THEN conjunct2, rule_format,
        of "[store_path sample_store \<mapsto> ''nul'']" sample_store sample_os "''nul''" "''/p''" 128] by simp
qed

lemma Record_then_read_example:
  "doc_get (store_read sample_store sample_os sample_after) ''/p'' = [''jq'']"
proof -
  have "\<forall>random. temp_suffix sample_os = Some random \<longrightarrow> CHR ''/'' \<notin> set random"
    "stat_ok sample_os" "read_ok sample_os" by (simp_all add: sample_os_def)
  moreover have "valid_utf8 ''/p''" by (rule valid_utf8_ascii) simp
  moreover have "length (the (sample_after (store_path sample_store))) \<le> maxStoreBytes" by code_simp
  then have "sample_after (store_path sample_store) = Some raw \<Longrightarrow> length raw \<le> maxStoreBytes" for raw by simp
  moreover have "doc_get (store_read sample_store sample_os Map.empty) ''/p'' = []"
    "new_names [] [''jq'', ''$x''] = [''jq'']" by code_simp+
  ultimately show ?thesis
    using Record_then_read [OF sample_NewStore sample_Record, of sample_os] by simp
qed

text \<open>The one crash of the store: \<open>Record\<close> panics exactly when there is a valid name to add
  for a project and the store file, readable and within its bound, is the JSON text \<open>null\<close> up to white
  space, which decodes to the nil map.
\<close>

lemma Record_panics_iff:
  "store_Record s os fs root pkgs = None \<longleftrightarrow>
    root \<noteq> [] \<and> filter packageValid pkgs \<noteq> [] \<and> stat_ok os \<and> read_ok os \<and>
    (\<exists>raw. fs (store_path s) = Some raw \<and> raw \<noteq> [] \<and> length raw \<le> maxStoreBytes \<and>
      parse_json raw = Some JNull)"
proof -
  note new = new_names_Nil [of pkgs]
  have nil: "Unmarshal_doc raw = Some None \<longleftrightarrow> parse_json raw = Some JNull" for raw
    by (auto simp: Unmarshal_doc_def split: option.splits json.splits)
  have rd: "store_read s os fs = None \<longleftrightarrow> stat_ok os \<and> read_ok os \<and>
      (\<exists>raw. fs (store_path s) = Some raw \<and> raw \<noteq> [] \<and> length raw \<le> maxStoreBytes \<and> parse_json raw = Some JNull)"
    by (auto simp: store_read_def nil [symmetric] not_less split: option.splits)
  have "store_Record s os fs root pkgs = None \<longleftrightarrow> root \<noteq> [] \<and> store_read s os fs = None \<and> new_names [] pkgs \<noteq> []"
    by (cases "store_read s os fs") (auto simp: store_Record_eq Let_def doc_get_def split: prod.splits)
  then show ?thesis unfolding rd new by blast
qed

text \<open>
  \<open>Record\<close> does not bound the document it writes: one larger than the limit of \<open>read\<close> is
  written all the same, and every later \<open>read\<close> then sees an empty store.
\<close>

lemma oversized_store_reads_empty:
  assumes "fs (store_path s) = Some (Marshal_doc d)" and "maxStoreBytes < length (Marshal_doc d)"
  shows "store_read s os fs = Some []"
  using assms by (simp add: store_read_def)

end
