(* ===== verification/Proxy_Address.thy ===== *)
theory Proxy_Address
  imports Prelude
begin

text \<open>
  The address policy of \<open>server-go/modules/sandbox/proxy_policy.go\<close>: \<open>ipv4Blocked\<close> and
  \<open>proxyIPBlocked\<close>, over the \<open>net.IP\<close> byte slices of the Go standard library, whose \<open>To4\<close>
  and \<open>To16\<close> are modelled here, and the per-octet specification of the blocked space.
\<close>

section \<open>Addresses\<close>

type_synonym ip = "byte list option"  \<comment> \<open>\<open>net.IP\<close>; \<open>None\<close> is the nil slice\<close>

definition be_u32 :: "byte list \<Rightarrow> u32" where
  \<comment> \<open>\<open>binary.BigEndian.Uint32\<close>\<close>
  "be_u32 bs = word_of_nat (le_nat (rev (take 4 bs)))"

definition v4InV6Prefix :: "byte list" where
  "v4InV6Prefix = replicate 10 0 @ [0xff, 0xff]"

definition To4 :: "byte list \<Rightarrow> ip" where
  "To4 ip =
    (if length ip = 4 then Some ip
     else if length ip = 16 \<and> take 12 ip = v4InV6Prefix then Some (drop 12 ip)
     else None)"

definition To16 :: "byte list \<Rightarrow> ip" where
  "To16 ip =
    (if length ip = 4 then Some (v4InV6Prefix @ ip)
     else if length ip = 16 then Some ip
     else None)"

section \<open>The policy\<close>

definition proxyPortAllowed :: "int \<Rightarrow> bool" where
  "proxyPortAllowed port \<longleftrightarrow> port = 80 \<or> port = 443"

definition ipv4_ranges :: "(u32 \<times> nat) list" where
  \<comment> \<open>network and prefix length\<close>
  "ipv4_ranges =
    [(0x00000000, 8), (0x0a000000, 8), (0x64400000, 10), (0x7f000000, 8), (0xa9fe0000, 16),
     (0xac100000, 12), (0xc0000000, 24), (0xc0000200, 24), (0xc0a80000, 16), (0xc6120000, 15),
     (0xc6336400, 24), (0xcb007100, 24), (0xe0000000, 4), (0xf0000000, 4)]"

fun in_ranges :: "(u32 \<times> nat) list \<Rightarrow> u32 \<Rightarrow> bool" where
  "in_ranges [] address = False"
| "in_ranges ((network, bits) # ranges) address =
     (let mask = push_bit (32 - bits) (NOT 0 :: u32)
      in if address AND mask = network then True else in_ranges ranges address)"

definition ipv4Blocked :: "u32 \<Rightarrow> bool" where
  "ipv4Blocked address = in_ranges ipv4_ranges address"

definition nat64_prefix :: "byte list" where
  "nat64_prefix = [0x00, 0x64, 0xff, 0x9b, 0, 0, 0, 0, 0, 0, 0, 0]"

definition all_zero :: "byte list \<Rightarrow> bool" where
  \<comment> \<open>the scans that clear \<open>compat\<close> and \<open>allZero\<close> at the first non-zero byte\<close>
  "all_zero bs = list_all (\<lambda>b. b = 0) bs"

definition proxyIPBlocked :: "ip \<Rightarrow> bool" where
  "proxyIPBlocked ip =
    (case ip of
       None \<Rightarrow> True
     | Some bs \<Rightarrow>
        (case To4 bs of
           Some v4 \<Rightarrow> ipv4Blocked (be_u32 v4)
         | None \<Rightarrow>
            (case To16 bs of
               None \<Rightarrow> True
             | Some v6 \<Rightarrow>
                let compat = all_zero (take 12 v6)
                in if (compat \<and> (v6 ! 12 OR v6 ! 13 OR v6 ! 14 OR v6 ! 15) \<noteq> 0) \<or>
                      take 12 v6 = nat64_prefix
                   then ipv4Blocked (be_u32 (slice v6 12 4))
                   else if v6 ! 0 = 0x20 \<and> v6 ! 1 = 0x02
                   then ipv4Blocked (be_u32 (slice v6 2 4))
                   else let allZero = all_zero (take 15 v6)
                        in if allZero \<and> (v6 ! 15 = 0 \<or> v6 ! 15 = 1) then True
                           else v6 ! 0 AND 0xfe = 0xfc \<or>
                             (v6 ! 0 = 0xfe \<and> v6 ! 1 AND 0xc0 = 0x80) \<or>
                             v6 ! 0 = 0xff)))"

section \<open>Specification of the blocked space\<close>

definition blocked4 :: "nat \<Rightarrow> nat \<Rightarrow> nat \<Rightarrow> nat \<Rightarrow> bool" where
  \<comment> \<open>the IPv4 address \<open>a.b.c.d\<close> is not publicly routable\<close>
  "blocked4 a b c d \<longleftrightarrow>
     a = 0 \<or> a = 10 \<or> a = 127 \<or> a \<ge> 224 \<or>
     (a = 100 \<and> 64 \<le> b \<and> b \<le> 127) \<or>
     (a = 169 \<and> b = 254) \<or>
     (a = 172 \<and> 16 \<le> b \<and> b \<le> 31) \<or>
     (a = 192 \<and> (b = 168 \<or> b = 0 \<and> (c = 0 \<or> c = 2))) \<or>
     (a = 198 \<and> (b = 18 \<or> b = 19 \<or> b = 51 \<and> c = 100)) \<or>
     (a = 203 \<and> b = 0 \<and> c = 113)"

lemma and_high_mask:
  fixes x :: "'a::len word"
  shows "unat (x AND push_bit n (NOT 0)) = unat x div 2 ^ n * 2 ^ n"
proof -
  have "x AND push_bit n (NOT 0) = push_bit n (drop_bit n x)"
    by (rule bit_word_eqI) (auto simp: bit_simps)
  moreover have "unat (drop_bit n x) = unat x div 2 ^ n"
    using unsigned_less [of x, where ?'a = nat]
    by (simp only: unsigned_drop_bit_eq take_bit_nat_eq_self) (simp only: drop_bit_eq_div)
  moreover have "unat x div 2 ^ n * 2 ^ n < 2 ^ LENGTH('a)"
    by (rule order_le_less_trans [OF div_times_less_eq_dividend unsigned_less])
  ultimately show ?thesis
    by (simp only: unsigned_push_bit_eq) (simp add: push_bit_eq_mult take_bit_nat_eq_self)
qed

lemma range_test:
  fixes x net :: u32
  assumes "bits + n = 32"
  shows "x AND push_bit (32 - bits) (NOT 0) = net \<longleftrightarrow> unat x div 2 ^ n * 2 ^ n = unat net"
proof -
  have "32 - bits = n" using assms by simp
  then show ?thesis by (simp only: and_high_mask word_unat_eq_iff)
qed

lemma unat_be_u32:
  "unat (be_u32 [a, b, c, d]) = ((unat a * 256 + unat b) * 256 + unat c) * 256 + unat d"
proof -
  have "be_u32 [a, b, c, d] = word_of_nat (le_nat [d, c, b, a])" by (simp add: be_u32_def)
  moreover have "le_nat [d, c, b, a] < 2 ^ LENGTH(32)" using le_nat_lt [of "[d, c, b, a]"] by simp
  ultimately have "unat (be_u32 [a, b, c, d]) = le_nat [d, c, b, a]"
    by (simp only: unat_of_nat_small)
  then show ?thesis by simp
qed

text \<open>The leading bits of an address in terms of its octets.\<close>

lemma octet_ranges:
  fixes a b c d :: nat
  assumes "a < 256" "b < 256" "c < 256" "d < 256"
  defines "x \<equiv> ((a * 256 + b) * 256 + c) * 256 + d"
  shows "x div 2 ^ 28 = a div 16" "x div 2 ^ 24 = a" "x div 2 ^ 22 = a * 4 + b div 64"
    "x div 2 ^ 20 = a * 16 + b div 16" "x div 2 ^ 17 = a * 128 + b div 2"
    "x div 2 ^ 16 = a * 256 + b" "x div 2 ^ 8 = (a * 256 + b) * 256 + c"
  using assms(1-4) unfolding x_def by simp_all

lemma digit_eq:
  fixes a a' k r r' :: nat
  assumes "r < k" and "r' < k"
  shows "a * k + r = a' * k + r' \<longleftrightarrow> a = a' \<and> r = r'"
proof
  assume "a * k + r = a' * k + r'"
  then have "(a * k + r) div k = (a' * k + r') div k" "(a * k + r) mod k = (a' * k + r') mod k"
    by simp_all
  then show "a = a' \<and> r = r'" using assms by simp
qed simp

text \<open>The fourteen prefixes, read off the octets.\<close>

lemma prefixes_blocked4:
  assumes lt: "A < 256" "B < 256" "C < 256" "D < 256"
  shows "(A = 0 \<or> A = 10 \<or> A * 4 + B div 64 = 401 \<or> A = 127 \<or> A * 256 + B = 169 * 256 + 254 \<or>
      A * 16 + B div 16 = 172 * 16 + 1 \<or> (A * 256 + B) * 256 + C = 192 * 65536 \<or>
      (A * 256 + B) * 256 + C = 192 * 65536 + 2 \<or> A * 256 + B = 192 * 256 + 168 \<or>
      A * 128 + B div 2 = 198 * 128 + 9 \<or> (A * 256 + B) * 256 + C = 198 * 65536 + 51 * 256 + 100 \<or>
      (A * 256 + B) * 256 + C = 203 * 65536 + 113 \<or> A div 16 = 14 \<or> A div 16 = 15) \<longleftrightarrow> blocked4 A B C D"
proof -
  have p: "A * 4 + B div 64 = 401 \<longleftrightarrow> A = 100 \<and> B div 64 = 1"
    "A * 16 + B div 16 = 172 * 16 + 1 \<longleftrightarrow> A = 172 \<and> B div 16 = 1"
    "A * 128 + B div 2 = 198 * 128 + 9 \<longleftrightarrow> A = 198 \<and> B div 2 = 9"
    using digit_eq [of "B div 64" 4 1 A 100] digit_eq [of "B div 16" 16 1 A 172]
      digit_eq [of "B div 2" 128 9 A 198] lt by simp_all
  have q: "B div 64 = 1 \<longleftrightarrow> 64 \<le> B \<and> B \<le> 127" "B div 16 = 1 \<longleftrightarrow> 16 \<le> B \<and> B \<le> 31"
    "B div 2 = 9 \<longleftrightarrow> B = 18 \<or> B = 19" "A div 16 = 14 \<or> A div 16 = 15 \<longleftrightarrow> 224 \<le> A"
    using lt by auto
  have two: "A * 256 + B = a' * 256 + b' \<longleftrightarrow> A = a' \<and> B = b'" if "b' < 256" for a' b'
    using digit_eq [OF lt(2) that] .
  have three: "(A * 256 + B) * 256 + C = (a' * 256 + b') * 256 + c' \<longleftrightarrow> A = a' \<and> B = b' \<and> C = c'"
    if "b' < 256" "c' < 256" for a' b' c'
    by (simp only: digit_eq [OF lt(3) that(2)] two [OF that(1)] conj_assoc)
  have r: "A * 256 + B = 169 * 256 + 254 \<longleftrightarrow> A = 169 \<and> B = 254"
    "A * 256 + B = 192 * 256 + 168 \<longleftrightarrow> A = 192 \<and> B = 168"
    "(A * 256 + B) * 256 + C = 192 * 65536 \<longleftrightarrow> A = 192 \<and> B = 0 \<and> C = 0"
    "(A * 256 + B) * 256 + C = 192 * 65536 + 2 \<longleftrightarrow> A = 192 \<and> B = 0 \<and> C = 2"
    "(A * 256 + B) * 256 + C = 198 * 65536 + 51 * 256 + 100 \<longleftrightarrow> A = 198 \<and> B = 51 \<and> C = 100"
    "(A * 256 + B) * 256 + C = 203 * 65536 + 113 \<longleftrightarrow> A = 203 \<and> B = 0 \<and> C = 113"
    using two [of 254 169] two [of 168 192] three [of 0 0 192] three [of 0 2 192]
      three [of 51 100 198] three [of 0 113 203] by simp_all
  note e = p r q
  show ?thesis unfolding e blocked4_def by (rule iffI; elim disjE conjE; simp)
qed

lemma ipv4Blocked_octets:
  "ipv4Blocked (be_u32 [a, b, c, d]) \<longleftrightarrow> blocked4 (unat a) (unat b) (unat c) (unat d)"
proof -
  define A B C D where "A = unat a" and "B = unat b" and "C = unat c" and "D = unat d"
  have lt: "A < 256" "B < 256" "C < 256" "D < 256"
    by (simp_all add: A_def B_def C_def D_def unat_byte_lt)
  define x where "x = be_u32 [a, b, c, d]"
  have ux: "unat x = ((A * 256 + B) * 256 + C) * 256 + D"
    by (simp add: x_def unat_be_u32 A_def B_def C_def D_def)
  note o = octet_ranges [OF lt, folded ux]
  have r24: "x AND push_bit (32 - 8) (NOT 0) = net \<longleftrightarrow> A * 2 ^ 24 = unat net"
    and r22: "x AND push_bit (32 - 10) (NOT 0) = net \<longleftrightarrow> (A * 4 + B div 64) * 2 ^ 22 = unat net"
    and r20: "x AND push_bit (32 - 12) (NOT 0) = net \<longleftrightarrow> (A * 16 + B div 16) * 2 ^ 20 = unat net"
    and r17: "x AND push_bit (32 - 15) (NOT 0) = net \<longleftrightarrow> (A * 128 + B div 2) * 2 ^ 17 = unat net"
    and r16: "x AND push_bit (32 - 16) (NOT 0) = net \<longleftrightarrow> (A * 256 + B) * 2 ^ 16 = unat net"
    and r8: "x AND push_bit (32 - 24) (NOT 0) = net \<longleftrightarrow> ((A * 256 + B) * 256 + C) * 2 ^ 8 = unat net"
    and r28: "x AND push_bit (32 - 4) (NOT 0) = net \<longleftrightarrow> (A div 16) * 2 ^ 28 = unat net" for net
  proof -
    have w: "8 + 24 = (32 :: nat)" "10 + 22 = (32 :: nat)" "12 + 20 = (32 :: nat)"
      "15 + 17 = (32 :: nat)" "16 + 16 = (32 :: nat)" "24 + 8 = (32 :: nat)" "4 + 28 = (32 :: nat)"
      by simp_all
    show "x AND push_bit (32 - 8) (NOT 0) = net \<longleftrightarrow> A * 2 ^ 24 = unat net"
      "x AND push_bit (32 - 10) (NOT 0) = net \<longleftrightarrow> (A * 4 + B div 64) * 2 ^ 22 = unat net"
      "x AND push_bit (32 - 12) (NOT 0) = net \<longleftrightarrow> (A * 16 + B div 16) * 2 ^ 20 = unat net"
      "x AND push_bit (32 - 15) (NOT 0) = net \<longleftrightarrow> (A * 128 + B div 2) * 2 ^ 17 = unat net"
      "x AND push_bit (32 - 16) (NOT 0) = net \<longleftrightarrow> (A * 256 + B) * 2 ^ 16 = unat net"
      "x AND push_bit (32 - 24) (NOT 0) = net \<longleftrightarrow> ((A * 256 + B) * 256 + C) * 2 ^ 8 = unat net"
      "x AND push_bit (32 - 4) (NOT 0) = net \<longleftrightarrow> (A div 16) * 2 ^ 28 = unat net"
      unfolding w [THEN range_test] o by (rule refl)+
  qed
  have "ipv4Blocked x \<longleftrightarrow>
      A * 2 ^ 24 = 0 \<or> A * 2 ^ 24 = 10 * 2 ^ 24 \<or> (A * 4 + B div 64) * 2 ^ 22 = 401 * 2 ^ 22 \<or>
      A * 2 ^ 24 = 127 * 2 ^ 24 \<or> (A * 256 + B) * 2 ^ 16 = (169 * 256 + 254) * 2 ^ 16 \<or>
      (A * 16 + B div 16) * 2 ^ 20 = (172 * 16 + 1) * 2 ^ 20 \<or>
      ((A * 256 + B) * 256 + C) * 2 ^ 8 = (192 * 65536) * 2 ^ 8 \<or>
      ((A * 256 + B) * 256 + C) * 2 ^ 8 = (192 * 65536 + 2) * 2 ^ 8 \<or>
      (A * 256 + B) * 2 ^ 16 = (192 * 256 + 168) * 2 ^ 16 \<or>
      (A * 128 + B div 2) * 2 ^ 17 = (198 * 128 + 9) * 2 ^ 17 \<or>
      ((A * 256 + B) * 256 + C) * 2 ^ 8 = (198 * 65536 + 51 * 256 + 100) * 2 ^ 8 \<or>
      ((A * 256 + B) * 256 + C) * 2 ^ 8 = (203 * 65536 + 113) * 2 ^ 8 \<or>
      (A div 16) * 2 ^ 28 = 14 * 2 ^ 28 \<or> (A div 16) * 2 ^ 28 = 15 * 2 ^ 28"
    unfolding ipv4Blocked_def ipv4_ranges_def in_ranges.simps Let_def r24 r22 r20 r17 r16 r8 r28
    by simp
  also have "\<dots> \<longleftrightarrow>
      A = 0 \<or> A = 10 \<or> A * 4 + B div 64 = 401 \<or> A = 127 \<or> A * 256 + B = 169 * 256 + 254 \<or>
      A * 16 + B div 16 = 172 * 16 + 1 \<or> (A * 256 + B) * 256 + C = 192 * 65536 \<or>
      (A * 256 + B) * 256 + C = 192 * 65536 + 2 \<or> A * 256 + B = 192 * 256 + 168 \<or>
      A * 128 + B div 2 = 198 * 128 + 9 \<or> (A * 256 + B) * 256 + C = 198 * 65536 + 51 * 256 + 100 \<or>
      (A * 256 + B) * 256 + C = 203 * 65536 + 113 \<or> A div 16 = 14 \<or> A div 16 = 15"
  proof -
    have t: "((2 :: nat) = 0) = False" by simp
    show ?thesis by (simp only: mult_cancel2 mult_eq_0_iff power_eq_0_iff t simp_thms)
  qed
  also have "\<dots> \<longleftrightarrow> blocked4 A B C D" by (rule prefixes_blocked4 [OF lt])
  finally show ?thesis by (simp add: x_def A_def B_def C_def D_def)
qed

section \<open>Specification of the policy on IP addresses\<close>

definition embedded4 :: "nat list \<Rightarrow> nat list option" where
  \<comment> \<open>the IPv4 address carried by a 16-byte address: IPv4-mapped \<open>::ffff:0:0/96\<close>, NAT64
    \<open>64:ff9b::/96\<close>, IPv4-compatible \<open>::/96\<close>, 6to4 \<open>2002::/16\<close>\<close>
  "embedded4 n =
    (if take 12 n \<in> {replicate 10 0 @ [255, 255], [0, 100, 255, 155, 0, 0, 0, 0, 0, 0, 0, 0], replicate 12 0}
     then Some (drop 12 n)
     else if take 2 n = [32, 2] then Some (slice n 2 4)
     else None)"

definition blocked_octets :: "nat list \<Rightarrow> bool" where
  "blocked_octets v \<longleftrightarrow> blocked4 (v ! 0) (v ! 1) (v ! 2) (v ! 3)"

definition blocked_native6 :: "nat list \<Rightarrow> bool" where
  \<comment> \<open>unique-local \<open>fc00::/7\<close>, link-local \<open>fe80::/10\<close>, multicast \<open>ff00::/8\<close>\<close>
  "blocked_native6 n \<longleftrightarrow>
     n ! 0 = 252 \<or> n ! 0 = 253 \<or> (n ! 0 = 254 \<and> 128 \<le> n ! 1 \<and> n ! 1 \<le> 191) \<or> n ! 0 = 255"

definition blocked_ip :: "ip \<Rightarrow> bool" where
  "blocked_ip ip =
    (case ip of
       None \<Rightarrow> True
     | Some bs \<Rightarrow>
         let n = map unat bs
         in if length n = 4 then blocked_octets n
            else if length n = 16
            then (case embedded4 n of Some v \<Rightarrow> blocked_octets v | None \<Rightarrow> blocked_native6 n)
            else True)"

lemma byte_numeral_iff:
  fixes b :: byte
  assumes "numeral k < (256 :: nat)"
  shows "unat b = numeral k \<longleftrightarrow> b = numeral k"
proof -
  have "unat (numeral k :: byte) = numeral k"
    using unat_of_nat_small [of "numeral k", where ?'a = 8] assms by simp
  then show ?thesis by (metis word_unat_eq_iff)
qed

lemma unique_local_byte: "b AND 0xfe = 0xfc \<longleftrightarrow> unat b = 252 \<or> unat b = 253" for b :: byte
proof -
  have "b AND push_bit 1 (NOT 0) = 0xfc \<longleftrightarrow> unat b div 2 = 126"
    using and_high_mask [of b 1] by (auto simp: word_unat_eq_iff)
  moreover have "push_bit 1 (NOT 0) = (0xfe :: byte)" by code_simp
  ultimately show ?thesis by (simp only:) auto
qed

lemma link_local_byte: "b AND 0xc0 = 0x80 \<longleftrightarrow> 128 \<le> unat b \<and> unat b \<le> 191" for b :: byte
proof -
  have "b AND push_bit 6 (NOT 0) = 0x80 \<longleftrightarrow> unat b div 64 = 2"
    using and_high_mask [of b 6] by (auto simp: word_unat_eq_iff)
  moreover have "push_bit 6 (NOT 0) = (0xc0 :: byte)" by code_simp
  ultimately show ?thesis by (simp only:) auto
qed

lemma list4:
  assumes "length xs = 4"
  obtains a b c d where "xs = [a, b, c, d]"
  using assms by (auto simp: numeral_eq_Suc length_Suc_conv)

lemma ipv4Blocked_list:
  assumes "length v = 4"
  shows "ipv4Blocked (be_u32 v) \<longleftrightarrow> blocked_octets (map unat v)"
proof -
  from assms obtain a b c d where "v = [a, b, c, d]" by (rule list4)
  then show ?thesis by (simp add: ipv4Blocked_octets blocked_octets_def)
qed

lemma map_unat_eq_iff: "map unat xs = map unat ys \<longleftrightarrow> xs = (ys :: byte list)"
  by (intro inj_map_eq_map inj_onI) (simp add: word_unat_eq_iff)

lemma unat_prefix_values:
  "map unat v4InV6Prefix = replicate 10 0 @ [255, 255]"
  "map unat nat64_prefix = [0, 100, 255, 155, 0, 0, 0, 0, 0, 0, 0, 0]"
  "map unat (replicate 12 (0 :: byte)) = replicate 12 0"
  "map unat [0x20 :: byte, 0x02] = [32, 2]"
  by (simp_all add: v4InV6Prefix_def nat64_prefix_def)

lemma prefix_distinct:
  "v4InV6Prefix \<noteq> nat64_prefix" "replicate 12 0 \<noteq> v4InV6Prefix" "replicate 12 0 \<noteq> nat64_prefix"
proof -
  have "v4InV6Prefix ! 1 \<noteq> nat64_prefix ! 1" "replicate 12 0 ! 10 \<noteq> v4InV6Prefix ! 10"
    "replicate 12 0 ! 1 \<noteq> nat64_prefix ! 1"
    by (simp_all add: v4InV6Prefix_def nat64_prefix_def nth_append)
  then show "v4InV6Prefix \<noteq> nat64_prefix" "replicate 12 0 \<noteq> v4InV6Prefix" "replicate 12 0 \<noteq> nat64_prefix"
    by metis+
qed

lemma unat_prefixes:
  "take 12 (map unat bs) = replicate 10 0 @ [255, 255] \<longleftrightarrow> take 12 bs = v4InV6Prefix"
  "take 12 (map unat bs) = [0, 100, 255, 155, 0, 0, 0, 0, 0, 0, 0, 0] \<longleftrightarrow> take 12 bs = nat64_prefix"
  "take 12 (map unat bs) = replicate 12 0 \<longleftrightarrow> take 12 bs = replicate 12 0"
  "take 2 (map unat bs) = [32, 2] \<longleftrightarrow> take 2 bs = [0x20, 0x02]"
  using map_unat_eq_iff [of "take 12 bs" v4InV6Prefix] map_unat_eq_iff [of "take 12 bs" nat64_prefix]
    map_unat_eq_iff [of "take 12 bs" "replicate 12 0"] map_unat_eq_iff [of "take 2 bs" "[0x20, 0x02]"]
  unfolding take_map unat_prefix_values by simp_all

lemma all_zero_iff: "all_zero bs \<longleftrightarrow> bs = replicate (length bs) 0"
  by (induction bs) (auto simp: all_zero_def)

lemma proxyIPBlocked_16:
  assumes len: "length bs = 16"
  shows "proxyIPBlocked (Some bs) \<longleftrightarrow>
    (case embedded4 (map unat bs) of Some v \<Rightarrow> blocked_octets v | None \<Rightarrow> blocked_native6 (map unat bs))"
proof -
  let ?p = "take 12 bs"
  have p: "length ?p = 12" and last4: "length (drop 12 bs) = 4" "slice bs 12 4 = drop 12 bs"
    and mid4: "length (slice bs 2 4) = 4" and bs: "bs = ?p @ drop 12 bs"
    using len by (simp_all add: slice_def)
  have tail: "ipv4Blocked (be_u32 (drop 12 bs)) = blocked_octets (drop 12 (map unat bs))"
    "ipv4Blocked (be_u32 (slice bs 2 4)) = blocked_octets (slice (map unat bs) 2 4)"
    using ipv4Blocked_list [OF last4(1)] ipv4Blocked_list [OF mid4] by (simp_all add: drop_map slice_def take_map)
  have two: "bs ! 0 = 0x20 \<and> bs ! 1 = 0x02 \<longleftrightarrow> take 2 bs = [0x20, 0x02]"
    using len by (auto simp: numeral_2_eq_2 take_Suc_conv_app_nth)
  have native: "bs ! 0 AND 0xfe = 0xfc \<or> (bs ! 0 = 0xfe \<and> bs ! 1 AND 0xc0 = 0x80) \<or> bs ! 0 = 0xff \<longleftrightarrow>
      blocked_native6 (map unat bs)"
    using len byte_numeral_iff [of _ "bs ! 0"]
    by (auto simp: blocked_native6_def unique_local_byte link_local_byte)
  consider (mapped) "?p = v4InV6Prefix" | (nat64) "?p = nat64_prefix" | (compat) "?p = replicate 12 0"
    | (other) "?p \<noteq> v4InV6Prefix" "?p \<noteq> nat64_prefix" "?p \<noteq> replicate 12 0" by blast
  then show ?thesis
  proof cases
    case mapped
    then show ?thesis
      using len tail by (simp add: proxyIPBlocked_def To4_def embedded4_def unat_prefixes)
  next
    case nat64
    then have "To4 bs = None" using prefix_distinct by (simp add: To4_def len)
    with nat64 show ?thesis
      using len tail last4 by (simp add: proxyIPBlocked_def To16_def embedded4_def unat_prefixes Let_def)
  next
    case compat
    then have To4: "To4 bs = None" using prefix_distinct by (simp add: To4_def len)
    have emb: "embedded4 (map unat bs) = Some (drop 12 (map unat bs))"
      using compat by (simp add: embedded4_def unat_prefixes)
    obtain w x y z where d: "drop 12 bs = [w, x, y, z]"
      using last4(1) by (rule list4)
    have idx: "bs ! 12 = w" "bs ! 13 = x" "bs ! 14 = y" "bs ! 15 = z"
      using nth_drop [of 12 bs 0] nth_drop [of 12 bs 1] nth_drop [of 12 bs 2] nth_drop [of 12 bs 3] len
      by (simp_all add: d)
    have zero: "all_zero ?p" using compat by (simp add: all_zero_iff)
    show ?thesis
    proof (cases "w OR x OR y OR z = 0")
      case False
      then show ?thesis
        using len zero idx tail(1) last4 emb
        by (simp add: proxyIPBlocked_def To4 To16_def Let_def)
    next
      case True
      then have wz: "w = 0" "x = 0" "y = 0" "z = 0" by (auto simp: or_eq_0_iff)
      then have "drop 12 bs = replicate 4 0" using d by (simp add: numeral_eq_Suc)
      then have "bs = replicate 12 0 @ replicate 4 0" using bs compat by metis
      then have "bs = replicate 16 0" by (simp flip: replicate_add)
      then have "proxyIPBlocked (Some bs)"
        using To4 by (simp add: proxyIPBlocked_def To16_def Let_def prefix_distinct all_zero_iff)
      moreover have "blocked_octets (drop 12 (map unat bs))"
        by (simp add: drop_map d wz blocked_octets_def blocked4_def)
      ultimately show ?thesis by (simp add: emb)
    qed
  next
    case other
    then have "To4 bs = None" by (simp add: To4_def len)
    moreover have "\<not> all_zero ?p" using other p by (simp add: all_zero_iff)
    moreover have "\<not> all_zero (take 15 bs)"
      using calculation(2) by (auto simp: all_zero_def list_all_iff dest: set_take_subset_set_take [of 12 15, THEN subsetD, simplified])
    ultimately show ?thesis
      using len tail other two native
      by (simp add: proxyIPBlocked_def To16_def embedded4_def unat_prefixes Let_def)
  qed
qed

section \<open>Properties of the address policy\<close>

text \<open>The IPv4 table blocks exactly the addresses that are not publicly routable, octet by
  octet: this-network, private, carrier-grade NAT, loopback, link-local, IETF protocol
  assignments, the three documentation networks, benchmarking, multicast and reserved.
\<close>

theorem ipv4Blocked_spec:
  "ipv4Blocked (be_u32 [a, b, c, d]) \<longleftrightarrow> blocked4 (unat a) (unat b) (unat c) (unat d)"
  by (rule ipv4Blocked_octets)

lemma proxyIPBlocked_iff: "proxyIPBlocked ip \<longleftrightarrow> blocked_ip ip"
proof (cases ip)
  case (Some bs)
  consider "length bs = 4" | "length bs = 16" | "length bs \<noteq> 4" "length bs \<noteq> 16" by blast
  then show ?thesis
  proof cases
    case 1
    then show ?thesis
      by (simp add: Some proxyIPBlocked_def To4_def blocked_ip_def ipv4Blocked_list)
  next
    case 2
    then show ?thesis by (simp add: Some proxyIPBlocked_16 blocked_ip_def Let_def)
  next
    case 3
    then show ?thesis by (simp add: Some proxyIPBlocked_def To4_def To16_def blocked_ip_def)
  qed
qed (simp add: proxyIPBlocked_def blocked_ip_def)

text \<open>
  \<open>proxyIPBlocked\<close> decides the policy of the documentation on every value of type
  \<open>net.IP\<close>: a missing or malformed address is blocked, an IPv4 address by its octets, an
  IPv6 address that carries an IPv4 one (mapped, compatible, NAT64, 6to4) by the embedded
  octets, so a private IPv4 address cannot be smuggled through, and any other IPv6 address
  exactly when it is unique-local, link-local or multicast.
\<close>

theorem proxyIPBlocked_spec: "proxyIPBlocked ip \<longleftrightarrow> blocked_ip ip"
  by (rule proxyIPBlocked_iff)

end
