(* ===== verification/Proxy_Policy.thy ===== *)
theory Proxy_Policy
  imports Go_Strings Proxy_Address
begin

text \<open>
  The request policy of \<open>server-go/modules/sandbox/proxy_policy.go\<close>: matching a host against
  an allowlist, classifying the request line of a proxy request, and rewriting an
  absolute-form request head. Strings are byte strings; an index loop over a string is a
  recursion over the bytes it visits. A pair \<open>(value, ok)\<close> is an option.
\<close>

section \<open>Hosts and the allowlist\<close>

definition ProxyRequestInvalid :: nat where [simp]: "ProxyRequestInvalid = 0"
definition ProxyRequestAPI :: nat where [simp]: "ProxyRequestAPI = 1"
definition ProxyRequestConnect :: nat where [simp]: "ProxyRequestConnect = 2"
definition ProxyRequestAbsolute :: nat where [simp]: "ProxyRequestAbsolute = 3"
definition proxyHostMax :: nat where [simp]: "proxyHostMax = 256"

definition DefaultPackageAllowlist :: string where
  "DefaultPackageAllowlist = ''deb.debian.org,security.debian.org,*.archive.ubuntu.com,'' @
     ''security.ubuntu.com,registry.npmjs.org,pypi.org,files.pythonhosted.org''"

definition lowerASCII :: "char \<Rightarrow> char" where
  "lowerASCII value = (if value \<ge> CHR ''A'' \<and> value \<le> CHR ''Z'' then char_of (ord value + 32) else value)"

fun fold_equal_at :: "nat list \<Rightarrow> string \<Rightarrow> string \<Rightarrow> bool" where
  "fold_equal_at [] left right = True"
| "fold_equal_at (index # rest) left right =
    (let a = lowerASCII (left ! index); b = lowerASCII (right ! index)
     in if a \<noteq> b then False else fold_equal_at rest left right)"

definition equalFoldASCII :: "string \<Rightarrow> string \<Rightarrow> bool" where
  "equalFoldASCII left right =
    (if length left \<noteq> length right then False
     else fold_equal_at (range_indices left) left right)"

definition allowlist_separator :: "char \<Rightarrow> bool" where
  "allowlist_separator c \<longleftrightarrow> c = CHR '','' \<or> c = CHR '' '' \<or> c = CHR 0x09 \<or> c = CHR 0x0A \<or> c = CHR 0x0D"

fun host_in_entries :: "string \<Rightarrow> string list \<Rightarrow> bool" where
  "host_in_entries host [] = False"
| "host_in_entries host (entry # entries) =
    (if HasPrefix entry ''*.'' then
       (let suffix = drop 2 entry
        in if suffix = [] \<or> length suffix \<ge> proxyHostMax then host_in_entries host entries
           else if equalFoldASCII host suffix \<or>
             (length host > length suffix + 1 \<and>
              host ! (length host - length suffix - 1) = CHR ''.'' \<and>
              equalFoldASCII (drop (length host - length suffix) host) suffix) then True
           else host_in_entries host entries)
     else if equalFoldASCII host entry then True
     else host_in_entries host entries)"

definition proxyHostAllowed :: "string \<Rightarrow> string \<Rightarrow> bool" where
  "proxyHostAllowed host allowlist =
    (if host = [] \<or> allowlist = [] then False
     else host_in_entries host (FieldsFunc allowlist allowlist_separator))"

definition forbidden_in_host :: "char \<Rightarrow> bool" where
  "forbidden_in_host c \<longleftrightarrow>
     c \<in> {CHR ''/'', CHR '' '', CHR 0x0D, CHR 0x0A, CHR ''@'', CHR 0x00}"

fun copy_host :: "bool \<Rightarrow> string \<Rightarrow> string \<Rightarrow> nat list \<Rightarrow> string option" where
  \<comment> \<open>the loop over \<open>value\<close>, with the remaining indices and the result so far\<close>
  "copy_host bracketed value result [] = Some result"
| "copy_host bracketed value result (index # rest) =
    (let current = value ! index
     in if bracketed \<and> (current = CHR ''['' \<or> current = CHR '']'') then copy_host bracketed value result rest
        else if forbidden_in_host current then None
        else if length result + 1 \<ge> proxyHostMax then None
        else copy_host bracketed value (result @ [lowerASCII current]) rest)"

definition copyProxyHost :: "string \<Rightarrow> string option" where
  "copyProxyHost value =
    (if length value = 0 \<or> length value \<ge> proxyHostMax then None
     else case copy_host (value ! 0 = CHR ''['') value [] (range_indices value) of
       None \<Rightarrow> None
     | Some result \<Rightarrow> if length result > 0 then Some result else None)"

section \<open>The request line\<close>

fun parse_port :: "string \<Rightarrow> int \<Rightarrow> nat list \<Rightarrow> int option" where
  "parse_port value port [] = Some port"
| "parse_port value port (index # rest) =
    (if value ! index < CHR ''0'' \<or> value ! index > CHR ''9'' then None
     else let port = port * 10 + int (ord (value ! index) - 48)
          in if port > 65535 then None else parse_port value port rest)"

definition parseProxyPort :: "string \<Rightarrow> int option" where
  "parseProxyPort value =
    (if value = [] then None
     else case parse_port value 0 (range_indices value) of
       None \<Rightarrow> None
     | Some port \<Rightarrow> if port \<noteq> 0 then Some port else None)"

definition version_ok :: "string \<Rightarrow> bool" where
  "version_ok version \<longleftrightarrow>
     \<not> (length version < 8 \<or> take 7 version \<noteq> ''HTTP/1.'' \<or>
       (version ! 7 \<noteq> CHR ''0'' \<and> version ! 7 \<noteq> CHR ''1'') \<or>
       (length version > 8 \<and> version ! 8 \<noteq> CHR 0x00 \<and> version ! 8 \<noteq> CHR 0x0D \<and>
        version ! 8 \<noteq> CHR 0x0A \<and> version ! 8 \<noteq> CHR '' ''))"

definition invalid_request :: "nat \<times> string \<times> int" where
  "invalid_request = (ProxyRequestInvalid, [], 0)"

definition classify_connect :: "string \<Rightarrow> nat \<times> string \<times> int" where
  "classify_connect target =
    (case LastIndexByte target CHR '':'' of
       None \<Rightarrow> invalid_request
     | Some colon \<Rightarrow>
        if colon = 0 then invalid_request
        else case parseProxyPort (drop (colon + 1) target) of
          None \<Rightarrow> invalid_request
        | Some port \<Rightarrow>
           (case copyProxyHost (take colon target) of
              None \<Rightarrow> invalid_request
            | Some host \<Rightarrow> (ProxyRequestConnect, host, port)))"

definition classify_absolute :: "string \<Rightarrow> nat \<times> string \<times> int" where
  "classify_absolute authority =
    (let hostLen = length (takeWhile (\<lambda>c. c \<noteq> CHR ''/'' \<and> c \<noteq> CHR '':'') authority);
         port = (if hostLen < length authority \<and> authority ! hostLen = CHR '':''
                 then parseProxyPort (takeWhile (\<lambda>c. c \<noteq> CHR ''/'') (drop (hostLen + 1) authority))
                 else Some 80)
     in case port of
          None \<Rightarrow> invalid_request
        | Some port \<Rightarrow>
           (case copyProxyHost (take hostLen authority) of
              None \<Rightarrow> invalid_request
            | Some host \<Rightarrow> (ProxyRequestAbsolute, host, port)))"

definition classifyProxyRequestLine :: "string \<Rightarrow> nat \<times> string \<times> int" where
  "classifyProxyRequestLine line =
    (case IndexByte line CHR '' '' of
       None \<Rightarrow> invalid_request
     | Some firstSpace \<Rightarrow>
        if firstSpace = 0 then invalid_request
        else let targetStart = firstSpace + 1
        in case IndexByte (drop targetStart line) CHR '' '' of
          None \<Rightarrow> invalid_request
        | Some secondRelative \<Rightarrow>
           if secondRelative = 0 then invalid_request
           else
             let secondSpace = targetStart + secondRelative;
                 target = slice line targetStart (secondSpace - targetStart);
                 version = drop (secondSpace + 1) line;
                 method = take firstSpace line
             in if \<not> version_ok version then invalid_request
                else if method = ''CONNECT'' then classify_connect target
                else if HasPrefix target ''/'' then (ProxyRequestAPI, [], 0)
                else if length target \<le> 7 \<or> \<not> HasPrefix target ''http://'' then invalid_request
                else classify_absolute (drop 7 target))"

section \<open>Rewriting an absolute-form head\<close>

definition proxyHeaderShouldStrip :: "(nat \<Rightarrow> nat) \<Rightarrow> string \<Rightarrow> bool" where
  "proxyHeaderShouldStrip uni name \<longleftrightarrow>
     ToLower uni name \<in> {''connection'', ''proxy-connection'', ''keep-alive'', ''transfer-encoding'', ''te'',
       ''trailer'', ''upgrade'', ''authorization'', ''proxy-authorization'', ''cookie''}"

definition validProxyHeaderName :: "string \<Rightarrow> bool" where
  "validProxyHeaderName name \<longleftrightarrow>
     name \<noteq> [] \<and>
     list_all (\<lambda>index. \<not> (ord (name ! index) \<le> 0x20 \<or> ord (name ! index) = 0x7f)) (range_indices name)"

definition CRLF :: string where [simp]: "CRLF = [CHR 0x0D, CHR 0x0A]"

fun add_options :: "(nat \<Rightarrow> nat) \<Rightarrow> string list \<Rightarrow> string set \<Rightarrow> string set option" where
  "add_options uni [] connectionHeaders = Some connectionHeaders"
| "add_options uni (option # options) connectionHeaders =
    (let option = TrimSpace option
     in if \<not> validProxyHeaderName option then None
        else add_options uni options (insert (ToLower uni option) connectionHeaders))"

definition next_line :: "string \<Rightarrow> string" where
  \<comment> \<open>up to and including the next line feed\<close>
  "next_line remaining =
    (case IndexByte remaining CHR 0x0A of Some i \<Rightarrow> take (i + 1) remaining | None \<Rightarrow> remaining)"

lemma next_line_pos: "remaining \<noteq> [] \<Longrightarrow> 0 < length (next_line remaining)"
  by (auto simp: next_line_def split: option.splits)

function read_headers :: "(nat \<Rightarrow> nat) \<Rightarrow> string \<Rightarrow> string list \<Rightarrow> string set \<Rightarrow>
    (string list \<times> string set) option" where
  "read_headers uni remaining headers connectionHeaders =
    (if length remaining = 0 then Some (headers, connectionHeaders)
     else
       let line = next_line remaining
       in if length line \<le> 2 then Some (headers, connectionHeaders)
          else case IndexByte line CHR '':'' of
            None \<Rightarrow> None
          | Some colon \<Rightarrow>
             if colon = 0 \<or> \<not> validProxyHeaderName (take colon line) then None
             else
               let name = ToLower uni (take colon line);
                   nominated = (if name = ''connection'' \<or> name = ''proxy-connection''
                      then add_options uni
                        (Split (TrimRight (drop (colon + 1) line) CRLF) CHR '','') connectionHeaders
                      else Some connectionHeaders)
               in case nominated of
                    None \<Rightarrow> None
                  | Some connectionHeaders \<Rightarrow>
                      read_headers uni (drop (length line) remaining) (headers @ [line]) connectionHeaders)"
  by pat_completeness auto
termination
proof (relation "measure (\<lambda>(uni, remaining, headers, conn). length remaining)")
  fix uni remaining headers conn line a nm nom conn'
  assume "length (remaining :: string) \<noteq> 0" "line = next_line remaining"
  then show "((uni, drop (length line) remaining, headers @ [line], conn'), uni, remaining, headers, conn)
      \<in> measure (\<lambda>(uni, remaining, headers, conn). length remaining)"
    using next_line_pos [of remaining] by simp
qed simp

declare read_headers.simps [simp del]

definition header_name :: "(nat \<Rightarrow> nat) \<Rightarrow> string \<Rightarrow> string" where
  "header_name uni line = ToLower uni (take (the (IndexByte line CHR '':'')) line)"

definition header_kept :: "(nat \<Rightarrow> nat) \<Rightarrow> string set \<Rightarrow> string \<Rightarrow> bool" where
  \<comment> \<open>the second loop: \<open>name\<close> is lower-cased before \<open>proxyHeaderShouldStrip\<close> lower-cases it again\<close>
  "header_kept uni connectionHeaders line \<longleftrightarrow>
     \<not> proxyHeaderShouldStrip uni (header_name uni line) \<and> header_name uni line \<notin> connectionHeaders"

definition rewriteProxyHead :: "(nat \<Rightarrow> nat) \<Rightarrow> string \<Rightarrow> string option" where
  "rewriteProxyHead uni head =
    (case IndexByte head CHR 0x0A of
       None \<Rightarrow> None
     | Some eol \<Rightarrow>
     (case IndexByte (take eol head) CHR '' '' of
       None \<Rightarrow> None
     | Some firstSpace \<Rightarrow>
     (case IndexByte (slice head (firstSpace + 1) (eol - (firstSpace + 1))) CHR '' '' of
       None \<Rightarrow> None
     | Some secondRelative \<Rightarrow>
        let secondSpace = firstSpace + 1 + secondRelative;
            target = slice head (firstSpace + 1) (secondSpace - (firstSpace + 1))
        in if \<not> HasPrefix target ''http://'' then None
           else
             let pathStart = 7 + length (takeWhile (\<lambda>c. c \<noteq> CHR ''/'') (drop 7 target));
                 path = (if pathStart < length target then drop pathStart target else ''/'');
                 version = TrimSuffix (slice head (secondSpace + 1) (eol - (secondSpace + 1))) [CHR 0x0D]
             in if length version < 8 then None
                else case read_headers uni (drop (eol + 1) head) [] {} of
                  None \<Rightarrow> None
                | Some (headers, connectionHeaders) \<Rightarrow>
                   Some (take firstSpace head @ '' '' @ path @ '' '' @ take 8 version @ CRLF @
                     concat (filter (header_kept uni connectionHeaders) headers) @
                     ''Connection: close'' @ CRLF @ CRLF))))"

section \<open>Index loops over a string\<close>

lemma rune_width_cont:
  assumes "Suc i < rune_width (c # s)"
  shows "i < length s \<and> cont (s ! i)"
proof -
  have n: "i = 0 \<or> i = 1 \<or> i = 2" if "Suc i < w" "w \<le> 4" for w using that by auto
  show ?thesis
    using assms n [of 2] n [of 3] n [of 4]
    by (auto simp: rune_width_def Let_def cont_def split: if_splits list.splits)
qed

lemma range_from_skipped:
  assumes "\<forall>i < skip. i < length s \<longrightarrow> cont (s ! i)" and "j < length s" and "k + j \<notin> set (range_from k skip s)"
  shows "cont (s ! j)"
  using assms
proof (induction k skip s arbitrary: j rule: range_from.induct)
  case (2 i c s)
  then obtain j' where j: "j = Suc j'" by (cases j) auto
  have "\<forall>a < rune_width (c # s) - 1. a < length s \<longrightarrow> cont (s ! a)"
    using rune_width_cont [of _ c s] by auto
  with 2 j show ?case by simp
next
  case (3 i skip c s)
  have "\<forall>a < skip. a < length s \<longrightarrow> cont (s ! a)"
  proof (intro allI impI)
    fix a assume "a < skip" "a < length s"
    then show "cont (s ! a)" using 3(2) [THEN spec, of "Suc a"] by simp
  qed
  then show ?case using 3 by (cases j) (auto simp: cont_def)
qed simp

lemma not_visited_cont:
  "j < length s \<Longrightarrow> j \<notin> set (range_indices s) \<Longrightarrow> cont (s ! j)"
  using range_from_skipped [of 0 s j 0] by (simp add: range_indices_def)

lemma visited_all:
  assumes "\<And>c. cont c \<Longrightarrow> P c"
  shows "(\<forall>i \<in> set (range_indices s). P (s ! i)) \<longleftrightarrow> (\<forall>c \<in> set s. P c)"
proof
  assume v: "\<forall>i \<in> set (range_indices s). P (s ! i)"
  show "\<forall>c \<in> set s. P c"
  proof
    fix c assume "c \<in> set s"
    then obtain i where "i < length s" "c = s ! i" by (auto simp: in_set_conv_nth)
    then show "P c" using v not_visited_cont [of i s] assms by (cases "i \<in> set (range_indices s)") auto
  qed
qed (auto dest: range_indices_bound)

lemma ascii_if_visited:
  "\<forall>i \<in> set (range_from k 0 s). ord (s ! (i - k)) < 0x80 \<Longrightarrow> ascii s"
proof (induction s arbitrary: k)
  case (Cons c s)
  from Cons.prems have c: "ord c < 0x80" by (auto simp del: decode_rune.simps)
  then have r: "range_from k 0 (c # s) = k # range_from (Suc k) 0 s" by (simp add: rune_width_def)
  have "ord (s ! (i - Suc k)) < 0x80" if "i \<in> set (range_from (Suc k) 0 s)" for i
  proof -
    have "Suc k \<le> i" using range_from_bound [OF that] by simp
    then have "(c # s) ! (i - k) = s ! (i - Suc k)" by (simp add: nth_Cons')
    with that Cons.prems r show ?thesis by (metis list.set_intros(2))
  qed
  then have "ascii s" by (intro Cons.IH [of "Suc k"]) blast
  with c show ?case by simp
qed simp

lemma validProxyHeaderName_iff:
  "validProxyHeaderName name \<longleftrightarrow> name \<noteq> [] \<and> (\<forall>c \<in> set name. 0x20 < ord c \<and> ord c \<noteq> 0x7f)"
  using visited_all [of "\<lambda>c. 0x20 < ord c \<and> ord c \<noteq> 0x7f" name]
  by (auto simp: validProxyHeaderName_def list_all_iff cont_def not_le)

section \<open>Facts about hosts\<close>

lemma lowerASCII_eq: "lowerASCII = lower_byte"
  by (rule ext) (simp add: lowerASCII_def lower_byte_def)

lemma fold_equal_at_iff:
  "fold_equal_at idx l r \<longleftrightarrow> (\<forall>i \<in> set idx. lower_byte (l ! i) = lower_byte (r ! i))"
  by (induction idx) (auto simp: lowerASCII_eq Let_def)

lemma equalFoldASCII_iff:
  "equalFoldASCII l r \<longleftrightarrow> length l = length r \<and>
     (\<forall>i \<in> set (range_indices l). lower_byte (l ! i) = lower_byte (r ! i))"
  by (auto simp: equalFoldASCII_def fold_equal_at_iff)

lemma equalFoldASCII_ascii:
  assumes "ascii l"
  shows "equalFoldASCII l r \<longleftrightarrow> map lower_byte l = map lower_byte r"
proof -
  have "map lower_byte l = map lower_byte r \<longleftrightarrow>
      length l = length r \<and> (\<forall>i < length l. map lower_byte l ! i = map lower_byte r ! i)"
    using list_eq_iff_nth_eq [of "map lower_byte l" "map lower_byte r"] by simp
  also have "\<dots> \<longleftrightarrow> length l = length r \<and> (\<forall>i < length l. lower_byte (l ! i) = lower_byte (r ! i))"
    by auto
  finally show ?thesis using assms by (auto simp: equalFoldASCII_iff range_indices_ascii)
qed

definition entry_matches :: "string \<Rightarrow> string \<Rightarrow> bool" where
  \<comment> \<open>an exact entry, or \<open>*.suffix\<close> for the suffix itself and every host one label or more below\<close>
  "entry_matches host entry \<longleftrightarrow>
     (if HasPrefix entry ''*.''
      then drop 2 entry \<noteq> [] \<and> length (drop 2 entry) < 256 \<and>
        (map lower_byte host = map lower_byte (drop 2 entry) \<or>
         (\<exists>label. label \<noteq> [] \<and> map lower_byte host = label @ ''.'' @ map lower_byte (drop 2 entry)))
      else map lower_byte host = map lower_byte entry)"

lemma lower_byte_eq_iff:
  assumes "\<not> (65 \<le> ord c \<and> ord c \<le> 90)" and "\<not> (97 \<le> ord c \<and> ord c \<le> 122)"
  shows "lower_byte x = c \<longleftrightarrow> x = c"
proof -
  have "ord (lower_byte x) = ord c \<longleftrightarrow> ord x = ord c"
    using assms by (auto simp: lower_byte_simps)
  then show ?thesis by (simp only: ord_eq_iff)
qed

lemma wildcard_test:
  assumes "ascii host" and "sfx \<noteq> []"
  shows "length host > length sfx + 1 \<and> host ! (length host - length sfx - 1) = CHR ''.'' \<and>
      equalFoldASCII (drop (length host - length sfx) host) sfx \<longleftrightarrow>
    (\<exists>label. label \<noteq> [] \<and> map lower_byte host = label @ ''.'' @ map lower_byte sfx)"
    (is "?l \<longleftrightarrow> ?r")
proof
  assume l: ?l
  define k where "k = length host - length sfx - 1"
  define pre post where "pre = take k host" and "post = drop (Suc k) host"
  have k: "0 < k" "k < length host" "length host - length sfx = Suc k"
    using l by (auto simp: k_def)
  have "host = pre @ CHR ''.'' # post"
    using l id_take_nth_drop [OF k(2)] by (simp add: pre_def post_def k_def)
  moreover have "map lower_byte post = map lower_byte sfx"
  proof -
    have "ascii post" using assms(1) by (auto simp: post_def ascii_iff dest: in_set_dropD)
    with l k(3) show ?thesis by (simp add: equalFoldASCII_ascii post_def)
  qed
  moreover have "lower_byte CHR ''.'' = CHR ''.''" by (simp add: lower_byte_def ord_le_iff)
  moreover have "pre \<noteq> []" using k by (auto simp: pre_def)
  ultimately show ?r by (intro exI [of _ "map lower_byte pre"]) simp
next
  assume ?r
  then obtain label where lb: "label \<noteq> []" "map lower_byte host = label @ ''.'' @ map lower_byte sfx"
    by blast
  then have len: "length host = length label + 1 + length sfx"
    by (metis length_map length_append list.size(3,4) add.assoc One_nat_def plus_1_eq_Suc add.commute)
  have "map lower_byte host ! length label = CHR ''.''" by (simp add: lb nth_append)
  then have "host ! length label = CHR ''.''" using len by (simp add: lower_byte_eq_iff)
  moreover have "drop (Suc (length label)) (map lower_byte host) = map lower_byte sfx" by (simp add: lb)
  then have "map lower_byte (drop (Suc (length label)) host) = map lower_byte sfx" by (simp add: drop_map)
  moreover have "ascii (drop (Suc (length label)) host)"
    using assms(1) by (auto simp: ascii_iff dest: in_set_dropD)
  ultimately show ?l using len lb(1) by (simp add: equalFoldASCII_ascii)
qed

lemma host_in_entries_step:
  assumes "ascii host"
  shows "host_in_entries host (e # es) \<longleftrightarrow> entry_matches host e \<or> host_in_entries host es"
proof (cases "HasPrefix e ''*.''")
  case True
  define sfx where "sfx = drop 2 e"
  show ?thesis
  proof (cases "sfx = [] \<or> length sfx \<ge> proxyHostMax")
    case True
    then show ?thesis
      using \<open>HasPrefix e ''*.''\<close> by (auto simp add: entry_matches_def simp flip: sfx_def)
  next
    case False
    then have s: "sfx \<noteq> []" "length sfx < 256" by auto
    have "entry_matches host e \<longleftrightarrow> equalFoldASCII host sfx \<or>
        (\<exists>label. label \<noteq> [] \<and> map lower_byte host = label @ ''.'' @ map lower_byte sfx)"
      using \<open>HasPrefix e ''*.''\<close> s by (simp add: entry_matches_def equalFoldASCII_ascii assms flip: sfx_def)
    then show ?thesis
      using \<open>HasPrefix e ''*.''\<close> s wildcard_test [OF assms s(1)]
      by (simp add: Let_def flip: sfx_def) blast
  qed
next
  case False
  then show ?thesis by (simp add: entry_matches_def equalFoldASCII_ascii assms)
qed

lemma host_in_entries_iff:
  "ascii host \<Longrightarrow> host_in_entries host entries \<longleftrightarrow> (\<exists>e \<in> set entries. entry_matches host e)"
  by (induction entries) (simp_all add: host_in_entries_step del: host_in_entries.simps(2))

section \<open>Facts about host text and ports\<close>

definition host_ok :: "string \<Rightarrow> bool" where
  \<comment> \<open>what the caller may rely on: a lower-case name without delimiters, within the bound\<close>
  "host_ok host \<longleftrightarrow> host \<noteq> [] \<and> length host < 256 \<and>
     (\<forall>c \<in> set host. \<not> forbidden_in_host c \<and> \<not> (CHR ''A'' \<le> c \<and> c \<le> CHR ''Z''))"

definition host_bytes :: "string \<Rightarrow> string" where
  \<comment> \<open>the bytes \<open>copyProxyHost\<close> looks at: rune starts, without the brackets of \<open>[...]\<close>\<close>
  "host_bytes v =
    filter (\<lambda>c. \<not> (v ! 0 = CHR ''['' \<and> (c = CHR ''['' \<or> c = CHR '']'')))
      (map (nth v) (range_indices v))"

definition host_text :: "string \<Rightarrow> string \<Rightarrow> bool" where
  \<comment> \<open>the text \<open>h\<close> of less than 256 bytes names the host: no delimiter in it, brackets dropped,
    letters in lower case\<close>
  "host_text h host \<longleftrightarrow>
     length h < 256 \<and> set h \<inter> {CHR ''/'', CHR '' '', CHR 0x0D, CHR 0x0A, CHR ''@'', CHR 0x00} = {} \<and>
     host = map lower_byte (host_bytes h) \<and> host \<noteq> []"

lemma copy_host_iff:
  "copy_host b v res idx = Some r \<longleftrightarrow>
    (let kept = filter (\<lambda>c. \<not> (b \<and> (c = CHR ''['' \<or> c = CHR '']''))) (map (nth v) idx)
     in (\<forall>c \<in> set kept. \<not> forbidden_in_host c) \<and> (kept = [] \<or> length res + length kept < 256) \<and>
        r = res @ map lower_byte kept)"
proof (induction idx arbitrary: res)
  case (Cons i idx)
  show ?case
  proof (cases "b \<and> (v ! i = CHR ''['' \<or> v ! i = CHR '']'')")
    case True
    then have "copy_host b v res (i # idx) = copy_host b v res idx" by (simp add: Let_def)
    moreover have "filter (\<lambda>c. \<not> (b \<and> (c = CHR ''['' \<or> c = CHR '']''))) (map (nth v) (i # idx)) =
        filter (\<lambda>c. \<not> (b \<and> (c = CHR ''['' \<or> c = CHR '']''))) (map (nth v) idx)"
      using True by simp
    ultimately show ?thesis using Cons [of res] by (simp only:)
  next
    case False
    then have "copy_host b v res (i # idx) =
        (if forbidden_in_host (v ! i) \<or> length res + 1 \<ge> 256 then None
         else copy_host b v (res @ [lower_byte (v ! i)]) idx)"
      by (auto simp: Let_def lowerASCII_eq)
    moreover have "filter (\<lambda>c. \<not> (b \<and> (c = CHR ''['' \<or> c = CHR '']''))) (map (nth v) (i # idx)) =
        v ! i # filter (\<lambda>c. \<not> (b \<and> (c = CHR ''['' \<or> c = CHR '']''))) (map (nth v) idx)"
      using False by simp
    moreover define K where "K = filter (\<lambda>c. \<not> (b \<and> (c = CHR ''['' \<or> c = CHR '']''))) (map (nth v) idx)"
    ultimately have eqs: "copy_host b v res (i # idx) =
        (if forbidden_in_host (v ! i) \<or> length res + 1 \<ge> 256 then None
         else copy_host b v (res @ [lower_byte (v ! i)]) idx)"
      "filter (\<lambda>c. \<not> (b \<and> (c = CHR ''['' \<or> c = CHR '']''))) (map (nth v) (i # idx)) = v ! i # K"
      by simp_all
    show ?thesis
      unfolding eqs Let_def
      using Cons [of "res @ [lower_byte (v ! i)]", folded K_def, unfolded Let_def]
      by (cases K) (auto simp del: copy_host.simps)
  qed
qed auto

lemma range_from_length: "length (range_from k skip s) \<le> length s"
  by (induction k skip s rule: range_from.induct) auto

lemma length_host_bytes: "length (host_bytes v) \<le> length v"
proof -
  have "length (host_bytes v) \<le> length (range_indices v)"
    unfolding host_bytes_def by (rule order_trans [OF length_filter_le]) simp
  also have "\<dots> \<le> length v" unfolding range_indices_def by (rule range_from_length)
  finally show ?thesis .
qed

lemma copyProxyHost_iff:
  "copyProxyHost v = Some host \<longleftrightarrow>
     v \<noteq> [] \<and> length v < 256 \<and> (\<forall>c \<in> set (host_bytes v). \<not> forbidden_in_host c) \<and>
     host = map lower_byte (host_bytes v) \<and> host \<noteq> []"
proof (cases "v = [] \<or> length v \<ge> 256")
  case False
  then have "length (host_bytes v) < 256" using length_host_bytes [of v] by simp
  then have "copy_host (v ! 0 = CHR ''['') v [] (range_indices v) = Some r \<longleftrightarrow>
      (\<forall>c \<in> set (host_bytes v). \<not> forbidden_in_host c) \<and> r = map lower_byte (host_bytes v)" for r
    unfolding copy_host_iff host_bytes_def [symmetric] Let_def by auto
  then have "copy_host (v ! 0 = CHR ''['') v [] (range_indices v) =
      (if \<forall>c \<in> set (host_bytes v). \<not> forbidden_in_host c then Some (map lower_byte (host_bytes v)) else None)"
    by (cases "copy_host (v ! 0 = CHR ''['') v [] (range_indices v)") auto
  with False show ?thesis unfolding copyProxyHost_def by auto
qed (auto simp: copyProxyHost_def)

lemma host_bytes_ascii:
  "ascii v \<Longrightarrow> host_bytes v =
    filter (\<lambda>c. \<not> (v ! 0 = CHR ''['' \<and> (c = CHR ''['' \<or> c = CHR '']''))) v"
  by (simp add: host_bytes_def range_indices_ascii map_nth)

lemma forbidden_lower: "forbidden_in_host (lower_byte c) \<longleftrightarrow> forbidden_in_host c"
proof -
  have "lower_byte c = d \<longleftrightarrow> c = d"
    if "d \<in> {CHR ''/'', CHR '' '', CHR 0x0D, CHR 0x0A, CHR ''@'', CHR 0x00}" for d
    using that by (intro lower_byte_eq_iff) auto
  then show ?thesis by (simp add: forbidden_in_host_def)
qed

lemma copyProxyHost_ok: "copyProxyHost v = Some host \<Longrightarrow> host_ok host"
  using length_host_bytes [of v] lower_byte_not_upper
  by (auto simp: copyProxyHost_iff host_ok_def forbidden_lower)

lemma forbidden_not_cont: "forbidden_in_host c \<Longrightarrow> \<not> cont c"
  by (auto simp: forbidden_in_host_def cont_def)

lemma copyProxyHost_clean:
  assumes "copyProxyHost v = Some host" and "c \<in> set v"
  shows "\<not> forbidden_in_host c"
proof -
  have "\<not> forbidden_in_host (v ! i)" if "i \<in> set (range_indices v)" for i
    using assms(1) that by (auto simp: copyProxyHost_iff host_bytes_def forbidden_in_host_def)
  then show ?thesis
    using visited_all [of "\<lambda>c. \<not> forbidden_in_host c" v] forbidden_not_cont assms(2) by blast
qed

lemma copyProxyHost_text: "copyProxyHost h = Some host \<longleftrightarrow> host_text h host"
proof
  assume c: "copyProxyHost h = Some host"
  then have "set h \<inter> {CHR ''/'', CHR '' '', CHR 0x0D, CHR 0x0A, CHR ''@'', CHR 0x00} = {}"
    using copyProxyHost_clean [OF c] unfolding forbidden_in_host_def by blast
  with c show "host_text h host" unfolding copyProxyHost_iff host_text_def by blast
next
  assume h: "host_text h host"
  have "set (host_bytes h) \<subseteq> set h"
    using range_indices_bound [of _ h] by (auto simp: host_bytes_def)
  moreover have "h \<noteq> []" using h by (auto simp: host_text_def host_bytes_def range_indices_def)
  ultimately show "copyProxyHost h = Some host"
    using h unfolding host_text_def copyProxyHost_iff forbidden_in_host_def by blast
qed

definition digit :: "char \<Rightarrow> bool" where "digit c \<longleftrightarrow> 48 \<le> ord c \<and> ord c \<le> 57"

definition decimal :: "string \<Rightarrow> int" where
  "decimal s = foldl (\<lambda>n c. n * 10 + int (ord c - 48)) 0 s"

definition decimal_port :: "string \<Rightarrow> int \<Rightarrow> bool" where
  \<comment> \<open>\<open>p\<close> writes the port in decimal digits\<close>
  "decimal_port p port \<longleftrightarrow>
     p \<noteq> [] \<and> (\<forall>c \<in> set p. digit c) \<and> port = decimal p \<and> 0 < port \<and> port < 65536"

lemma foldl_decimal_mono: "0 \<le> n \<Longrightarrow> n \<le> foldl (\<lambda>n c. n * 10 + int (ord c - 48)) n s"
proof (induction s arbitrary: n)
  case (Cons c s)
  have "n \<le> n * 10 + int (ord c - 48)" using Cons.prems by simp
  also have "\<dots> \<le> foldl (\<lambda>n c. n * 10 + int (ord c - 48)) (n * 10 + int (ord c - 48)) s"
    using Cons.prems by (intro Cons.IH) simp
  finally show ?case by simp
qed simp

lemma parse_port_iff:
  "0 \<le> n \<Longrightarrow> n \<le> 65535 \<Longrightarrow> parse_port v n idx = Some p \<longleftrightarrow>
    (\<forall>i \<in> set idx. digit (v ! i)) \<and>
    p = foldl (\<lambda>n c. n * 10 + int (ord c - 48)) n (map (nth v) idx) \<and> p \<le> 65535"
proof (induction idx arbitrary: n)
  case (Cons i idx)
  define m where "m = n * 10 + int (ord (v ! i) - 48)"
  have m: "0 \<le> m" using Cons.prems by (simp add: m_def)
  have d: "v ! i < CHR ''0'' \<or> v ! i > CHR ''9'' \<longleftrightarrow> \<not> digit (v ! i)"
    by (auto simp: digit_def ord_less_iff)
  show ?case
  proof (cases "m > 65535")
    case True
    then show ?thesis
      using foldl_decimal_mono [OF m, of "map (nth v) idx"] by (auto simp: d simp flip: m_def)
  next
    case False
    then show ?thesis using Cons.IH [of m] m by (auto simp: d simp flip: m_def)
  qed
qed auto

lemma parseProxyPort_iff: "parseProxyPort v = Some p \<longleftrightarrow> decimal_port v p"
proof (cases "\<forall>i \<in> set (range_indices v). digit (v ! i)")
  case True
  then have "\<forall>i \<in> set (range_from 0 0 v). ord (v ! (i - 0)) < 0x80"
    by (fastforce simp: range_indices_def digit_def)
  then have "ascii v" by (rule ascii_if_visited)
  then have r: "map (nth v) (range_indices v) = v" "set (range_indices v) = {0 ..< length v}"
    by (simp_all add: range_indices_ascii map_nth)
  have "\<forall>c \<in> set v. digit c" using True unfolding r(2) by (auto simp: in_set_conv_nth)
  moreover have "parse_port v 0 (range_indices v) =
      (if decimal v \<le> 65535 then Some (decimal v) else None)"
    using True parse_port_iff [of 0 v "range_indices v"]
    by (cases "parse_port v 0 (range_indices v)") (auto simp: r(1) decimal_def)
  moreover have "0 \<le> decimal v" using foldl_decimal_mono [of 0 v] by (simp add: decimal_def)
  ultimately show ?thesis by (auto simp: parseProxyPort_def decimal_port_def)
next
  case False
  then have "\<not> (\<forall>c \<in> set v. digit c)" using range_indices_bound by fastforce
  moreover have "parse_port v 0 (range_indices v) = None"
    using False parse_port_iff [of 0 v "range_indices v"]
    by (cases "parse_port v 0 (range_indices v)") auto
  ultimately show ?thesis by (auto simp: parseProxyPort_def decimal_port_def)
qed

section \<open>Facts about the request line\<close>

definition supported_version :: "string \<Rightarrow> bool" where
  "supported_version v \<longleftrightarrow>
     (\<exists>rest. (v = ''HTTP/1.0'' @ rest \<or> v = ''HTTP/1.1'' @ rest) \<and>
       (rest = [] \<or> hd rest \<in> {CHR 0x00, CHR 0x0D, CHR 0x0A, CHR '' ''}))"

lemma version_ok_iff: "version_ok v \<longleftrightarrow> supported_version v"
proof -
  have "version_ok v \<longleftrightarrow> supported_version v" if v: "take 8 v = pre @ [c]" "length pre = 7" for pre c
  proof -
    have "length (take 8 v) = length (pre @ [c])" using v(1) by (rule arg_cong)
    then have len: "8 \<le> length v" using v(2) by simp
    have split: "v = pre @ c # drop 8 v" using v append_take_drop_id [of 8 v] by simp
    have "take 7 v = pre" "v ! 7 = c" using v(2) split by (metis append_eq_conv_conj, metis nth_append_length)
    moreover have "8 < length v \<longleftrightarrow> drop 8 v \<noteq> []" by auto
    moreover have "drop 8 v \<noteq> [] \<Longrightarrow> v ! 8 = hd (drop 8 v)" by (simp add: hd_drop_conv_nth)
    ultimately have ok: "version_ok v \<longleftrightarrow> pre = ''HTTP/1.'' \<and> (c = CHR ''0'' \<or> c = CHR ''1'') \<and>
        (drop 8 v = [] \<or> hd (drop 8 v) \<in> {CHR 0x00, CHR 0x0D, CHR 0x0A, CHR '' ''})"
      using len by (auto simp: version_ok_def)
    have e: "v = ''HTTP/1.0'' @ rest \<longleftrightarrow> pre = ''HTTP/1.'' \<and> c = CHR ''0'' \<and> rest = drop 8 v"
      "v = ''HTTP/1.1'' @ rest \<longleftrightarrow> pre = ''HTTP/1.'' \<and> c = CHR ''1'' \<and> rest = drop 8 v" for rest
    proof -
      have "v = (''HTTP/1.'' @ [d]) @ rest \<longleftrightarrow> pre = ''HTTP/1.'' \<and> c = d \<and> rest = drop 8 v" for d
      proof -
        have "v = (pre @ [c]) @ drop 8 v" using split by simp
        then have "v = (''HTTP/1.'' @ [d]) @ rest \<longleftrightarrow> (pre @ [c]) @ drop 8 v = (''HTTP/1.'' @ [d]) @ rest"
          by simp
        also have "\<dots> \<longleftrightarrow> pre @ [c] = ''HTTP/1.'' @ [d] \<and> drop 8 v = rest"
          by (rule append_eq_append_conv) (simp add: v(2))
        finally show ?thesis by auto
      qed
      from this [of "CHR ''0''"] this [of "CHR ''1''"]
      show "v = ''HTTP/1.0'' @ rest \<longleftrightarrow> pre = ''HTTP/1.'' \<and> c = CHR ''0'' \<and> rest = drop 8 v"
        "v = ''HTTP/1.1'' @ rest \<longleftrightarrow> pre = ''HTTP/1.'' \<and> c = CHR ''1'' \<and> rest = drop 8 v" by simp_all
    qed
    show ?thesis unfolding ok supported_version_def e by auto
  qed
  moreover have "\<exists>pre c. take 8 v = pre @ [c] \<and> length pre = 7" if "8 \<le> length v"
  proof -
    have "take 8 v = take 7 v @ [v ! 7]" using that take_Suc_conv_app_nth [of 7 v] by simp
    then show ?thesis using that by (intro exI conjI) auto
  qed
  moreover have "\<not> version_ok v \<and> \<not> supported_version v" if "\<not> 8 \<le> length v"
    using that by (auto simp: version_ok_def supported_version_def)
  ultimately show ?thesis by blast
qed

lemma slice_middle: "slice (a @ b @ c) (length a) (length b) = b"
  by (simp add: slice_def)

lemma classify_parts:
  assumes "CHR '' '' \<notin> set m" "m \<noteq> []" "CHR '' '' \<notin> set t" "t \<noteq> []"
  shows "classifyProxyRequestLine (m @ CHR '' '' # t @ CHR '' '' # v) =
    (if \<not> version_ok v then invalid_request
     else if m = ''CONNECT'' then classify_connect t
     else if HasPrefix t ''/'' then (ProxyRequestAPI, [], 0)
     else if length t \<le> 7 \<or> \<not> HasPrefix t ''http://'' then invalid_request
     else classify_absolute (drop 7 t))"
proof -
  let ?l = "m @ CHR '' '' # t @ CHR '' '' # v"
  have "IndexByte ?l CHR '' '' = Some (length m)" using assms by simp
  moreover have "drop (length m + 1) ?l = t @ CHR '' '' # v" by simp
  moreover have "IndexByte (t @ CHR '' '' # v) CHR '' '' = Some (length t)" using assms by simp
  moreover have "slice ?l (length m + 1) (length m + 1 + length t - (length m + 1)) = t"
    using slice_middle [of "m @ '' ''" t "CHR '' '' # v"] by simp
  moreover have "drop (length m + 1 + length t + 1) ?l = v" by simp
  moreover have "take (length m) ?l = m" by simp
  ultimately show ?thesis using assms unfolding classifyProxyRequestLine_def by (simp only: option.case Let_def) auto
qed

lemma classify_no_parts:
  assumes "classifyProxyRequestLine line \<noteq> invalid_request"
  obtains m t v where "line = m @ CHR '' '' # t @ CHR '' '' # v"
    "CHR '' '' \<notin> set m" "m \<noteq> []" "CHR '' '' \<notin> set t" "t \<noteq> []"
proof -
  from assms obtain i j where i: "IndexByte line CHR '' '' = Some i" "i \<noteq> 0"
    and j: "IndexByte (drop (i + 1) line) CHR '' '' = Some j" "j \<noteq> 0"
    by (auto simp: classifyProxyRequestLine_def Let_def split: option.splits if_splits)
  from i obtain m r where m: "line = m @ CHR '' '' # r" "CHR '' '' \<notin> set m" "i = length m"
    by (auto simp: IndexByte_split)
  from j obtain t v where t: "r = t @ CHR '' '' # v" "CHR '' '' \<notin> set t" "j = length t"
    by (auto simp: IndexByte_split m)
  show thesis by (rule that [of m t v]) (use m t i j in auto)
qed

lemma classify_connect_code:
  "classify_connect t = (ProxyRequestConnect, host, port) \<longleftrightarrow>
    (\<exists>h p. t = h @ CHR '':'' # p \<and> CHR '':'' \<notin> set p \<and>
       parseProxyPort p = Some port \<and> copyProxyHost h = Some host)"
proof (cases "LastIndexByte t CHR '':''")
  case None
  then have "CHR '':'' \<notin> set t" by (simp add: LastIndexByte_None_iff)
  with None show ?thesis by (auto simp: classify_connect_def invalid_request_def)
next
  case (Some i)
  then obtain h p where t: "t = h @ CHR '':'' # p" "CHR '':'' \<notin> set p" "i = length h"
    by (auto simp: LastIndexByte_split)
  have uniq: "h' = h \<and> p' = p" if "t = h' @ CHR '':'' # p'" "CHR '':'' \<notin> set p'" for h' p'
  proof -
    have "LastIndexByte t CHR '':'' = Some (length h')" using that by simp
    then have "length h' = length h" using t(3) Some by simp
    moreover have "h' @ CHR '':'' # p' = h @ CHR '':'' # p" using that(1) t(1) by (rule subst)
    ultimately show ?thesis by simp
  qed
  have "classify_connect t = (ProxyRequestConnect, host, port) \<longleftrightarrow>
      parseProxyPort p = Some port \<and> copyProxyHost h = Some host"
  proof -
    have "classify_connect t =
        (if h = [] then invalid_request
         else case parseProxyPort p of None \<Rightarrow> invalid_request
              | Some port \<Rightarrow> (case copyProxyHost h of None \<Rightarrow> invalid_request
                  | Some host \<Rightarrow> (ProxyRequestConnect, host, port)))"
      using Some by (simp add: classify_connect_def t cong: option.case_cong)
    then show ?thesis
      by (auto simp: invalid_request_def copyProxyHost_iff [of "[]"] split: option.splits)
  qed
  moreover have "(\<exists>h p. t = h @ CHR '':'' # p \<and> CHR '':'' \<notin> set p \<and>
      parseProxyPort p = Some port \<and> copyProxyHost h = Some host) \<longleftrightarrow>
      parseProxyPort p = Some port \<and> copyProxyHost h = Some host"
    using uniq t(1,2) by metis
  ultimately show ?thesis by (simp only:)
qed

lemmas classify_connect_iff = classify_connect_code [unfolded parseProxyPort_iff copyProxyHost_text]

lemma takeWhile_split:
  assumes "list_all P a" and "b = [] \<or> \<not> P (hd b)"
  shows "takeWhile P (a @ b) = a"
  using assms by (cases b) (auto simp: list_all_iff takeWhile_tail)

definition authority_of :: "string \<Rightarrow> string \<Rightarrow> int \<Rightarrow> bool" where
  \<comment> \<open>\<open>authority\<close> (up to the first slash) names the raw host \<open>h\<close> and the port\<close>
  "authority_of authority h port \<longleftrightarrow>
     CHR '':'' \<notin> set h \<and>
     (authority = h \<and> port = 80 \<or> (\<exists>p. authority = h @ '':'' @ p \<and> decimal_port p port))"

lemma classify_absolute_parts:
  assumes a: "CHR ''/'' \<notin> set a" and q: "q = [] \<or> hd q = CHR ''/''"
  shows "classify_absolute (a @ q) = (ProxyRequestAbsolute, host, port) \<longleftrightarrow>
    (\<exists>h. authority_of a h port \<and> copyProxyHost h = Some host)"
proof -
  define h where "h = takeWhile (\<lambda>c. c \<noteq> CHR '':'') a"
  define r where "r = dropWhile (\<lambda>c. c \<noteq> CHR '':'') a"
  have ar: "a = h @ r" by (simp add: h_def r_def)
  have h: "CHR '':'' \<notin> set h" by (auto simp: h_def dest: set_takeWhileD)
  have r: "r = [] \<or> (\<exists>p. r = CHR '':'' # p)"
  proof (cases r)
    case (Cons x xs)
    then have "\<not> x \<noteq> CHR '':''"
      using hd_dropWhile [of "\<lambda>c. c \<noteq> CHR '':''" a] unfolding r_def [symmetric] by simp
    then show ?thesis using Cons by simp
  qed simp
  have sl: "CHR ''/'' \<notin> set h" "CHR ''/'' \<notin> set r" using a by (auto simp: ar)
  have tw: "takeWhile (\<lambda>c. c \<noteq> CHR ''/'' \<and> c \<noteq> CHR '':'') ((h @ r) @ q) = h"
  proof -
    have "list_all (\<lambda>c. c \<noteq> CHR ''/'' \<and> c \<noteq> CHR '':'') h" using h sl by (auto simp: list_all_iff)
    moreover have "r @ q = [] \<or> \<not> (hd (r @ q) \<noteq> CHR ''/'' \<and> hd (r @ q) \<noteq> CHR '':'')" using r q by (cases r) auto
    ultimately show ?thesis using takeWhile_split [of _ h "r @ q"] by simp
  qed
  have uniq: "h' = h" if "authority_of a h' port" for h'
  proof -
    have l: "list_all (\<lambda>c. c \<noteq> CHR '':'') h'" using that by (auto simp: authority_of_def list_all_iff)
    from that have "a = h' @ [] \<or> (\<exists>p. a = h' @ CHR '':'' # p)" by (auto simp: authority_of_def)
    then show ?thesis
    proof
      assume "a = h' @ []"
      then show ?thesis using takeWhile_split [OF l, of "[]"] unfolding h_def by metis
    next
      assume "\<exists>p. a = h' @ CHR '':'' # p"
      then show ?thesis using takeWhile_split [OF l, of "CHR '':'' # _"] by (auto simp: h_def)
    qed
  qed
  show ?thesis
  proof (cases "r = []")
    case True
    have "\<not> (length h < length (a @ q) \<and> (a @ q) ! length h = CHR '':'')"
      using q by (cases q) (auto simp: ar True nth_append)
    then have "classify_absolute (a @ q) = (ProxyRequestAbsolute, host, port) \<longleftrightarrow>
        copyProxyHost h = Some host \<and> port = 80"
      using tw by (auto simp: classify_absolute_def Let_def ar True invalid_request_def split: option.splits)
    moreover have "authority_of a h port \<longleftrightarrow> port = 80"
      using h by (auto simp: authority_of_def ar True)
    ultimately show ?thesis using uniq by auto
  next
    case False
    then obtain p where p: "r = CHR '':'' # p" using r by blast
    have "takeWhile (\<lambda>c. c \<noteq> CHR ''/'') (p @ q) = p"
      using q sl(2) by (intro takeWhile_split) (auto simp: p list_all_iff)
    then have "classify_absolute (a @ q) = (ProxyRequestAbsolute, host, port) \<longleftrightarrow>
        parseProxyPort p = Some port \<and> copyProxyHost h = Some host"
      using tw by (auto simp: classify_absolute_def Let_def ar p invalid_request_def nth_append split: option.splits)
    moreover have "authority_of a h port \<longleftrightarrow> parseProxyPort p = Some port"
      using h by (auto simp: authority_of_def ar p parseProxyPort_iff)
    ultimately show ?thesis using uniq by auto
  qed
qed

lemmas classify_absolute_iff = classify_absolute_parts [unfolded copyProxyHost_text]

lemma target_split:
  obtains a q where "s = a @ q" "CHR ''/'' \<notin> set a" "q = [] \<or> hd q = CHR ''/''"
proof (rule that [of "takeWhile (\<lambda>c. c \<noteq> CHR ''/'') s" "dropWhile (\<lambda>c. c \<noteq> CHR ''/'') s"])
  show "CHR ''/'' \<notin> set (takeWhile (\<lambda>c. c \<noteq> CHR ''/'') s)" by (auto dest: set_takeWhileD)
  show "dropWhile (\<lambda>c. c \<noteq> CHR ''/'') s = [] \<or> hd (dropWhile (\<lambda>c. c \<noteq> CHR ''/'') s) = CHR ''/''"
    using hd_dropWhile [of "\<lambda>c. c \<noteq> CHR ''/''" s] by auto
qed simp

lemma classify_kinds:
  "fst (classify_connect t) \<in> {ProxyRequestInvalid, ProxyRequestConnect}"
  "fst (classify_absolute a) \<in> {ProxyRequestInvalid, ProxyRequestAbsolute}"
  by (auto simp: classify_connect_def classify_absolute_def invalid_request_def Let_def split: option.splits)

section \<open>The grammar of proxy requests\<close>

definition connect_line :: "string \<Rightarrow> string \<Rightarrow> int \<Rightarrow> bool" where
  "connect_line line host port \<longleftrightarrow>
     (\<exists>h p v. line = ''CONNECT '' @ h @ '':'' @ p @ '' '' @ v \<and> supported_version v \<and>
       decimal_port p port \<and> host_text h host)"

definition absolute_line :: "string \<Rightarrow> string \<Rightarrow> int \<Rightarrow> bool" where
  "absolute_line line host port \<longleftrightarrow>
     (\<exists>m authority path v h. line = m @ '' http://'' @ authority @ path @ '' '' @ v \<and>
       m \<noteq> [] \<and> m \<noteq> ''CONNECT'' \<and> CHR '' '' \<notin> set m \<and> supported_version v \<and>
       CHR ''/'' \<notin> set authority \<and> CHR '' '' \<notin> set path \<and> (path = [] \<or> hd path = CHR ''/'') \<and>
       authority_of authority h port \<and> host_text h host)"

lemma port_no: "decimal_port p port \<Longrightarrow> CHR '' '' \<notin> set p \<and> CHR '':'' \<notin> set p"
  by (auto simp: decimal_port_def digit_def)

lemma host_no_space: "host_text h host \<Longrightarrow> CHR '' '' \<notin> set h \<and> h \<noteq> []"
  by (auto simp: host_text_def host_bytes_def range_indices_def)

lemma classify_connect_line:
  "classifyProxyRequestLine line = (ProxyRequestConnect, host, port) \<longleftrightarrow> connect_line line host port"
proof
  assume c: "classifyProxyRequestLine line = (ProxyRequestConnect, host, port)"
  then have "classifyProxyRequestLine line \<noteq> invalid_request" by (simp add: invalid_request_def)
  then obtain m t v where l: "line = m @ CHR '' '' # t @ CHR '' '' # v"
    "CHR '' '' \<notin> set m" "m \<noteq> []" "CHR '' '' \<notin> set t" "t \<noteq> []" by (rule classify_no_parts)
  have "version_ok v \<and> m = ''CONNECT'' \<and> classify_connect t = (ProxyRequestConnect, host, port)"
    using c classify_kinds(2) [of "drop 7 t"]
    by (auto simp: l(1) classify_parts [OF l(2-5)] invalid_request_def split: if_splits)
  then obtain h p where "t = h @ CHR '':'' # p" "decimal_port p port"
    "host_text h host" "supported_version v" "m = ''CONNECT''"
    by (auto simp: classify_connect_iff version_ok_iff simp del: ProxyRequestConnect_def)
  then show "connect_line line host port"
    unfolding connect_line_def l(1) by (intro exI [of _ h] exI [of _ p] exI [of _ v]) simp
next
  assume "connect_line line host port"
  then obtain h p v where l: "line = ''CONNECT'' @ CHR '' '' # (h @ CHR '':'' # p) @ CHR '' '' # v" "version_ok v"
    "decimal_port p port" "host_text h host"
    by (auto simp: connect_line_def version_ok_iff)
  have "classify_connect (h @ CHR '':'' # p) = (ProxyRequestConnect, host, port)"
    using l(3,4) port_no [OF l(3)] classify_connect_iff by blast
  then show "classifyProxyRequestLine line = (ProxyRequestConnect, host, port)"
    using l(2) port_no [OF l(3)] host_no_space [OF l(4)]
    by (simp add: l(1) classify_parts [of "''CONNECT''" "h @ CHR '':'' # p" v, simplified])
qed

lemma authority_no_space:
  "authority_of a h port \<Longrightarrow> host_text h host \<Longrightarrow> CHR '' '' \<notin> set a \<and> a \<noteq> []"
  using host_no_space [of h host] port_no by (auto simp: authority_of_def)

lemma classify_absolute_line:
  "classifyProxyRequestLine line = (ProxyRequestAbsolute, host, port) \<longleftrightarrow> absolute_line line host port"
proof
  assume c: "classifyProxyRequestLine line = (ProxyRequestAbsolute, host, port)"
  then have "classifyProxyRequestLine line \<noteq> invalid_request" by (simp add: invalid_request_def)
  then obtain m t v where l: "line = m @ CHR '' '' # t @ CHR '' '' # v"
    "CHR '' '' \<notin> set m" "m \<noteq> []" "CHR '' '' \<notin> set t" "t \<noteq> []" by (rule classify_no_parts)
  have d: "version_ok v \<and> m \<noteq> ''CONNECT'' \<and> HasPrefix t ''http://'' \<and>
      classify_absolute (drop 7 t) = (ProxyRequestAbsolute, host, port)"
    using c classify_kinds(1) [of t]
    by (auto simp: l(1) classify_parts [OF l(2-5)] invalid_request_def split: if_splits)
  then obtain s where s: "t = ''http://'' @ s" by (auto simp: HasPrefix_iff)
  obtain a q where aq: "s = a @ q" "CHR ''/'' \<notin> set a" "q = [] \<or> hd q = CHR ''/''" by (rule target_split)
  have "classify_absolute (a @ q) = (ProxyRequestAbsolute, host, port)" using d s aq(1) by simp
  then obtain h where h: "authority_of a h port" "host_text h host"
    using classify_absolute_iff [OF aq(2,3)] by blast
  have "line = m @ '' http://'' @ a @ q @ '' '' @ v" by (simp add: l(1) s aq(1))
  moreover have "CHR '' '' \<notin> set q" using l(4) s aq(1) by simp
  ultimately show "absolute_line line host port"
    unfolding absolute_line_def using l(2,3) d aq(2,3) h version_ok_iff by blast
next
  assume "absolute_line line host port"
  then obtain m a q v h where l: "line = m @ '' http://'' @ a @ q @ '' '' @ v" "m \<noteq> []" "m \<noteq> ''CONNECT''"
    "CHR '' '' \<notin> set m" "version_ok v" "CHR ''/'' \<notin> set a" "CHR '' '' \<notin> set q" "q = [] \<or> hd q = CHR ''/''"
    "authority_of a h port" "host_text h host"
    unfolding absolute_line_def version_ok_iff by blast
  define t where "t = ''http://'' @ a @ q"
  have t: "CHR '' '' \<notin> set t" "t \<noteq> []" "7 < length t"
    using authority_no_space [OF l(9,10)] l(7) by (auto simp: t_def)
  have "line = m @ CHR '' '' # t @ CHR '' '' # v" by (simp add: l(1) t_def)
  moreover have "\<not> HasPrefix t ''/''" "HasPrefix t ''http://''" "drop 7 t = a @ q"
    by (simp_all add: t_def HasPrefix_def)
  moreover have "classify_absolute (a @ q) = (ProxyRequestAbsolute, host, port)"
    using l(9,10) classify_absolute_iff [OF l(6,8)] by blast
  ultimately show "classifyProxyRequestLine line = (ProxyRequestAbsolute, host, port)"
    using classify_parts [OF l(4,2) t(1,2), of v] t(3) l(3,5) by simp
qed

section \<open>The header block of a head\<close>

text \<open>
  The headers of a head as their recipient reads them, apart from the loops of the code: the
  lines of a text, the name before the colon of a line, the options of a connection header.
\<close>

abbreviation LF :: char where "LF \<equiv> CHR 0x0A"

fun lines_lf :: "string \<Rightarrow> string list" where
  \<comment> \<open>the lines of a text, each with its line feed\<close>
  "lines_lf [] = []"
| "lines_lf (c # s) =
    (if c = CHR 0x0A then [c] # lines_lf s
     else case lines_lf s of [] \<Rightarrow> [[c]] | l # ls \<Rightarrow> (c # l) # ls)"

lemma next_line_Cons:
  "next_line (c # s) = (if c = CHR 0x0A \<or> s = [] then [c] else c # next_line s)"
  by (auto simp: next_line_def split: option.splits)

lemma lines_lf_step: "s \<noteq> [] \<Longrightarrow> lines_lf s = next_line s # lines_lf (drop (length (next_line s)) s)"
proof (induction s)
  case (Cons c s)
  show ?case
  proof (cases "c = CHR 0x0A \<or> s = []")
    case False
    then have "lines_lf s = next_line s # lines_lf (drop (length (next_line s)) s)" using Cons by simp
    then show ?thesis using False by (simp add: next_line_Cons)
  qed (auto simp: next_line_Cons)
qed simp

lemma concat_lines_lf: "concat (lines_lf s) = s"
  by (induction s) (auto split: list.splits)

definition header_block :: "string \<Rightarrow> string list" where
  \<comment> \<open>the header lines: everything before the first line of at most two bytes\<close>
  "header_block s = takeWhile (\<lambda>l. 2 < length l) (lines_lf s)"

definition stripped_names :: "string set" where
  \<comment> \<open>the hop-by-hop and credential headers\<close>
  "stripped_names =
     {''connection'', ''proxy-connection'', ''keep-alive'', ''transfer-encoding'', ''te'', ''trailer'',
      ''upgrade'', ''authorization'', ''proxy-authorization'', ''cookie''}"

definition field_name :: "string \<Rightarrow> string" where
  "field_name line = takeWhile (\<lambda>c. c \<noteq> CHR '':'') line"

definition field_value :: "string \<Rightarrow> string" where
  "field_value line = tl (dropWhile (\<lambda>c. c \<noteq> CHR '':'') line)"

definition well_named :: "string \<Rightarrow> bool" where
  \<comment> \<open>a header name: not empty, without blanks or control bytes\<close>
  "well_named name \<longleftrightarrow> name \<noteq> [] \<and> (\<forall>c \<in> set name. 0x20 < ord c \<and> ord c \<noteq> 0x7f)"

definition is_connection :: "(nat \<Rightarrow> nat) \<Rightarrow> string \<Rightarrow> bool" where
  "is_connection uni line \<longleftrightarrow> ToLower uni (field_name line) \<in> {''connection'', ''proxy-connection''}"

definition connection_options :: "string \<Rightarrow> string list" where
  \<comment> \<open>the comma-separated options of a header line, without surrounding white space\<close>
  "connection_options line = map TrimSpace (Split (TrimRight (field_value line) CRLF) CHR '','')"

definition header_ok :: "(nat \<Rightarrow> nat) \<Rightarrow> string \<Rightarrow> bool" where
  "header_ok uni line \<longleftrightarrow>
     CHR '':'' \<in> set line \<and> well_named (field_name line) \<and>
     (is_connection uni line \<longrightarrow> list_all well_named (connection_options line))"

definition header_survives :: "(nat \<Rightarrow> nat) \<Rightarrow> string list \<Rightarrow> string \<Rightarrow> bool" where
  \<comment> \<open>neither hop-by-hop nor a credential (the name is lower-cased twice, which for Unicode
    letters is not the same as once), nor nominated by a connection header of the block\<close>
  "header_survives uni block line \<longleftrightarrow>
     ToLower uni (ToLower uni (field_name line)) \<notin> stripped_names \<and>
     (\<forall>c \<in> set block. is_connection uni c \<longrightarrow>
        ToLower uni (field_name line) \<notin> ToLower uni ` set (connection_options c))"

lemma well_named_iff: "validProxyHeaderName = well_named"
  by (simp add: fun_eq_iff validProxyHeaderName_iff well_named_def)

lemma colon_split:
  assumes "IndexByte line CHR '':'' = Some colon"
  shows "take colon line = field_name line" "drop (colon + 1) line = field_value line"
proof -
  obtain a b where ab: "line = a @ CHR '':'' # b" "CHR '':'' \<notin> set a" "colon = length a"
    using assms by (auto simp: IndexByte_split)
  have "takeWhile (\<lambda>c. c \<noteq> CHR '':'') (a @ CHR '':'' # b) = a"
    "dropWhile (\<lambda>c. c \<noteq> CHR '':'') (a @ CHR '':'' # b) = CHR '':'' # b"
    using ab(2) by (auto simp: takeWhile_append dropWhile_append)
  then show "take colon line = field_name line" "drop (colon + 1) line = field_value line"
    using ab by (simp_all add: field_name_def field_value_def)
qed

lemma header_name_field: "CHR '':'' \<in> set line \<Longrightarrow> header_name uni line = ToLower uni (field_name line)"
  using IndexByte_None_iff [of line "CHR '':''"] colon_split [of line]
  by (auto simp: header_name_def)

definition nominated :: "(nat \<Rightarrow> nat) \<Rightarrow> string list \<Rightarrow> string set" where
  \<comment> \<open>the header names that the connection options of the block nominate\<close>
  "nominated uni block =
    (\<Union>line \<in> set (filter (is_connection uni) block). ToLower uni ` set (connection_options line))"

lemma header_kept_survives:
  "CHR '':'' \<in> set line \<Longrightarrow> header_kept uni (nominated uni block) line \<longleftrightarrow> header_survives uni block line"
  by (auto simp: header_kept_def header_name_field header_survives_def nominated_def
      proxyHeaderShouldStrip_def stripped_names_def)

lemma add_options_eq:
  "add_options uni os conn =
    (if list_all well_named (map TrimSpace os) then Some (conn \<union> ToLower uni ` set (map TrimSpace os))
     else None)"
  by (induction os arbitrary: conn) (auto simp: Let_def well_named_iff)

lemma header_block_step:
  "header_block s = (if s = [] \<or> length (next_line s) \<le> 2 then []
     else next_line s # header_block (drop (length (next_line s)) s))"
  by (cases "s = []") (auto simp: header_block_def lines_lf_step)

lemma read_headers_eq:
  "read_headers uni s hs conn =
    (if list_all (header_ok uni) (header_block s)
     then Some (hs @ header_block s, conn \<union> nominated uni (header_block s)) else None)"
proof (induction "length s" arbitrary: s hs conn rule: less_induct)
  case less
  define line where "line = next_line s"
  show ?case
  proof (cases "s = [] \<or> length line \<le> 2")
    case True
    then show ?thesis
      by (subst read_headers.simps) (auto simp: Let_def line_def header_block_step [of s] nominated_def)
  next
    case False
    then have block: "header_block s = line # header_block (drop (length line) s)"
      by (simp add: header_block_step [of s] line_def)
    show ?thesis
    proof (cases "IndexByte line CHR '':''")
      case None
      then show ?thesis
        using False IndexByte_None_iff [of line "CHR '':''"]
        by (subst read_headers.simps) (simp add: block header_ok_def flip: line_def)
    next
      case (Some colon)
      then have c: "CHR '':'' \<in> set line" using IndexByte_None_iff [of line "CHR '':''"] by auto
      have opts: "connection_options line =
          map TrimSpace (Split (TrimRight (field_value line) CRLF) CHR '','')"
        by (simp add: connection_options_def)
      have valid: "colon = 0 \<or> \<not> well_named (field_name line) \<longleftrightarrow> \<not> well_named (field_name line)"
        using colon_split(1) [OF Some] by (auto simp: well_named_def)
      have step: "read_headers uni s hs conn =
          (if \<not> well_named (field_name line) then None
           else case (if is_connection uni line
               then (if list_all well_named (connection_options line)
                     then Some (conn \<union> ToLower uni ` set (connection_options line)) else None)
               else Some conn) of
             None \<Rightarrow> None
           | Some conn' \<Rightarrow> read_headers uni (drop (length line) s) (hs @ [line]) conn')"
        using False Some
        by (subst read_headers.simps)
          (simp add: Let_def well_named_iff valid add_options_eq is_connection_def opts
            colon_split [OF Some, simplified] flip: line_def
            del: CRLF_def cong: option.case_cong)
      have "length (drop (length line) s) < length s" using False by (cases s) auto
      note IH = less [OF this]
      have nom: "nominated uni (line # block) =
          (if is_connection uni line then ToLower uni ` set (connection_options line) else {}) \<union>
          nominated uni block" for block
        by (simp add: nominated_def)
      have ok: "header_ok uni line \<longleftrightarrow> well_named (field_name line) \<and>
          (is_connection uni line \<longrightarrow> list_all well_named (connection_options line))"
        by (simp add: header_ok_def c)
      show ?thesis
        unfolding step block list.pred_inject ok nom by (auto simp: IH Un_assoc)
    qed
  qed
qed

section \<open>Facts about the rewritten head\<close>

definition rewritten :: "(nat \<Rightarrow> nat) \<Rightarrow> string \<Rightarrow> string \<Rightarrow> string \<Rightarrow> string list \<Rightarrow> string" where
  \<comment> \<open>the origin-form head for method, path, version and header block\<close>
  "rewritten uni m path v block =
     m @ '' '' @ (if path = [] then ''/'' else path) @ '' '' @ take 8 v @ CRLF @
     concat (filter (header_survives uni block) block) @ ''Connection: close'' @ CRLF @ CRLF"

lemma drop_length_append: "drop (length xs) (xs @ ys) = ys"
  by simp

lemma path_after_authority:
  assumes "CHR ''/'' \<notin> set a" and "q = [] \<or> hd q = CHR ''/''"
  shows "length (takeWhile (\<lambda>c. c \<noteq> CHR ''/'') (a @ q)) = length a"
proof -
  have "takeWhile (\<lambda>c. c \<noteq> CHR ''/'') (a @ q) = a"
    by (rule takeWhile_split) (use assms in \<open>auto simp: list_all_iff\<close>)
  then show ?thesis by (rule arg_cong)
qed

lemma rewrite_parts:
  assumes "CHR '' '' \<notin> set m" "LF \<notin> set m" "CHR '' '' \<notin> set a" "LF \<notin> set a" "CHR ''/'' \<notin> set a"
    and "CHR '' '' \<notin> set q" "LF \<notin> set q" "q = [] \<or> hd q = CHR ''/''" "LF \<notin> set v"
  shows "rewriteProxyHead uni (m @ '' http://'' @ a @ q @ '' '' @ v @ [LF] @ rest) =
    (if 8 \<le> length (TrimSuffix v [CHR 0x0D]) \<and> list_all (header_ok uni) (header_block rest)
     then Some (rewritten uni m q (TrimSuffix v [CHR 0x0D]) (header_block rest)) else None)"
proof -
  define t where "t = ''http://'' @ a @ q"
  define pre where "pre = m @ CHR '' '' # t @ CHR '' '' # v"
  have head: "m @ '' http://'' @ a @ q @ '' '' @ v @ [LF] @ rest = pre @ LF # rest"
    by (simp add: pre_def t_def)
  have t: "CHR '' '' \<notin> set t" "LF \<notin> set t" using assms by (auto simp: t_def)
  have eol: "IndexByte (pre @ LF # rest) LF = Some (length pre)"
    using assms t by (intro IndexByte_app) (auto simp: pre_def)
  have sp1: "IndexByte (take (length pre) (pre @ LF # rest)) CHR '' '' = Some (length m)"
    using assms(1) by (simp add: pre_def)
  have sl: "slice (pre @ LF # rest) (length m + 1) (length pre - (length m + 1)) = t @ CHR '' '' # v"
    by (simp add: slice_def pre_def)
  have sp2: "IndexByte (t @ CHR '' '' # v) CHR '' '' = Some (length t)" using t by simp
  have tgt: "slice (pre @ LF # rest) (length m + 1) (length m + 1 + length t - (length m + 1)) = t"
    by (simp add: slice_def pre_def)
  have ver: "slice (pre @ LF # rest) (length m + 1 + length t + 1)
      (length pre - (length m + 1 + length t + 1)) = v"
    by (simp add: slice_def pre_def)
  have rst: "drop (length pre + 1) (pre @ LF # rest) = rest" by simp
  have mth: "take (length m) (pre @ LF # rest) = m" by (simp add: pre_def)
  have pfx: "HasPrefix t ''http://''" by (simp add: t_def HasPrefix_def)
  have "length (takeWhile (\<lambda>c. c \<noteq> CHR ''/'') (drop 7 t)) = length a"
    using path_after_authority [OF assms(5,8)] by (simp add: t_def)
  moreover have "drop (7 + length a) t = q"
  proof -
    have "7 + length a = length (''http://'' @ a)" "t = (''http://'' @ a) @ q" by (simp_all add: t_def)
    then show ?thesis by (simp only: drop_length_append)
  qed
  ultimately have pth: "(if 7 + length (takeWhile (\<lambda>c. c \<noteq> CHR ''/'') (drop 7 t)) < length t
      then drop (7 + length (takeWhile (\<lambda>c. c \<noteq> CHR ''/'') (drop 7 t))) t else ''/'') =
      (if q = [] then ''/'' else q)"
    by (auto simp: t_def)
  have "filter (header_kept uni (nominated uni (header_block rest))) (header_block rest) =
      filter (header_survives uni (header_block rest)) (header_block rest)"
    if "list_all (header_ok uni) (header_block rest)"
    using that by (intro filter_cong) (auto simp: list_all_iff header_ok_def header_kept_survives)
  then show ?thesis
    unfolding head rewriteProxyHead_def eol option.case sp1 sl sp2 Let_def tgt ver rst mth pth read_headers_eq
    using pfx by (auto simp: rewritten_def)
qed

lemma rewrite_Some_parts:
  assumes "rewriteProxyHead uni head = Some out"
  obtains m a q v rest where "head = m @ '' http://'' @ a @ q @ '' '' @ v @ [LF] @ rest"
    "CHR '' '' \<notin> set m" "LF \<notin> set m" "CHR '' '' \<notin> set a" "LF \<notin> set a" "CHR ''/'' \<notin> set a"
    "CHR '' '' \<notin> set q" "LF \<notin> set q" "q = [] \<or> hd q = CHR ''/''" "LF \<notin> set v"
proof -
  from assms obtain e where e: "IndexByte head LF = Some e"
    by (auto simp: rewriteProxyHead_def split: option.splits)
  then obtain pre rest where pre: "head = pre @ LF # rest" "LF \<notin> set pre" "e = length pre"
    by (auto simp: IndexByte_split)
  have tk: "take e head = pre" by (simp add: pre)
  from assms e obtain i where i: "IndexByte pre CHR '' '' = Some i"
    by (auto simp: rewriteProxyHead_def tk split: option.splits)
  then obtain m r where m: "pre = m @ CHR '' '' # r" "CHR '' '' \<notin> set m" "i = length m"
    by (auto simp: IndexByte_split)
  have sl: "slice head (i + 1) (e - (i + 1)) = r" by (simp add: slice_def pre m)
  from assms e i obtain j where j: "IndexByte r CHR '' '' = Some j"
    unfolding rewriteProxyHead_def by (auto simp only: option.case tk sl split: option.splits)
  then obtain t v where t: "r = t @ CHR '' '' # v" "CHR '' '' \<notin> set t" "j = length t"
    by (auto simp: IndexByte_split)
  have tgt: "slice head (i + 1) (i + 1 + j - (i + 1)) = t" by (simp add: slice_def pre m t)
  have "HasPrefix t ''http://''"
    using assms unfolding rewriteProxyHead_def e option.case tk i sl j Let_def tgt
    by (auto split: if_splits)
  then obtain s where s: "t = ''http://'' @ s" by (auto simp: HasPrefix_iff)
  obtain a q where aq: "s = a @ q" "CHR ''/'' \<notin> set a" "q = [] \<or> hd q = CHR ''/''" by (rule target_split)
  show thesis
    by (rule that [of m a q v rest]) (use pre(2) m t s aq in \<open>auto simp: pre(1)\<close>)
qed

lemma rewriteProxyHead_iff:
  "rewriteProxyHead uni head = Some out \<longleftrightarrow>
    (\<exists>m a q v rest. head = m @ '' http://'' @ a @ q @ '' '' @ v @ [LF] @ rest \<and>
      CHR '' '' \<notin> set m \<and> CHR '' '' \<notin> set a \<and> CHR '' '' \<notin> set q \<and>
      LF \<notin> set m \<and> LF \<notin> set a \<and> LF \<notin> set q \<and> LF \<notin> set v \<and>
      CHR ''/'' \<notin> set a \<and> (q = [] \<or> hd q = CHR ''/'') \<and>
      8 \<le> length (TrimSuffix v [CHR 0x0D]) \<and> list_all (header_ok uni) (header_block rest) \<and>
      out = rewritten uni m q (TrimSuffix v [CHR 0x0D]) (header_block rest))"
    (is "?l \<longleftrightarrow> ?r")
proof
  assume l: ?l
  obtain m a q v rest where h: "head = m @ '' http://'' @ a @ q @ '' '' @ v @ [LF] @ rest"
    "CHR '' '' \<notin> set m" "LF \<notin> set m" "CHR '' '' \<notin> set a" "LF \<notin> set a" "CHR ''/'' \<notin> set a"
    "CHR '' '' \<notin> set q" "LF \<notin> set q" "q = [] \<or> hd q = CHR ''/''" "LF \<notin> set v"
    using l by (rule rewrite_Some_parts)
  have "8 \<le> length (TrimSuffix v [CHR 0x0D]) \<and> list_all (header_ok uni) (header_block rest) \<and>
      out = rewritten uni m q (TrimSuffix v [CHR 0x0D]) (header_block rest)"
    using l unfolding h(1) rewrite_parts [OF h(2-10)] by (simp split: if_splits)
  then show ?r using h by blast
next
  assume ?r
  then obtain m a q v rest where h: "head = m @ '' http://'' @ a @ q @ '' '' @ v @ [LF] @ rest"
    "CHR '' '' \<notin> set m" "LF \<notin> set m" "CHR '' '' \<notin> set a" "LF \<notin> set a" "CHR ''/'' \<notin> set a"
    "CHR '' '' \<notin> set q" "LF \<notin> set q" "q = [] \<or> hd q = CHR ''/''" "LF \<notin> set v"
    "8 \<le> length (TrimSuffix v [CHR 0x0D])" "list_all (header_ok uni) (header_block rest)"
    "out = rewritten uni m q (TrimSuffix v [CHR 0x0D]) (header_block rest)"
    by blast
  show ?l unfolding h(1) rewrite_parts [OF h(2-10)] using h(11-13) by simp
qed

lemma first_space_unique:
  assumes "m @ CHR '' '' # r = m' @ CHR '' '' # r'" and "CHR '' '' \<notin> set m" "CHR '' '' \<notin> set m'"
  shows "m = m' \<and> r = r'"
proof -
  have "IndexByte (m @ CHR '' '' # r) CHR '' '' = Some (length m)"
    "IndexByte (m' @ CHR '' '' # r') CHR '' '' = Some (length m')"
    using assms(2,3) by simp_all
  with assms(1) have "length m = length m'" by simp
  with assms(1) show ?thesis by simp
qed

lemma authority_path_unique:
  assumes "a @ q = a' @ q'" and "CHR ''/'' \<notin> set a" "q = [] \<or> hd q = CHR ''/''"
    and "CHR ''/'' \<notin> set a'" "q' = [] \<or> hd q' = CHR ''/''"
  shows "a = a' \<and> q = q'"
proof -
  have "length a = length a'" using assms path_after_authority by metis
  with assms(1) show ?thesis by simp
qed

lemma classified_clean:
  assumes "classifyProxyRequestLine line = (kind, host, port)"
  shows "kind \<in> {ProxyRequestInvalid, ProxyRequestAPI, ProxyRequestConnect, ProxyRequestAbsolute} \<and>
    (if kind = ProxyRequestConnect \<or> kind = ProxyRequestAbsolute
     then host_ok host \<and> 0 < port \<and> port < 65536 else host = [] \<and> port = 0)"
proof -
  have c: "classify_connect t = (kind, host, port) \<Longrightarrow> kind = ProxyRequestConnect \<or> (kind, host, port) = invalid_request"
    "classify_absolute a = (kind, host, port) \<Longrightarrow> kind = ProxyRequestAbsolute \<or> (kind, host, port) = invalid_request"
    for t a
    by (auto simp: classify_connect_def classify_absolute_def invalid_request_def Let_def
        split: option.splits if_splits)
  have kinds: "kind = ProxyRequestConnect \<or> kind = ProxyRequestAbsolute \<or> (kind, host, port) = invalid_request \<or>
      (kind, host, port) = (ProxyRequestAPI, [], 0)"
    using assms c unfolding classifyProxyRequestLine_def
    by (auto simp: Let_def split: option.splits if_splits)
  have "host_ok host \<and> 0 < port \<and> port < 65536" if "kind = ProxyRequestConnect"
    using assms that classify_connect_line [of line host port] copyProxyHost_ok
    by (auto simp: connect_line_def decimal_port_def copyProxyHost_text)
  moreover have "host_ok host \<and> 0 < port \<and> port < 65536" if "kind = ProxyRequestAbsolute"
    using assms that classify_absolute_line [of line host port] copyProxyHost_ok
    by (auto simp: absolute_line_def authority_of_def decimal_port_def copyProxyHost_text)
  ultimately show ?thesis using kinds by (auto simp: invalid_request_def)
qed

section \<open>Properties of the request policy\<close>

text \<open>
  C19. The classifier accepts exactly the grammar of proxy requests: a line is a CONNECT
  request for a host and port exactly when it reads \<open>CONNECT host:port version\<close>, and an
  absolute-form request exactly when it reads \<open>method http://authority path version\<close>, with
  HTTP/1.0 or HTTP/1.1, a port written in decimal digits in 1..65535 (80 when absent) and a
  host text of less than 256 bytes without slash, space, CR, LF, at sign or NUL; the host
  returned is that text without the brackets of \<open>[...]\<close> (and without continuation bytes), in
  lower case, and is not empty. The grammar is stated apart from the code: none of the
  code's functions occurs in it.
\<close>

theorem classifyProxyRequestLine_spec:
  "(classifyProxyRequestLine line = (ProxyRequestConnect, host, port) \<longleftrightarrow> connect_line line host port) \<and>
   (classifyProxyRequestLine line = (ProxyRequestAbsolute, host, port) \<longleftrightarrow> absolute_line line host port)"
  by (simp only: classify_connect_line classify_absolute_line)

text \<open>
  Whatever the request line, a host the classifier returns is a non-empty lower-case
  name of less than 256 bytes without slash, space, CR, LF, at sign or NUL, and its port is
  in 1..65535; requests of the other kinds carry no host and port 0.
\<close>

theorem classified_host_is_clean:
  assumes "classifyProxyRequestLine line = (kind, host, port)"
  shows "kind \<in> {ProxyRequestInvalid, ProxyRequestAPI, ProxyRequestConnect, ProxyRequestAbsolute} \<and>
    (if kind = ProxyRequestConnect \<or> kind = ProxyRequestAbsolute
     then host_ok host \<and> 0 < port \<and> port < 65536 else host = [] \<and> port = 0)"
  by (rule classified_clean [OF assms])

theorem classified_host_is_clean_witness:
  "host_ok ''pypi.org''"
proof -
  have l: "classifyProxyRequestLine ''CONNECT PyPI.org:443 HTTP/1.1'' = (2, ''pypi.org'', 443)" by code_simp
  show ?thesis using classified_host_is_clean [OF l] by simp
qed

text \<open>
  C25. For an ASCII host, the allowlist admits it exactly when the host is not empty and one
  entry names it, ignoring case: an exact entry, or a wildcard \<open>*.suffix\<close> that the host
  equals or lies below at a label boundary. A wildcard never matches a host that merely
  ends with the suffix.
\<close>

theorem proxyHostAllowed_spec:
  assumes "ascii host"
  shows "proxyHostAllowed host allowlist \<longleftrightarrow>
    host \<noteq> [] \<and> (\<exists>entry \<in> set (FieldsFunc allowlist allowlist_separator). entry_matches host entry)"
  by (auto simp: proxyHostAllowed_def host_in_entries_iff [OF assms] FieldsFunc_def)

theorem proxyHostAllowed_spec_witness:
  "proxyHostAllowed ''a.b.org'' ''x.org, *.B.org'' \<and> \<not> proxyHostAllowed ''ab.org'' ''x.org, *.B.org''"
proof -
  have f: "set (FieldsFunc ''x.org, *.B.org'' allowlist_separator) = {''x.org'', ''*.B.org''}"
    by (simp add: FieldsFunc_def allowlist_separator_def)
  have l: "lower_byte CHR ''B'' = CHR ''b''" "map lower_byte ''.org'' = ''.org''"
    "map lower_byte ''abx'' = ''abx''" by code_simp+
  have "entry_matches ''a.b.org'' ''*.B.org''"
    using l by (simp add: entry_matches_def HasPrefix_def)
  moreover have "\<not> entry_matches ''ab.org'' ''*.B.org''" "\<not> entry_matches ''ab.org'' ''x.org''"
    using l by (auto simp: entry_matches_def HasPrefix_def append_eq_Cons_conv)
  ultimately show ?thesis
    using proxyHostAllowed_spec [of "''a.b.org''" "''x.org, *.B.org''"]
      proxyHostAllowed_spec [of "''ab.org''" "''x.org, *.B.org''"] by (simp add: f)
qed

text \<open>The built-in allowlist admits, among ASCII hosts and ignoring case, exactly the six
  package hosts it names, \<open>archive.ubuntu.com\<close>, and the hosts below \<open>archive.ubuntu.com\<close>.
\<close>

theorem default_allowlist_hosts:
  assumes "ascii host"
  shows "proxyHostAllowed host DefaultPackageAllowlist \<longleftrightarrow>
    map lower_byte host \<in> {''deb.debian.org'', ''security.debian.org'', ''archive.ubuntu.com'',
      ''security.ubuntu.com'', ''registry.npmjs.org'', ''pypi.org'', ''files.pythonhosted.org''} \<or>
    (\<exists>label. label \<noteq> [] \<and> map lower_byte host = label @ ''.archive.ubuntu.com'')"
proof -
  have f: "FieldsFunc DefaultPackageAllowlist allowlist_separator =
      [''deb.debian.org'', ''security.debian.org'', ''*.archive.ubuntu.com'',
       ''security.ubuntu.com'', ''registry.npmjs.org'', ''pypi.org'', ''files.pythonhosted.org'']"
    by code_simp
  have l: "map lower_byte ''deb.debian.org'' = ''deb.debian.org''"
    "map lower_byte ''security.debian.org'' = ''security.debian.org''"
    "map lower_byte ''archive.ubuntu.com'' = ''archive.ubuntu.com''"
    "map lower_byte ''security.ubuntu.com'' = ''security.ubuntu.com''"
    "map lower_byte ''registry.npmjs.org'' = ''registry.npmjs.org''"
    "map lower_byte ''pypi.org'' = ''pypi.org''"
    "map lower_byte ''files.pythonhosted.org'' = ''files.pythonhosted.org''" by code_simp+
  have p: "HasPrefix ''*.archive.ubuntu.com'' ''*.''" "drop 2 ''*.archive.ubuntu.com'' = ''archive.ubuntu.com''"
    "\<not> HasPrefix ''deb.debian.org'' ''*.''" "\<not> HasPrefix ''security.debian.org'' ''*.''"
    "\<not> HasPrefix ''security.ubuntu.com'' ''*.''" "\<not> HasPrefix ''registry.npmjs.org'' ''*.''"
    "\<not> HasPrefix ''pypi.org'' ''*.''" "\<not> HasPrefix ''files.pythonhosted.org'' ''*.''"
    by (simp_all add: HasPrefix_def)
  have wild: "entry_matches host ''*.archive.ubuntu.com'' \<longleftrightarrow> map lower_byte host = ''archive.ubuntu.com'' \<or>
      (\<exists>label. label \<noteq> [] \<and> map lower_byte host = label @ ''.archive.ubuntu.com'')"
    unfolding entry_matches_def p(2) l(3) by (simp add: p(1))
  have exact: "entry_matches host e \<longleftrightarrow> map lower_byte host = map lower_byte e" if "\<not> HasPrefix e ''*.''" for e
    using that by (simp add: entry_matches_def)
  have entries: "proxyHostAllowed host DefaultPackageAllowlist \<longleftrightarrow>
      host_in_entries host (FieldsFunc DefaultPackageAllowlist allowlist_separator) \<and> host \<noteq> []"
    by (auto simp: proxyHostAllowed_def DefaultPackageAllowlist_def)
  show ?thesis
    unfolding entries f host_in_entries_iff [OF assms] list.set bex_simps exact [OF p(3)] exact [OF p(4)]
      exact [OF p(5)] exact [OF p(6)] exact [OF p(7)] exact [OF p(8)] wild l by auto
qed

theorem default_allowlist_hosts_witness:
  "proxyHostAllowed ''pypi.org'' DefaultPackageAllowlist"
proof -
  have "map lower_byte ''pypi.org'' = ''pypi.org''" by code_simp
  then show ?thesis using default_allowlist_hosts [of "''pypi.org''"] by simp
qed

text \<open>
  C18. \<open>rewriteProxyHead\<close> is a parser and printer: it succeeds exactly on heads of the form
  \<open>method http://authority path version LF headers\<close> whose headers are well formed, and then
  returns the origin-form request line, the header lines that survive in their order, and
  \<open>Connection: close\<close>. The header block, here split by a separate scan, ends at the first
  line of at most two bytes; a header survives when its name is none of the ten hop-by-hop
  and credential names and is nominated by no \<open>Connection\<close> or \<open>Proxy-Connection\<close> header of
  the block, wherever that header stands. Which headers are well formed and which survive
  (\<open>header_ok\<close>, \<open>header_survives\<close>) is stated without any function of the code.
\<close>

theorem rewriteProxyHead_spec:
  "rewriteProxyHead uni head = Some out \<longleftrightarrow>
    (\<exists>method authority path version rest.
      head = method @ '' http://'' @ authority @ path @ '' '' @ version @ [LF] @ rest \<and>
      CHR '' '' \<notin> set method \<and> CHR '' '' \<notin> set authority \<and> CHR '' '' \<notin> set path \<and>
      LF \<notin> set method \<and> LF \<notin> set authority \<and> LF \<notin> set path \<and> LF \<notin> set version \<and>
      CHR ''/'' \<notin> set authority \<and> (path = [] \<or> hd path = CHR ''/'') \<and>
      8 \<le> length (TrimSuffix version [CHR 0x0D]) \<and> list_all (header_ok uni) (header_block rest) \<and>
      out = rewritten uni method path (TrimSuffix version [CHR 0x0D]) (header_block rest))"
  by (rule rewriteProxyHead_iff)

definition after_line :: "string \<Rightarrow> string" where
  \<comment> \<open>what follows the first line of a text\<close>
  "after_line s = tl (dropWhile (\<lambda>c. c \<noteq> LF) s)"

lemma after_line_app: "LF \<notin> set l \<Longrightarrow> after_line (l @ LF # s) = s"
  by (simp add: after_line_def dropWhile_append)

fun ended :: "string list \<Rightarrow> bool" where
  \<comment> \<open>lines with no line feed but at their end, where all but the last must have one\<close>
  "ended [] = True"
| "ended (l # ls) =
    (l \<noteq> [] \<and> LF \<notin> set (butlast l) \<and> (ls \<noteq> [] \<longrightarrow> last l = LF) \<and> ended ls)"

lemma ended_lines_lf: "ended (lines_lf s)"
proof (induction s)
  case (Cons c s)
  then show ?case by (cases "lines_lf s") (auto dest: in_set_butlastD)
qed simp

lemma ended_takeWhile: "ended ls \<Longrightarrow> ended (takeWhile P ls)"
  by (induction ls) auto

lemma ended_filter: "ended ls \<Longrightarrow> ended (filter P ls)"
  by (induction ls) auto

lemma lines_lf_app: "LF \<notin> set l \<Longrightarrow> lines_lf (l @ LF # s) = (l @ [LF]) # lines_lf s"
  by (induction l) auto

definition closing :: string where
  "closing = ''Connection: close'' @ CRLF"

lemma header_block_line:
  "LF \<notin> set l \<Longrightarrow> header_block (l @ LF # s) = (if l = [] \<or> length l = 1 then [] else (l @ [LF]) # header_block s)"
  by (cases l) (auto simp: header_block_def lines_lf_app [of "_ # _", simplified])

lemma header_block_closing:
  assumes "LF \<notin> set l"
  shows "header_block (l @ closing @ CRLF) = [l @ closing]"
proof -
  define c where "c = ''Connection: close'' @ [CHR 0x0D]"
  have "LF \<notin> set (l @ c)" "l @ c \<noteq> []" "length (l @ c) \<noteq> 1" using assms by (simp_all add: c_def)
  then have "header_block ((l @ c) @ LF # CRLF) = [(l @ c) @ [LF]]"
    using header_block_line [of "l @ c" CRLF] header_block_line [of "[CHR 0x0D]" "[]"] by simp
  moreover have c: "closing = c @ [LF]" by (simp add: closing_def c_def)
  ultimately show ?thesis unfolding c by simp
qed

lemma header_block_closed:
  assumes "ended kept" and "\<forall>l \<in> set kept. 2 < length l"
  shows "header_block (concat kept @ closing @ CRLF) =
    (if kept \<noteq> [] \<and> last (last kept) \<noteq> LF then butlast kept @ [last kept @ closing] else kept @ [closing])"
  using assms
proof (induction kept)
  case Nil
  then show ?case using header_block_closing [of "[]"] by simp
next
  case (Cons l ls)
  then have l: "l = butlast l @ [last l]" "LF \<notin> set (butlast l)" "2 < length l" by simp_all
  show ?case
  proof (cases "last l = LF")
    case True
    then have ls: "l @ s = butlast l @ LF # s" for s
      by (subst l(1)) (simp only: append_assoc append_Cons append_Nil)
    have s: "concat (l # ls) @ closing @ CRLF = butlast l @ LF # (concat ls @ closing @ CRLF)"
      unfolding concat.simps append_assoc by (rule ls)
    have "1 < length (butlast l)" using l(3) unfolding length_butlast by linarith
    then have "butlast l \<noteq> []" "length (butlast l) \<noteq> 1" by fastforce+
    then have "header_block (concat (l # ls) @ closing @ CRLF) =
        (butlast l @ [LF]) # header_block (concat ls @ closing @ CRLF)"
      unfolding s header_block_line [OF l(2)] by simp
    also have "butlast l @ [LF] = l" using l(1) True by simp
    finally show ?thesis using Cons True by simp
  next
    case False
    have "ls = []" using Cons.prems(1) False by auto
    moreover have "set l = insert (last l) (set (butlast l))" by (subst l(1)) simp
    then have "LF \<notin> set l" using l(2) False by auto
    ultimately show ?thesis using header_block_closing [of l] False l(3) by auto
  qed
qed

lemma closed_header:
  assumes "ended kept" and "\<forall>l \<in> set kept. 2 < length l"
    and "h \<in> set (header_block (concat kept @ closing @ CRLF))"
  shows "h = closing \<or> (\<exists>g \<in> set kept. h = g \<or> h = g @ closing)"
  using assms(3) unfolding header_block_closed [OF assms(1,2)]
  by (auto split: if_splits dest: in_set_butlastD)

lemma concat_closed:
  assumes "ended kept" and "\<forall>l \<in> set kept. 2 < length l"
  shows "concat (header_block (concat kept @ closing @ CRLF)) = concat kept @ closing"
  unfolding header_block_closed [OF assms]
  by (cases kept rule: rev_cases) auto

lemma field_name_app: "CHR '':'' \<in> set g \<Longrightarrow> field_name (g @ s) = field_name g"
  by (simp add: field_name_def)

lemma surviving_header_safe:
  assumes "header_ok uni g" and "header_survives uni block g" and "h = g \<or> h = g @ closing"
  shows "well_named (field_name h) \<and>
    ToLower uni (ToLower uni (field_name h)) \<notin> stripped_names \<and>
    (ascii (field_name h) \<longrightarrow> map lower_byte (field_name h) \<notin> stripped_names) \<and>
    (\<forall>c \<in> set block. is_connection uni c \<longrightarrow>
      ToLower uni (field_name h) \<notin> ToLower uni ` set (connection_options c))"
proof -
  have n: "field_name h = field_name g" using assms(1,3) by (auto simp: header_ok_def field_name_app)
  have "map lower_byte (field_name g) \<notin> stripped_names" if "ascii (field_name g)"
    using assms(2) ToLower_idem_ascii [OF that, of uni] ToLower_ascii [OF that, of uni]
    unfolding header_survives_def by simp
  then show ?thesis using assms(1,2) unfolding n header_ok_def header_survives_def by blast
qed

text \<open>
  C6. What a recipient reads of the rewritten head: after its first line come header lines
  and the empty line that ends them, and nothing else. Every header line that is read there
  is \<open>Connection: close\<close> or a header line of the original head (which, when it is the last
  one and lacks its line feed, runs into \<open>Connection: close\<close>) whose name is well formed, is
  none of the ten credential and hop-by-hop names in any letter case, and is nominated by no
  connection header of the original head.
\<close>

theorem rewrite_strips:
  assumes "rewriteProxyHead uni head = Some out"
  shows "after_line out = concat (header_block (after_line out)) @ CRLF \<and>
    (\<exists>before. after_line out = before @ ''Connection: close'' @ CRLF @ CRLF) \<and>
    (\<forall>h \<in> set (header_block (after_line out)). h = ''Connection: close'' @ CRLF \<or>
      (\<exists>g \<in> set (header_block (after_line head)). (h = g \<or> h = g @ ''Connection: close'' @ CRLF) \<and>
        well_named (field_name h) \<and>
        ToLower uni (ToLower uni (field_name h)) \<notin> stripped_names \<and>
        (ascii (field_name h) \<longrightarrow> map lower_byte (field_name h) \<notin> stripped_names) \<and>
        (\<forall>c \<in> set (header_block (after_line head)). is_connection uni c \<longrightarrow>
          ToLower uni (field_name h) \<notin> ToLower uni ` set (connection_options c))))"
proof -
  obtain m a q v rest where h: "head = m @ '' http://'' @ a @ q @ '' '' @ v @ [LF] @ rest"
    "LF \<notin> set m" "LF \<notin> set a" "LF \<notin> set q" "LF \<notin> set v" "list_all (header_ok uni) (header_block rest)"
    "out = rewritten uni m q (TrimSuffix v [CHR 0x0D]) (header_block rest)"
    using assms unfolding rewriteProxyHead_iff by blast
  define block where "block = header_block rest"
  define kept where "kept = filter (header_survives uni block) block"
  have "LF \<notin> set (take 8 (TrimSuffix v [CHR 0x0D]))"
    using h(5) by (auto simp: TrimSuffix_def dest: in_set_takeD)
  then have out: "after_line out = concat kept @ closing @ CRLF"
    using h(2,4) after_line_app [of "m @ '' '' @ (if q = [] then ''/'' else q) @ '' '' @
      take 8 (TrimSuffix v [CHR 0x0D]) @ [CHR 0x0D]" "concat kept @ closing @ CRLF"]
    by (simp add: h(7) rewritten_def closing_def kept_def block_def)
  have head: "after_line head = rest"
    using h(2-5) after_line_app [of "m @ '' http://'' @ a @ q @ '' '' @ v" rest] by (simp add: h(1))
  have e: "ended kept"
    unfolding kept_def block_def header_block_def by (intro ended_filter ended_takeWhile ended_lines_lf)
  have l: "\<forall>l \<in> set kept. 2 < length l"
    by (auto simp: kept_def block_def header_block_def dest: set_takeWhileD)
  show ?thesis
    unfolding out head closing_def [symmetric] concat_closed [OF e l]
  proof (intro conjI ballI)
    fix h assume "h \<in> set (header_block (concat kept @ closing @ CRLF))"
    then have "h = closing \<or> (\<exists>g \<in> set kept. h = g \<or> h = g @ closing)" by (rule closed_header [OF e l])
    moreover have "header_ok uni g" "header_survives uni block g" "g \<in> set block" if "g \<in> set kept" for g
      using that assms h(6) by (auto simp: kept_def block_def list_all_iff)
    ultimately show "h = closing \<or> (\<exists>g \<in> set (header_block rest). (h = g \<or> h = g @ closing) \<and>
        well_named (field_name h) \<and> ToLower uni (ToLower uni (field_name h)) \<notin> stripped_names \<and>
        (ascii (field_name h) \<longrightarrow> map lower_byte (field_name h) \<notin> stripped_names) \<and>
        (\<forall>c \<in> set (header_block rest). is_connection uni c \<longrightarrow>
          ToLower uni (field_name h) \<notin> ToLower uni ` set (connection_options c)))"
      using surviving_header_safe [of uni _ block h] unfolding block_def by metis
  next
    show "\<exists>before. concat kept @ closing @ CRLF = before @ ''Connection: close'' @ CRLF @ CRLF"
      by (simp add: closing_def)
  qed simp
qed

definition sample_head :: string where
  "sample_head = ''GET http://PyPI.org:80/x HTTP/1.1'' @ CRLF @ ''Cookie: z'' @ CRLF @ ''Accept: y'' @ CRLF @
     ''X-Hop: 1'' @ CRLF @ ''Connection: close, x-hop'' @ CRLF @ CRLF"

definition sample_out :: string where
  "sample_out = ''GET /x HTTP/1.1'' @ CRLF @ ''Accept: y'' @ CRLF @ ''Connection: close'' @ CRLF @ CRLF"

lemma rewrite_sample: "rewriteProxyHead id sample_head = Some sample_out"
  by code_simp

theorem rewrite_strips_witness:
  "header_block (after_line sample_out) = [''Accept: y'' @ CRLF, ''Connection: close'' @ CRLF] \<and>
   well_named (field_name (''Accept: y'' @ CRLF)) \<and>
   map lower_byte (field_name (''Accept: y'' @ CRLF)) \<notin> stripped_names"
proof -
  have b: "header_block (after_line sample_out) = [''Accept: y'' @ CRLF, ''Connection: close'' @ CRLF]"
    "''Accept: y'' @ CRLF \<noteq> ''Connection: close'' @ CRLF" "ascii (field_name (''Accept: y'' @ CRLF))"
    by code_simp+
  have "''Accept: y'' @ CRLF \<in> set (header_block (after_line sample_out))" by (simp add: b(1))
  from bspec [OF rewrite_strips [OF rewrite_sample, THEN conjunct2, THEN conjunct2] this]
  have "well_named (field_name (''Accept: y'' @ CRLF)) \<and>
    map lower_byte (field_name (''Accept: y'' @ CRLF)) \<notin> stripped_names"
  proof
    assume "''Accept: y'' @ CRLF = ''Connection: close'' @ CRLF"
    with b(2) show ?thesis by contradiction
  next
    assume "\<exists>g \<in> set (header_block (after_line sample_head)).
      (''Accept: y'' @ CRLF = g \<or> ''Accept: y'' @ CRLF = g @ ''Connection: close'' @ CRLF) \<and>
      well_named (field_name (''Accept: y'' @ CRLF)) \<and>
      ToLower id (ToLower id (field_name (''Accept: y'' @ CRLF))) \<notin> stripped_names \<and>
      (ascii (field_name (''Accept: y'' @ CRLF)) \<longrightarrow>
        map lower_byte (field_name (''Accept: y'' @ CRLF)) \<notin> stripped_names) \<and>
      (\<forall>c \<in> set (header_block (after_line sample_head)). is_connection id c \<longrightarrow>
        ToLower id (field_name (''Accept: y'' @ CRLF)) \<notin> ToLower id ` set (connection_options c))"
    with b(3) show ?thesis by (elim bexE conjE) (rule conjI, assumption, erule mp, assumption)
  qed
  with b(1) show ?thesis by (rule conjI)
qed

text \<open>
  C20. The request line that is forwarded is the one that was judged: when a head is
  classified as absolute-form for a host and port and its rewrite succeeds, both read the
  same method, authority, path and version out of it; the allowlist was asked about the host
  of exactly the authority that the rewrite removes, and the forwarded line carries the same
  method and path and a supported version.
\<close>

theorem rewrite_consistent:
  assumes "classifyProxyRequestLine head = (ProxyRequestAbsolute, host, port)"
    and "rewriteProxyHead uni head = Some out"
  shows "\<exists>method authority path version rest h.
    head = method @ '' http://'' @ authority @ path @ '' '' @ version @ [LF] @ rest \<and>
    CHR '' '' \<notin> set method \<and> CHR '' '' \<notin> set path \<and> LF \<notin> set (method @ path) \<and>
    authority_of authority h port \<and> copyProxyHost h = Some host \<and>
    take 8 version \<in> {''HTTP/1.0'', ''HTTP/1.1''} \<and>
    HasPrefix out (method @ '' '' @ (if path = [] then ''/'' else path) @ '' '' @ take 8 version @ CRLF)"
proof -
  obtain m' a' q' v' h where c: "head = m' @ '' http://'' @ a' @ q' @ '' '' @ v'"
    "CHR '' '' \<notin> set m'" "supported_version v'" "CHR ''/'' \<notin> set a'" "CHR '' '' \<notin> set q'"
    "q' = [] \<or> hd q' = CHR ''/''" "authority_of a' h port" "host_text h host"
    using assms(1) unfolding classify_absolute_line absolute_line_def by blast
  obtain m a q v rest where r: "head = m @ '' http://'' @ a @ q @ '' '' @ v @ [LF] @ rest"
    "CHR '' '' \<notin> set m" "LF \<notin> set m" "CHR '' '' \<notin> set a" "CHR ''/'' \<notin> set a" "CHR '' '' \<notin> set q"
    "LF \<notin> set q" "q = [] \<or> hd q = CHR ''/''" "8 \<le> length (TrimSuffix v [CHR 0x0D])"
    "out = rewritten uni m q (TrimSuffix v [CHR 0x0D]) (header_block rest)"
    using assms(2) unfolding rewriteProxyHead_iff by blast
  define t' t where "t' = ''http://'' @ a' @ q'" and "t = ''http://'' @ a @ q"
  have "m' = m \<and> t' @ CHR '' '' # v' = t @ CHR '' '' # (v @ [LF] @ rest)"
    by (rule first_space_unique) (use c r in \<open>simp_all add: t'_def t_def\<close>)
  moreover from this have "t' = t \<and> v' = v @ [LF] @ rest"
    by (intro first_space_unique) (use c(5) r(4,6) authority_no_space [OF c(7,8)] in \<open>simp_all add: t'_def t_def\<close>)
  ultimately have eq: "m' = m" "t' = t" "v' = v @ [LF] @ rest" by blast+
  then have aq: "a' = a \<and> q' = q"
    by (intro authority_path_unique) (use c(4,6) r(5,8) in \<open>simp_all add: t'_def t_def\<close>)
  have len: "8 \<le> length v" and tk: "take 8 (TrimSuffix v [CHR 0x0D]) = take 8 v"
    using r(9) by (auto simp: TrimSuffix_def split: if_splits)
  have "take 8 v' \<in> {''HTTP/1.0'', ''HTTP/1.1''}"
    using c(3) by (auto simp: supported_version_def)
  then have ver: "take 8 v \<in> {''HTTP/1.0'', ''HTTP/1.1''}" using eq(3) len by simp
  have pfx: "HasPrefix out (m @ '' '' @ (if q = [] then ''/'' else q) @ '' '' @ take 8 v @ CRLF)"
    unfolding HasPrefix_iff r(10) rewritten_def tk by simp
  have lf: "LF \<notin> set (m @ q)" using r(3,7) by simp
  have auth: "authority_of a h port" using c(7) aq by simp
  have host: "copyProxyHost h = Some host" using c(8) by (simp add: copyProxyHost_text)
  show ?thesis
    by (intro exI conjI, rule r(1), rule r(2), rule r(6), rule lf, rule auth, rule host, rule ver, rule pfx)
qed

theorem rewrite_consistent_witness:
  "\<exists>method path version. HasPrefix sample_out (method @ '' '' @ path @ '' '' @ version @ CRLF)"
proof -
  have "classifyProxyRequestLine sample_head = (ProxyRequestAbsolute, ''pypi.org'', 80)" by code_simp
  from rewrite_consistent [OF this rewrite_sample] show ?thesis by blast
qed

section \<open>Where the policy differs from its documentation\<close>

text \<open>
  \<open>equalFoldASCII\<close> and \<open>copyProxyHost\<close> walk their strings with \<open>range\<close>, which steps over the
  continuation bytes of a multi-byte character: two names that differ only there compare
  equal, and those bytes are missing from the copied host.
\<close>

lemma equalFoldASCII_skips_continuations:
  "equalFoldASCII (map char_of [0xC3, 0xA9 :: nat] @ ''.org'') (map char_of [0xC3, 0xA8 :: nat] @ ''.org'')"
  by code_simp

lemma copyProxyHost_drops_continuations:
  "copyProxyHost (map char_of [0xC3, 0xA9 :: nat] @ ''.org'') = Some (char_of (0xC3 :: nat) # ''.org'')"
  by code_simp

text \<open>
  A head whose last header line has no line feed: the line is kept as it is and runs into
  the \<open>Connection: close\<close> that follows it.
\<close>

lemma rewrite_merges_unterminated_header:
  "rewriteProxyHead id (''GET http://a/ HTTP/1.1'' @ CRLF @ ''X: y'') =
    Some (''GET / HTTP/1.1'' @ CRLF @ ''X: yConnection: close'' @ CRLF @ CRLF)"
  by code_simp

end
