(* ===== verification/Go_Net.thy ===== *)
theory Go_Net
  imports Go_JSON Proxy_Address
begin

text \<open>
  \<open>net.ParseIP\<close> of the Go standard library, through \<open>netip.ParseAddr\<close>: dotted-quad IPv4
  without leading zeros, and IPv6 with at most one ellipsis and an embedded IPv4 tail, the
  result in its 16-byte form. Also the conversions between Go strings and byte slices, and
  decimal printing of integers.
\<close>

section \<open>Strings, bytes and numbers\<close>

definition to_string :: "byte list \<Rightarrow> string" where
  \<comment> \<open>\<open>string(bytes)\<close>\<close>
  "to_string bs = map (\<lambda>b. char_of (unat b)) bs"

definition to_bytes :: "string \<Rightarrow> byte list" where
  \<comment> \<open>\<open>[]byte(s)\<close>\<close>
  "to_bytes s = map (\<lambda>c. word_of_nat (ord c)) s"

fun show_nat :: "nat \<Rightarrow> string" where
  "show_nat n = (if n < 10 then [char_of (48 + n)] else show_nat (n div 10) @ [char_of (48 + n mod 10)])"

declare show_nat.simps [simp del]

definition show_int :: "int \<Rightarrow> string" where
  "show_int i = (if i < 0 then CHR ''-'' # show_nat (nat (- i)) else show_nat (nat i))"

section \<open>Parsing addresses\<close>

fun ipv4_fields :: "bool \<Rightarrow> nat \<Rightarrow> nat \<Rightarrow> byte list \<Rightarrow> string \<Rightarrow> byte list option" where
  \<comment> \<open>\<open>parseIPv4Fields\<close>: at the start or after a dot, the value and the number of digits of
      the current octet, and the octets before it\<close>
  "ipv4_fields dot val digits fields [] =
    (if length fields < 3 then None else Some (fields @ [word_of_nat val]))"
| "ipv4_fields dot val digits fields (c # s) =
    (if isDigit c then
       (if digits = 1 \<and> val = 0 then None
        else let val = val * 10 + (ord c - 48)
             in if val > 255 then None else ipv4_fields False val (digits + 1) fields s)
     else if c = CHR ''.'' then
       (if dot \<or> s = [] then None
        else if length fields = 3 then None
        else ipv4_fields True 0 0 (fields @ [word_of_nat val]) s)
     else None)"

definition isHex :: "char \<Rightarrow> bool" where "isHex c \<longleftrightarrow> hex_val c \<noteq> None"

definition hex_number :: "string \<Rightarrow> nat" where
  "hex_number ds = foldl (\<lambda>acc c. acc * 16 + the (hex_val c)) 0 ds"

lemma dropWhile_shorter: "dropWhile P s \<noteq> [] \<Longrightarrow> length (tl (dropWhile P s)) < length s"
  using length_dropWhile_le [of P s] by (cases "dropWhile P s") auto

function ipv6_groups :: "byte list \<Rightarrow> nat option \<Rightarrow> string \<Rightarrow> (byte list \<times> nat option \<times> string) option" where
  \<comment> \<open>the loop of \<open>parseIPv6\<close>: the bytes so far, the place of the ellipsis, the text left\<close>
  "ipv6_groups ip ellipsis s =
    (if 16 \<le> length ip then Some (ip, ellipsis, s)
     else
       let ds = takeWhile isHex s; rest = dropWhile isHex s
       in if ds = [] \<or> length ds > 4 then None
          else if rest \<noteq> [] \<and> hd rest = CHR ''.'' then
            (if ellipsis = None \<and> length ip \<noteq> 12 then None
             else if length ip + 4 > 16 then None
             else map_option (\<lambda>fields. (ip @ fields, ellipsis, [])) (ipv4_fields True 0 0 [] s))
          else
            let acc = hex_number ds;
                ip = ip @ [word_of_nat (acc div 256), word_of_nat (acc mod 256)]
            in if rest = [] then Some (ip, ellipsis, [])
               else if hd rest \<noteq> CHR '':'' then None
               else if length rest = 1 then None
               else if hd (tl rest) = CHR '':'' then
                 (if ellipsis \<noteq> None then None
                  else if tl (tl rest) = [] then Some (ip, Some (length ip), [])
                  else ipv6_groups ip (Some (length ip)) (tl (tl rest)))
               else ipv6_groups ip ellipsis (tl rest))"
  by pat_completeness auto
termination
proof (relation "measure (\<lambda>(_, _, s). length s)", goal_cases)
  case (2 ip ellipsis s)
  then show ?case
    using dropWhile_shorter [of isHex s] length_tl [of "tl (dropWhile isHex s)"] by simp
next
  case (3 ip ellipsis s)
  then show ?case using dropWhile_shorter [of isHex s] by simp
qed simp

declare ipv6_groups.simps [simp del]

definition expand_ellipsis :: "byte list \<times> nat option \<times> string \<Rightarrow> byte list option" where
  "expand_ellipsis st =
    (case st of (ip, ellipsis, s) \<Rightarrow>
       if s \<noteq> [] then None
       else if length ip < 16 then
         (case ellipsis of None \<Rightarrow> None
          | Some e \<Rightarrow> Some (take e ip @ replicate (16 - length ip) 0 @ drop e ip))
       else if ellipsis \<noteq> None then None
       else Some ip)"

definition parse_ipv6 :: "string \<Rightarrow> byte list option" where
  \<comment> \<open>an address with a zone is not a \<open>net.IP\<close>, one with an empty zone is malformed\<close>
  "parse_ipv6 s =
    (if CHR ''%'' \<in> set s then None
     else if HasPrefix s ''::'' then
       (if length s = 2 then Some (replicate 16 0)
        else case ipv6_groups [] (Some 0) (drop 2 s) of None \<Rightarrow> None | Some st \<Rightarrow> expand_ellipsis st)
     else case ipv6_groups [] None s of None \<Rightarrow> None | Some st \<Rightarrow> expand_ellipsis st)"

definition ParseIP :: "string \<Rightarrow> ip" where
  "ParseIP s =
    (case find (\<lambda>c. c = CHR ''.'' \<or> c = CHR '':'' \<or> c = CHR ''%'') s of
       None \<Rightarrow> None
     | Some c \<Rightarrow>
        if c = CHR ''.'' then map_option (\<lambda>v4. v4InV6Prefix @ v4) (ipv4_fields True 0 0 [] s)
        else if c = CHR '':'' then parse_ipv6 s
        else None)"

section \<open>Facts\<close>

lemma ord_char_of_byte: "ord (char_of (unat (b :: byte))) = unat b"
  using unsigned_less [of b, where ?'a = nat] by simp

lemma to_bytes_string [simp]: "to_bytes (to_string bs) = bs"
  by (simp add: to_bytes_def to_string_def ord_char_of_byte comp_def)

lemma to_string_bytes [simp]: "to_string (to_bytes s) = s"
  by (simp add: to_bytes_def to_string_def comp_def unat_of_nat ord_def)

lemma length_to_bytes [simp]: "length (to_bytes s) = length s"
  and length_to_string [simp]: "length (to_string bs) = length bs"
  by (simp_all add: to_bytes_def to_string_def)

lemma show_nat_digits: "list_all isDigit (show_nat n) \<and> show_nat n \<noteq> []"
proof (induction n rule: show_nat.induct)
  case (1 n)
  have "isDigit (char_of (48 + k))" if "k < 10" for k :: nat using that by (simp add: isDigit_def)
  with 1 show ?case by (subst (1 2) show_nat.simps) (auto simp del: ord_of_nat)
qed

lemma digit_char: "n < 10 \<Longrightarrow> isDigit (char_of (48 + n)) \<and> ord (char_of (48 + n)) - 48 = n"
  by (simp add: isDigit_def)

lemma ipv4_digit:
  "k < 10 \<Longrightarrow> ipv4_fields dot v n fields (char_of (48 + k) # s) =
    (if n = 1 \<and> v = 0 \<or> v * 10 + k > 255 then None else ipv4_fields False (v * 10 + k) (n + 1) fields s)"
  using digit_char [of k] by (simp add: Let_def del: ord_of_nat)

lemma ipv4_octet:
  assumes "n < 256" and "s = [] \<or> \<not> isDigit (hd s)"
  shows "ipv4_fields True 0 0 fields (show_nat n @ s) =
    (case s of
       [] \<Rightarrow> if length fields < 3 then None else Some (fields @ [word_of_nat n])
     | c # s' \<Rightarrow>
        if c = CHR ''.'' \<and> s' \<noteq> [] \<and> length fields \<noteq> 3
        then ipv4_fields True 0 0 (fields @ [word_of_nat n]) s' else None)"
proof -
  have fin: "ipv4_fields False n d fields s =
    (case s of
       [] \<Rightarrow> if length fields < 3 then None else Some (fields @ [word_of_nat n])
     | c # s' \<Rightarrow>
        if c = CHR ''.'' \<and> s' \<noteq> [] \<and> length fields \<noteq> 3
        then ipv4_fields True 0 0 (fields @ [word_of_nat n]) s' else None)" for d
    using assms(2) by (cases s) auto
  have ten: "n div 10 * 10 + n mod 10 = n" "n div 100 * 10 + n div 10 mod 10 = n div 10"
    using div_mult_mod_eq [of n 10] div_mult_mod_eq [of "n div 10" 10] div_mult2_eq [of n 10 10] by simp_all
  have "\<not> 255 < n div 10" "\<not> 255 < n div 100" using assms(1) by linarith+
  then have le: "(255 < n div 10) = False" "(255 < n div 100) = False" by (blast intro: eq_False [THEN iffD2])+
  consider "n < 10" | "10 \<le> n" "n < 100" | "100 \<le> n" by linarith
  then show ?thesis
  proof cases
    case 1
    then show ?thesis using fin by (simp add: show_nat.simps ipv4_digit del: ipv4_fields.simps)
  next
    case 2
    have h: "n div 10 < 10" "n div 10 \<noteq> 0" using 2 by linarith+
    from 2 h have "show_nat n = [char_of (48 + n div 10), char_of (48 + n mod 10)]"
      by (simp add: show_nat.simps [of n] show_nat.simps [of "n div 10"])
    then show ?thesis
      using fin 2 h ten(1) assms(1) by (simp add: ipv4_digit le del: ipv4_fields.simps)
  next
    case 3
    have h: "n div 100 < 10" "\<not> n div 10 < 10" "n div 100 \<noteq> 0" using 3 assms(1) by linarith+
    from 3 h have d: "show_nat n = [char_of (48 + n div 100), char_of (48 + n div 10 mod 10), char_of (48 + n mod 10)]"
      by (simp add: show_nat.simps [of n] show_nat.simps [of "n div 10"] show_nat.simps [of "n div 100"]
          div_mult2_eq [symmetric])
    show ?thesis
      using fin h ten assms(1) unfolding d by (simp add: ipv4_digit le del: ipv4_fields.simps)
  qed
qed

definition dotted :: "nat \<Rightarrow> nat \<Rightarrow> nat \<Rightarrow> nat \<Rightarrow> string" where
  "dotted a b c d = show_nat a @ ''.'' @ show_nat b @ ''.'' @ show_nat c @ ''.'' @ show_nat d"

lemma find_skip: "list_all (\<lambda>x. \<not> P x) xs \<Longrightarrow> find P (xs @ ys) = find P ys"
  by (induction xs) auto

lemma ParseIP_dotted:
  assumes "a < 256" "b < 256" "c < 256" "d < 256"
  shows "ParseIP (dotted a b c d) = Some (v4InV6Prefix @ map word_of_nat [a, b, c, d])"
proof -
  have dot: "\<not> isDigit CHR ''.''" by (simp add: isDigit_def)
  have "list_all (\<lambda>x. \<not> (x = CHR ''.'' \<or> x = CHR '':'' \<or> x = CHR ''%'')) (show_nat a)"
    using show_nat_digits [of a] by (auto simp: list_all_iff isDigit_def)
  then have "find (\<lambda>x. x = CHR ''.'' \<or> x = CHR '':'' \<or> x = CHR ''%'') (dotted a b c d) = Some CHR ''.''"
    by (simp add: dotted_def find_skip)
  moreover have "ipv4_fields True 0 0 [] (dotted a b c d) = Some (map word_of_nat [a, b, c, d])"
    using assms ipv4_octet [of d "[]"] show_nat_digits
    by (simp add: dotted_def ipv4_octet dot)
  ultimately show ?thesis by (simp add: ParseIP_def)
qed

lemma ipv4_fields_length: "ipv4_fields dot v n fields s = Some bs \<Longrightarrow> length fields \<le> 3 \<Longrightarrow> length bs = 4"
  by (induction dot v n fields s rule: ipv4_fields.induct) (auto simp: Let_def split: if_splits)

lemma ipv6_groups_length:
  "ipv6_groups ip e s = Some (ip', e', s') \<Longrightarrow> length ip \<le> 16 \<Longrightarrow> even (length ip) \<Longrightarrow> length ip' \<le> 16"
proof (induction "length s" arbitrary: ip e s rule: less_induct)
  case less
  have len: "length ip < 16 \<Longrightarrow> length ip \<le> 14" using less.prems(3) by presburger
  have v4: "ipv4_fields True 0 0 [] s = Some f \<Longrightarrow> length f = 4" for f
    by (drule ipv4_fields_length) simp_all
  let ?rest = "dropWhile isHex s"
  have IH: "length ip' \<le> 16"
    if "ipv6_groups (ip @ [x, y]) e2 u = Some (ip', e', s')" "u = tl ?rest \<or> u = tl (tl ?rest)" "length ip \<le> 14"
      "?rest \<noteq> []" for x y e2 u
    using that less.hyps [OF _ that(1)] less.prems(3) dropWhile_shorter [of isHex s] length_tl [of "tl ?rest"]
    by fastforce
  show ?case
  proof (cases "16 \<le> length ip")
    case True
    then show ?thesis using less.prems(1,2) by (simp add: ipv6_groups.simps)
  next
    case False
    have "ipv6_groups ip e s = Some (ip', e', s')" by (fact less.prems(1))
    then show ?thesis
      using len False v4 less.prems(3)
      by (subst (asm) ipv6_groups.simps)
        (auto simp: Let_def simp del: dropWhile_eq_Nil_conv split: if_splits dest: IH)
  qed
qed

lemma ParseIP_length: "ParseIP s = Some bs \<Longrightarrow> length bs = 16"
proof -
  have e: "length bs = 16" if "expand_ellipsis (ip, e, s') = Some bs" "length ip \<le> 16" for ip e s'
    using that by (auto simp: expand_ellipsis_def split: if_splits option.splits)
  have "length bs = 16" if "parse_ipv6 s = Some bs"
    using that ipv6_groups_length [of "[]"] e
    by (fastforce simp: parse_ipv6_def split: if_splits option.splits)
  then show "ParseIP s = Some bs \<Longrightarrow> length bs = 16"
    by (auto simp: ParseIP_def v4InV6Prefix_def dest: ipv4_fields_length split: option.splits if_splits)
qed

end
