(* ===== verification/Bus_Ops.thy ===== *)
theory Bus_Ops
  imports Client
begin

text \<open>
  The narrow bus surface the module runtime and the module caller are written against: the
  Go interfaces \<open>moduleBus\<close> and \<open>callerBus\<close>, with the clock and the context the loops
  consult, as a record of operations over a world; what a client of the interface may rely
  on, as locales; and the interface on the real client, in a world with a host that takes
  slots from the outbound ring while a loop waits.

  An operation whose value is \<open>None\<close> does not return: the process crashes in it.
\<close>

section \<open>The interface\<close>

record 'w bus_ops =
  op_Poll :: "'w \<Rightarrow> (poll_result \<times> 'w) option"
  op_ReplyFragment :: "u32 \<Rightarrow> u64 \<Rightarrow> byte list \<Rightarrow> bool \<Rightarrow> 'w \<Rightarrow> (bus_error option \<times> 'w) option"
  op_RequestFragment :: "u32 \<Rightarrow> u64 \<Rightarrow> byte list \<Rightarrow> bool \<Rightarrow> 'w \<Rightarrow> (bus_error option \<times> 'w) option"
  op_Cancel :: "u32 \<Rightarrow> u64 \<Rightarrow> 'w \<Rightarrow> (bus_error option \<times> 'w) option"
  op_Heartbeat :: "u64 \<Rightarrow> 'w \<Rightarrow> 'w option"
  op_EpochChanged :: "'w \<Rightarrow> bool option"
  op_moduleInlineBudget :: "'w \<Rightarrow> u32"
  op_clock :: "'w \<Rightarrow> u64 \<times> 'w"       \<comment> \<open>\<open>monotonicNowNS()\<close>, 0 when the clock fails\<close>
  op_done :: "'w \<Rightarrow> bool"             \<comment> \<open>\<open>ctx.Done()\<close> is closed\<close>
  op_wait :: "'w \<Rightarrow> bool \<times> 'w"        \<comment> \<open>wait for the context or a timer: the context ended\<close>
  op_now :: "'w \<Rightarrow> int"               \<comment> \<open>\<open>time.Now()\<close>, in nanoseconds\<close>
  op_sleep :: "'w \<Rightarrow> 'w"              \<comment> \<open>\<open>time.Sleep\<close> for a poll interval\<close>

type_synonym outgoing = "u16 \<times> u32 \<times> u64 \<times> byte list"

definition outgoing :: "u16 \<Rightarrow> u32 \<Rightarrow> u64 \<Rightarrow> byte list \<Rightarrow> outgoing" where
  \<comment> \<open>a frame as the host sees it: flags on the wire, kind, correlation and payload\<close>
  "outgoing flags kind corr p = (if p = [] then flags else flags OR FInline, kind, corr, p)"

definition reply_flags :: "bool \<Rightarrow> u16" where
  "reply_flags is_more = (if is_more then FReply OR FMore else FReply)"

definition request_flags :: "bool \<Rightarrow> u16" where
  "request_flags is_more = (if is_more then FRequest OR FMore else FRequest)"

section \<open>What a client of the interface relies on\<close>

text \<open>
  \<open>sent w\<close> is the history of the frames sent. A send that reports success has appended its
  frame to it, one that reports an error has changed nothing; no other operation sends.
\<close>

locale bus_port =
  fixes ops :: "'w bus_ops" and inv :: "'w \<Rightarrow> bool" and sent :: "'w \<Rightarrow> outgoing list"
  assumes reply_law: "inv w \<Longrightarrow>
      \<exists>e w'. op_ReplyFragment ops kind corr p is_more w = Some (e, w') \<and> inv w' \<and>
        sent w' = sent w @ (if e = None then [outgoing (reply_flags is_more) kind corr p] else []) \<and>
        (e \<noteq> None \<longrightarrow> w' = w)"
    and request_law: "inv w \<Longrightarrow>
      \<exists>e w'. op_RequestFragment ops kind corr p is_more w = Some (e, w') \<and> inv w' \<and>
        sent w' = sent w @ (if e = None then [outgoing (request_flags is_more) kind corr p] else []) \<and>
        (e \<noteq> None \<longrightarrow> w' = w)"
    and cancel_law: "inv w \<Longrightarrow>
      \<exists>e w'. op_Cancel ops kind corr w = Some (e, w') \<and> inv w' \<and>
        sent w' = sent w @ (if e = None then [outgoing FCancel kind corr []] else []) \<and>
        (e \<noteq> None \<longrightarrow> w' = w)"
    and heartbeat_law: "inv w \<Longrightarrow> \<exists>w'. op_Heartbeat ops now w = Some w' \<and> inv w' \<and> sent w' = sent w"
    and epoch_law: "inv w \<Longrightarrow> \<exists>b. op_EpochChanged ops w = Some b"
    and clock_law: "inv w \<Longrightarrow> op_clock ops w = (now, w') \<Longrightarrow> inv w' \<and> sent w' = sent w"
    and wait_law: "inv w \<Longrightarrow> op_wait ops w = (b, w') \<Longrightarrow> inv w' \<and> sent w' = sent w"
    and poll_law: "inv w \<Longrightarrow> op_Poll ops w = Some (r, w') \<Longrightarrow> inv w' \<and> sent w' = sent w"
    and sleep_law: "inv w \<Longrightarrow> inv (op_sleep ops w) \<and> sent (op_sleep ops w) = sent w"
    and budget_law: "inv w \<Longrightarrow> op_wait ops w = (b, w') \<Longrightarrow> op_moduleInlineBudget ops w' = op_moduleInlineBudget ops w"

text \<open>
  A fair host makes room: \<open>patience\<close> bounds the number of waits a refused send can take.
\<close>

locale fair_port = bus_port ops inv sent
  for ops :: "'w bus_ops" and inv :: "'w \<Rightarrow> bool" and sent :: "'w \<Rightarrow> outgoing list" +
  fixes patience :: "'w \<Rightarrow> nat"
  assumes wait_fair: "inv w \<Longrightarrow>
      op_ReplyFragment ops kind corr p is_more w = Some (Some ErrWouldBlock, w) \<Longrightarrow>
      op_wait ops w = (b, w') \<Longrightarrow> patience w' < patience w"
    and heartbeat_fair: "inv w \<Longrightarrow> op_Heartbeat ops now w = Some w' \<Longrightarrow> patience w' = patience w"
    and clock_fair: "inv w \<Longrightarrow> op_clock ops w = (now, w') \<Longrightarrow> patience w' = patience w"

text \<open>
  In a steady world nothing interferes: the context does not end, the host does not restart
  and a payload within the inline budget is refused only while the ring is full.
\<close>

locale steady_port = fair_port ops inv sent patience
  for ops :: "'w bus_ops" and inv :: "'w \<Rightarrow> bool" and sent :: "'w \<Rightarrow> outgoing list"
    and patience :: "'w \<Rightarrow> nat" +
  assumes no_stop: "inv w \<Longrightarrow> op_wait ops w = (b, w') \<Longrightarrow> \<not> b"
    and no_restart: "inv w \<Longrightarrow> op_EpochChanged ops w = Some False"
    and no_refusal: "inv w \<Longrightarrow> corr \<noteq> 0 \<Longrightarrow> p \<noteq> [] \<Longrightarrow> length p \<le> unat (op_moduleInlineBudget ops w) \<Longrightarrow>
      op_ReplyFragment ops kind corr p is_more w = Some (e, w') \<Longrightarrow> e = None \<or> e = Some ErrWouldBlock"
    and budget_kept: "inv w \<Longrightarrow>
      op_ReplyFragment ops kind corr p is_more w = Some (e, w1) \<or> op_Heartbeat ops now w = Some w1 \<or>
      op_clock ops w = (now', w1) \<Longrightarrow> op_moduleInlineBudget ops w1 = op_moduleInlineBudget ops w"

section \<open>The interface on the real client\<close>

text \<open>
  The world of a client process: the client with its mappings, the slots the host has taken
  so far, and the host's schedule: what it does during each wait of the process.
\<close>

record host_move =
  hm_take :: nat               \<comment> \<open>how many slots the host takes from the outbound ring\<close>
  hm_epoch :: "u64 option"     \<comment> \<open>the epoch a restarting host writes\<close>
  hm_done :: bool              \<comment> \<open>the process is told to stop\<close>
  hm_clock :: u64              \<comment> \<open>the clock after the wait\<close>

record client_world =
  cw_client :: client
  cw_taken :: "byte list list"
  cw_host :: "nat \<Rightarrow> host_move"
  cw_turn :: nat
  cw_done :: bool

fun host_take :: "nat \<Rightarrow> client \<Rightarrow> byte list list \<times> client" where
  "host_take 0 c = ([], c)"
| "host_take (Suc n) c =
    (case (qp c, qpMem c) of
       (Some q, Some m) \<Rightarrow>
         (case ring_pop (Outbound q, m) of
            None \<Rightarrow> ([], c)
          | Some (s, _, m') \<Rightarrow>
              let (ss, c') = host_take n (c\<lparr>qpMem := Some m'\<rparr>) in (s # ss, c'))
     | _ \<Rightarrow> ([], c))"

definition host_restart :: "u64 option \<Rightarrow> client \<Rightarrow> client" where
  "host_restart e c =
    (case (e, ctlMem c) of
       (Some epoch, Some m) \<Rightarrow> c\<lparr>ctlMem := Some (put_u64 m ctlOffEpoch epoch)\<rparr>
     | _ \<Rightarrow> c)"

definition client_wait :: "client_world \<Rightarrow> bool \<times> client_world" where
  "client_wait w =
    (let move = cw_host w (cw_turn w);
         (taken, c) = host_take (hm_take move) (host_restart (hm_epoch move) (cw_client w));
         stop = cw_done w \<or> hm_done move
     in (stop, w\<lparr>cw_client := c, cw_taken := cw_taken w @ taken, cw_turn := cw_turn w + 1, cw_done := stop\<rparr>))"

definition on_client :: "(client \<Rightarrow> ('a \<times> client) option) \<Rightarrow> client_world \<Rightarrow> ('a \<times> client_world) option" where
  "on_client f w = map_option (\<lambda>(x, c). (x, w\<lparr>cw_client := c\<rparr>)) (f (cw_client w))"

definition client_ops :: "client_world bus_ops" where
  "client_ops = \<lparr>
     op_Poll = on_client Poll,
     op_ReplyFragment = (\<lambda>kind corr p is_more. on_client (\<lambda>c. ReplyFragment c kind corr p is_more)),
     op_RequestFragment = (\<lambda>kind corr p is_more. on_client (\<lambda>c. RequestFragment c kind corr p is_more)),
     op_Cancel = (\<lambda>kind corr. on_client (\<lambda>c. Cancel c kind corr)),
     op_Heartbeat = (\<lambda>now w. map_option (\<lambda>c. w\<lparr>cw_client := c\<rparr>) (Heartbeat (cw_client w) now)),
     op_EpochChanged = (\<lambda>w. EpochChanged (cw_client w)),
     op_moduleInlineBudget = (\<lambda>w. inlineBudget (cw_client w)),
     op_clock = (\<lambda>w. (hm_clock (cw_host w (cw_turn w)), w)),
     op_done = cw_done,
     op_wait = client_wait,
     op_now = (\<lambda>w. int (unat (hm_clock (cw_host w (cw_turn w))))),
     op_sleep = (\<lambda>w. snd (client_wait w))\<rparr>"

section \<open>The frames a client has sent\<close>

definition slot_outgoing :: "byte list \<Rightarrow> outgoing" where
  \<comment> \<open>what the host decodes from a slot\<close>
  "slot_outgoing s =
    (let f = snd (Decode s zero_frame)
     in (HdrFlags f, EventKind f, CorrelationID f, slice s HdrLen (unat (PayloadLen f))))"

definition cw_sent :: "client_world \<Rightarrow> outgoing list" where
  "cw_sent w = map slot_outgoing (cw_taken w @ outbox (cw_client w))"

definition host_fair :: "(nat \<Rightarrow> host_move) \<Rightarrow> bool" where
  \<comment> \<open>again and again the host takes something\<close>
  "host_fair host \<longleftrightarrow> (\<forall>i. \<exists>j. 0 < hm_take (host (i + j)))"

definition cw_inv :: "client_world \<Rightarrow> bool" where
  "cw_inv w \<longleftrightarrow> client_inv (cw_client w) \<and>
     unat (c_slotSize (cw_client w)) \<le> out_slot (cw_client w) \<and> host_fair (cw_host w)"

definition cw_patience :: "client_world \<Rightarrow> nat" where
  "cw_patience w =
    (if length (outbox (cw_client w)) < out_capacity (cw_client w) then 0
     else Suc (LEAST j. 0 < hm_take (cw_host w (cw_turn w + j))))"

text \<open>A steady client process: a fair host that neither restarts nor stops it.\<close>

definition cw_steady :: "client_world \<Rightarrow> bool" where
  "cw_steady w \<longleftrightarrow> cw_inv w \<and> epoch_current (cw_client w) \<and> \<not> cw_done w \<and>
     (\<forall>i. hm_epoch (cw_host w i) = None \<and> \<not> hm_done (cw_host w i)) \<and>
     HdrLen + unat (inlineBudget (cw_client w)) \<le> unat (c_slotSize (cw_client w)) \<and>
     unat (inlineBudget (cw_client w)) \<le> 2 ^ 20"

lemma sent_slot_outgoing:
  assumes "Validate (emit_frame c flags kind corr p) = OK" and "HdrLen + length p \<le> length sl"
    and "length p \<le> 2 ^ 20"
  shows "slot_outgoing (sent_slot (emit_frame c flags kind corr p) p sl) = outgoing flags kind corr p"
proof -
  let ?s = "sent_slot (emit_frame c flags kind corr p) p sl"
  have "Decode ?s zero_frame = (OK, emit_frame c flags kind corr p)"
    using assms by (intro sent_slot_decodes) simp_all
  moreover have "slice ?s HdrLen (length p) = p"
    using assms(2) by (simp add: sent_slot_eq layout_simps)
  ultimately show ?thesis
    using payload_len_word [OF assms(3)]
    by (simp add: slot_outgoing_def emit_frame_fields outgoing_def)
qed

text \<open>A send from an attached client returns; it appends its frame or changes nothing.\<close>

lemma emit_outcome:
  assumes "client_inv c" and "unat (c_slotSize c) \<le> out_slot c"
  shows "\<exists>e c'. emit c flags kind corr p = Some (e, c') \<and>
    (case e of
       None \<Rightarrow> client_inv c' \<and> (\<exists>m. c' = c\<lparr>qpMem := Some m\<rparr>) \<and>
         map slot_outgoing (outbox c') = map slot_outgoing (outbox c) @ [outgoing flags kind corr p]
     | Some err \<Rightarrow> c' = c \<and> (err = ErrWouldBlock \<longrightarrow> length (outbox c) = out_capacity c))"
proof -
  from assms(1) obtain q cm m where v: "client_view c q cm m" by (auto simp: client_inv_def)
  then have c: "control c" "ctlMem c = Some cm" by (simp_all add: client_view_def)
  show ?thesis
  proof (cases "epoch_current c")
    case False
    then have "EpochChanged c = Some True" using c by (simp add: epoch_current_def EpochChanged_def)
    then show ?thesis using c by (auto simp: emit_def)
  next
    case True
    note eq = emit_eq [OF v True, of flags kind corr p]
    show ?thesis
    proof (cases "\<exists>c'. emit c flags kind corr p = Some (None, c')")
      case sends: True
      then obtain c' where c': "emit c flags kind corr p = Some (None, c')" by blast
      note ok = emit_success [OF v True c']
      obtain sl m' where sl: "length sl = out_slot c" and
        ob: "outbox c' = outbox c @ [sent_slot (emit_frame c flags kind corr p) p sl]" and
        v': "client_view c' q cm m'" "c' = c\<lparr>qpMem := Some m'\<rparr>"
        using emit_sends [OF v True c'] by blast
      have "HdrLen + length p \<le> length sl"
        using ok(1,3) sl assms(2) by (auto simp: payload_fits_def)
      from sent_slot_outgoing [OF ok(2) this ok(4)] show ?thesis
        using c' ob v' by (auto simp: client_inv_def)
    next
      case False
      let ?e = "if \<not> payload_fits c p then ErrPayload
        else if length (outbox c) = out_capacity c then ErrWouldBlock else ErrProtocol"
      have "emit c flags kind corr p = Some (Some ?e, c)"
        using False by (simp add: eq Let_def split: if_splits)
      then show ?thesis by simp
    qed
  qed
qed

lemma outbox_update [simp]:
  "outbox (c\<lparr>ctlMem := x\<rparr>) = outbox c" "out_capacity (c\<lparr>ctlMem := x\<rparr>) = out_capacity c"
  "out_slot (c\<lparr>ctlMem := x\<rparr>) = out_slot c" "out_capacity (c\<lparr>qpMem := y\<rparr>) = out_capacity c"
  "out_slot (c\<lparr>qpMem := y\<rparr>) = out_slot c"
  by (simp_all add: outbox_def out_capacity_def out_slot_def)

definition same_shape :: "client \<Rightarrow> client \<Rightarrow> bool" where
  "same_shape c c' \<longleftrightarrow> c_slotSize c' = c_slotSize c \<and> inlineBudget c' = inlineBudget c \<and>
     out_capacity c' = out_capacity c \<and> out_slot c' = out_slot c"

lemma same_shape_simps [simp]:
  "same_shape c c" "same_shape c (c\<lparr>qpMem := x\<rparr>)" "same_shape c (c\<lparr>ctlMem := y\<rparr>)"
  by (simp_all add: same_shape_def)

lemma same_shape_trans: "same_shape c d \<Longrightarrow> same_shape d e \<Longrightarrow> same_shape c e"
  by (simp add: same_shape_def)

text \<open>What the host does during a wait keeps the client attached and loses no frame.\<close>

lemma view_host_pop:
  assumes v: "client_view c q cm m" and ne: "ring_abs (Outbound q) m \<noteq> []"
  shows "client_view (c\<lparr>qpMem := Some (ConsumeCommit (Outbound q) m)\<rparr>) q cm (ConsumeCommit (Outbound q) m)"
    and "outbox c = slot (Outbound q) m (ring_tail (Outbound q) m) #
      outbox (c\<lparr>qpMem := Some (ConsumeCommit (Outbound q) m)\<rparr>)"
proof -
  let ?r = "Outbound q"
  note c = v [unfolded client_view_def]
  note g = view_geom [OF v]
  note t = ConsumeCommit_tl [of ?r m, OF _ ne]
  have dis: "rings_disjoint ?r (Inbound q)" using c by (simp add: rings_disjoint_sym)
  have bytes: "ring_bytes (Inbound q) (ConsumeCommit ?r m) = ring_bytes (Inbound q) m"
    by (rule ring_bytes_commit(2) [OF dis g(2)])
  show v': "client_view (c\<lparr>qpMem := Some (ConsumeCommit ?r m)\<rparr>) q cm (ConsumeCommit ?r m)"
    by (rule view_inbound_frame(1) [OF v bytes]) (use c t g in \<open>simp_all add: commit_frame(6)\<close>)
  show "outbox c = slot ?r m (ring_tail ?r m) # outbox (c\<lparr>qpMem := Some (ConsumeCommit ?r m)\<rparr>)"
    using t c ne by (simp add: view_sizes(1) [OF v] view_sizes(1) [OF v'])
qed

lemma host_take_outbox:
  assumes "client_inv c" and "host_take n c = (ss, c')"
  shows "client_inv c' \<and> outbox c = ss @ outbox c' \<and> length ss = min n (length (outbox c)) \<and>
    same_shape c c'"
  using assms
proof (induction n arbitrary: c ss c')
  case 0
  then show ?case by simp
next
  case (Suc n)
  from Suc.prems(1) obtain q cm m where v: "client_view c q cm m" by (auto simp: client_inv_def)
  then have c: "qp c = Some q" "qpMem c = Some m" by (simp_all add: client_view_def)
  let ?r = "Outbound q"
  show ?case
  proof (cases "ring_abs ?r m = []")
    case True
    with Suc.prems c view_sizes(1) [OF v] show ?thesis
      by (simp add: ring_pop_def ConsumeBegin_iff)
  next
    case False
    let ?c = "c\<lparr>qpMem := Some (ConsumeCommit ?r m)\<rparr>"
    obtain ts d where t: "host_take n ?c = (ts, d)" by fastforce
    note pop = view_host_pop [OF v False]
    have "client_inv ?c" using pop(1) by (auto simp: client_inv_def)
    note ih = Suc.IH [OF this t]
    have ss: "ss = slot ?r m (ring_tail ?r m) # ts" and d: "c' = d"
      using Suc.prems(2) False c t by (simp_all add: ring_pop_def ConsumeBegin_iff slot_def)
    have "same_shape c d" by (rule same_shape_trans [of c ?c d]) (use ih in simp_all)
    moreover have "outbox c = ss @ outbox d" unfolding ss using pop(2) ih by (metis append_Cons)
    moreover have "length ss = min (Suc n) (length (outbox c))"
      unfolding ss using pop(2) ih by (metis length_Cons min_Suc_Suc)
    ultimately show ?thesis unfolding d using ih by blast
  qed
qed

lemma host_take_inbox:
  assumes "client_inv c" and "host_take n c = (ss, c')"
  shows "inbox c' = inbox c \<and> in_slot c' = in_slot c"
  using assms
proof (induction n arbitrary: c ss c')
  case 0
  then show ?case by simp
next
  case (Suc n)
  from Suc.prems(1) obtain q cm m where v: "client_view c q cm m" by (auto simp: client_inv_def)
  then have c: "qp c = Some q" "qpMem c = Some m" by (simp_all add: client_view_def)
  let ?r = "Outbound q"
  show ?case
  proof (cases "ring_abs ?r m = []")
    case True
    with Suc.prems c show ?thesis by (simp add: ring_pop_def ConsumeBegin_iff)
  next
    case False
    let ?m = "ConsumeCommit ?r m"
    let ?c = "c\<lparr>qpMem := Some ?m\<rparr>"
    obtain ts d where t: "host_take n ?c = (ts, d)" by fastforce
    note pop = view_host_pop(1) [OF v False]
    note g = view_geom [OF v]
    have "rings_disjoint ?r (Inbound q)" using v by (simp add: client_view_def rings_disjoint_sym)
    then have "inbox ?c = inbox c"
      using ring_bytes_commit(2) [of ?r "Inbound q" m] g pop
      by (intro view_inbound_frame(2) [OF v]) (simp_all add: commit_frame(6) client_view_def)
    moreover have "in_slot ?c = in_slot c" by (simp add: in_slot_def)
    moreover have "client_inv ?c" using pop by (auto simp: client_inv_def)
    moreover have "c' = d" using Suc.prems(2) False c t by (simp add: ring_pop_def ConsumeBegin_iff slot_def)
    ultimately show ?thesis using Suc.IH [OF _ t] by simp
  qed
qed

lemma client_inv_restart:
  assumes "client_inv c"
  shows "client_inv (host_restart e c) \<and> outbox (host_restart e c) = outbox c \<and>
    same_shape c (host_restart e c)"
proof (cases e)
  case None
  with assms show ?thesis by (simp add: host_restart_def)
next
  case (Some x)
  from assms obtain q cm m where v: "client_view c q cm m" by (auto simp: client_inv_def)
  let ?cm = "put_u64 cm ctlOffEpoch x"
  have "length ?cm = length cm"
    using v by (intro length_put_u64) (simp add: client_view_def)
  then have "client_view (c\<lparr>ctlMem := Some ?cm\<rparr>) q ?cm m"
    using v by (simp add: client_view_def)
  moreover have "host_restart e c = c\<lparr>ctlMem := Some ?cm\<rparr>"
    using v Some by (simp add: host_restart_def client_view_def)
  ultimately show ?thesis by (auto simp: client_inv_def)
qed

lemma Heartbeat_view:
  assumes "client_inv c"
  shows "\<exists>m. Heartbeat c now = Some (c\<lparr>qpMem := Some m\<rparr>) \<and> client_inv (c\<lparr>qpMem := Some m\<rparr>) \<and>
    outbox (c\<lparr>qpMem := Some m\<rparr>) = outbox c \<and> inbox (c\<lparr>qpMem := Some m\<rparr>) = inbox c"
proof -
  from assms obtain q cm m where v: "client_view c q cm m" by (auto simp: client_inv_def)
  let ?m = "SetHeartbeat m now"
  note c = v [unfolded client_view_def]
  note g = view_geom [OF v]
  have len: "length ?m = length m"
    using c g ring_geom_bounds(1) [OF g(1)] by (simp add: SetHeartbeat_def length_put_u64)
  have bytes: "ring_bytes r ?m = ring_bytes r m" if "r = Inbound q \<or> r = Outbound q" for r
  proof -
    have "qpOffHeartbeat + 8 \<le> ring_base r" using c that by auto
    moreover have "qpOffHeartbeat + 8 \<le> length m"
      using ring_geom_bounds(1) [OF g(1)] c by simp
    ultimately show ?thesis by (auto simp: ring_bytes_def SetHeartbeat_def intro!: slice_put_u64)
  qed
  note a = ring_agree [OF bytes [THEN sym] len [THEN sym]]
  have o: "ring_inv (Outbound q) ?m" "ring_abs (Outbound q) ?m = ring_abs (Outbound q) m"
    using a(4,5) [of "Outbound q"] g c by auto
  note v' = view_inbound_frame(1) [OF v bytes len o(1)]
  have "inbox (c\<lparr>qpMem := Some ?m\<rparr>) = inbox c" by (rule view_inbound_frame(2) [OF v bytes len o(1)]) simp
  moreover have "outbox (c\<lparr>qpMem := Some ?m\<rparr>) = outbox c"
    using v' o by (simp add: view_sizes(1) [OF v] view_sizes(1) [OF v'])
  moreover have "Heartbeat c now = Some (c\<lparr>qpMem := Some ?m\<rparr>)" using c by (simp add: Heartbeat_def)
  ultimately show ?thesis using v' by (auto simp: client_inv_def)
qed

lemma settle_shape [simp]:
  "same_shape c (settle c q m)" "epoch_current (settle c q m) = epoch_current c"
  by (simp_all add: settle_def same_shape_def out_capacity_def out_slot_def)

text \<open>When \<open>Poll\<close> returns, the client is still attached and nothing was sent.\<close>

lemma Poll_keeps:
  assumes "client_inv c" and "Poll c = Some (r, c')"
  shows "client_inv c' \<and> outbox c' = outbox c \<and> same_shape c c' \<and> epoch_current c' = epoch_current c"
proof -
  from assms(1) obtain q cm m where v: "client_view c q cm m" by (auto simp: client_inv_def)
  then have c: "control c" "ctlMem c = Some cm" by (simp_all add: client_view_def)
  note st = view_settle [OF v]
  let ?s = "settle c q m"
  have pend: "same_shape c (?s\<lparr>pendingRead := True\<rparr>)"
    by (simp add: settle_def same_shape_def out_capacity_def out_slot_def)
  show ?thesis
  proof (cases "epoch_current c")
    case False
    then have "EpochChanged c = Some True" using c by (simp add: epoch_current_def EpochChanged_def)
    then have "c' = c" using assms(2) c by (simp add: Poll_def)
    then show ?thesis using assms(1) by simp
  next
    case e: True
    show ?thesis
    proof (cases "inbox c")
      case Nil
      then have "c' = ?s" using assms(2) Poll_empty [OF v e Nil] by simp
      then show ?thesis using st by (auto simp: client_inv_def)
    next
      case (Cons s rest)
      obtain res f where d: "Decode s zero_frame = (res, f)" by fastforce
      note poll = Poll_slot [OF v e Cons d]
      note pending = view_pending [OF v Cons]
      show ?thesis
      proof (cases "res = OK")
        case True
        then have "c' = ?s\<lparr>pendingRead := True\<rparr>"
          using assms(2) poll by (auto simp: Let_def split: if_splits option.splits)
        then show ?thesis using pending pend by (auto simp: client_inv_def)
      next
        case False
        have "ring_abs (Inbound q) (settled_mem c q m) \<noteq> []" using st(4) Cons by simp
        note consume = view_consume [OF st(1) this]
        have "c' = ?s\<lparr>pendingRead := False, qpMem := Some (ConsumeCommit (Inbound q) (settled_mem c q m))\<rparr>"
          using assms(2) poll False by (simp add: Let_def settle_def)
        then show ?thesis
          using consume st(2) by (auto simp: client_inv_def same_shape_def settle_def out_capacity_def out_slot_def)
      qed
    qed
  qed
qed

lemma on_client_Poll:
  assumes "cw_inv w" and "op_Poll client_ops w = Some (r, w')"
  shows "cw_inv w'" and "cw_sent w' = cw_sent w" and "cw_steady w \<Longrightarrow> cw_steady w'"
proof -
  obtain c' where c': "Poll (cw_client w) = Some (r, c')" "w' = w\<lparr>cw_client := c'\<rparr>"
    using assms(2) by (auto simp: client_ops_def on_client_def)
  note k = Poll_keeps [OF _ c'(1)]
  show "cw_inv w'" using assms(1) k by (simp add: cw_inv_def c'(2) same_shape_def)
  then show "cw_steady w'" if "cw_steady w"
    using that k assms(1) by (simp add: cw_steady_def cw_inv_def c'(2) same_shape_def)
  show "cw_sent w' = cw_sent w" using assms(1) k by (simp add: cw_inv_def c'(2) cw_sent_def)
qed

lemma client_wait_facts:
  assumes "cw_inv w" and "client_wait w = (b, w')"
  shows "cw_inv w'" and "cw_sent w' = cw_sent w"
    and "inlineBudget (cw_client w') = inlineBudget (cw_client w)"
    and "length (outbox (cw_client w)) = out_capacity (cw_client w) \<Longrightarrow> cw_patience w' < cw_patience w"
proof -
  define c where "c = cw_client w"
  let ?move = "cw_host w (cw_turn w)"
  define d where "d = host_restart (hm_epoch ?move) c"
  obtain ss e where t: "host_take (hm_take ?move) d = (ss, e)" by fastforce
  have w': "w' = w\<lparr>cw_client := e, cw_taken := cw_taken w @ ss, cw_turn := cw_turn w + 1,
      cw_done := cw_done w \<or> hm_done ?move\<rparr>"
    using assms(2) t by (auto simp: client_wait_def Let_def d_def c_def)
  have c: "client_inv c" "unat (c_slotSize c) \<le> out_slot c" and fair: "host_fair (cw_host w)"
    using assms(1) by (simp_all add: cw_inv_def c_def)
  note r = client_inv_restart [OF c(1), of "hm_epoch ?move", folded d_def]
  note h = host_take_outbox [of d, OF _ t]
  have shape: "same_shape c e" by (rule same_shape_trans [of c d e]) (use r h in simp_all)
  have out: "outbox c = ss @ outbox e" and len: "length ss = min (hm_take ?move) (length (outbox c))"
    and e: "client_inv e" using r h by metis+
  show "cw_inv w'" using e c(2) fair shape by (simp add: w' cw_inv_def same_shape_def)
  show "cw_sent w' = cw_sent w" using out by (simp add: w' cw_sent_def c_def)
  show "inlineBudget (cw_client w') = inlineBudget (cw_client w)"
    using shape by (simp add: w' same_shape_def c_def)
  show "cw_patience w' < cw_patience w" if full: "length (outbox (cw_client w)) = out_capacity (cw_client w)"
  proof (cases "length (outbox e) < out_capacity e")
    case True
    then show ?thesis using full by (simp add: w' cw_patience_def)
  next
    case False
    have "0 < out_capacity c"
    proof -
      from c(1) obtain q cm m where v: "client_view c q cm m" by (auto simp: client_inv_def)
      from view_geom(2) [OF v] view_sizes(2) [OF v] show ?thesis by (auto simp: ring_geom_def)
    qed
    moreover have "out_capacity e = out_capacity c" using shape by (simp add: same_shape_def)
    moreover have "length (outbox c) = length ss + length (outbox e)" using out by simp
    ultimately have "hm_take ?move = 0"
      using False full len unfolding c_def by linarith
    let ?P = "\<lambda>i j. 0 < hm_take (cw_host w (i + j))"
    obtain j where "?P (cw_turn w) j" using fair by (auto simp: host_fair_def)
    with \<open>hm_take ?move = 0\<close> have "(LEAST j. ?P (cw_turn w) j) = Suc (LEAST j. ?P (cw_turn w) (Suc j))"
      by (intro Least_Suc) simp_all
    then show ?thesis using False full by (simp add: w' cw_patience_def)
  qed
qed

lemma on_client_send:
  assumes "cw_inv w"
    and "op w = on_client (\<lambda>c. if bad then Some (Some ErrProtocol, c) else emit c flags kind corr p) w"
  shows "\<exists>e w'. op w = Some (e, w') \<and> cw_inv w' \<and>
    cw_sent w' = cw_sent w @ (if e = None then [outgoing flags kind corr p] else []) \<and>
    (e \<noteq> None \<longrightarrow> w' = w) \<and>
    (e = Some ErrWouldBlock \<longrightarrow> length (outbox (cw_client w)) = out_capacity (cw_client w))"
proof (cases bad)
  case True
  with assms show ?thesis by (simp add: on_client_def)
next
  case False
  note inv = assms(1) [unfolded cw_inv_def]
  from emit_outcome [of "cw_client w" flags kind corr p] inv obtain e c' where
    e: "emit (cw_client w) flags kind corr p = Some (e, c')" and
    cases: "case e of
       None \<Rightarrow> client_inv c' \<and> (\<exists>m. c' = (cw_client w)\<lparr>qpMem := Some m\<rparr>) \<and>
         map slot_outgoing (outbox c') = map slot_outgoing (outbox (cw_client w)) @ [outgoing flags kind corr p]
     | Some err \<Rightarrow> c' = cw_client w \<and>
         (err = ErrWouldBlock \<longrightarrow> length (outbox (cw_client w)) = out_capacity (cw_client w))" by blast
  have op: "op w = Some (e, w\<lparr>cw_client := c'\<rparr>)" using False assms(2) e by (simp add: on_client_def)
  show ?thesis
  proof (cases e)
    case None
    with cases obtain m where c': "c' = (cw_client w)\<lparr>qpMem := Some m\<rparr>" "client_inv c'"
      "map slot_outgoing (outbox c') = map slot_outgoing (outbox (cw_client w)) @ [outgoing flags kind corr p]"
      by auto
    then have "cw_inv (w\<lparr>cw_client := c'\<rparr>)" using inv by (simp add: cw_inv_def)
    then show ?thesis using op None c'(3) by (simp add: cw_sent_def)
  next
    case (Some err)
    then show ?thesis using op cases assms(1) by simp
  qed
qed

interpretation clientp: fair_port client_ops cw_inv cw_sent cw_patience
proof
  fix w kind corr p is_more
  assume inv: "cw_inv w"
  note send = on_client_send [OF inv]
  have reply: "\<exists>e w'. op_ReplyFragment client_ops kind corr p is_more w = Some (e, w') \<and> cw_inv w' \<and>
      cw_sent w' = cw_sent w @ (if e = None then [outgoing (reply_flags is_more) kind corr p] else []) \<and>
      (e \<noteq> None \<longrightarrow> w' = w) \<and>
      (e = Some ErrWouldBlock \<longrightarrow> length (outbox (cw_client w)) = out_capacity (cw_client w))"
    by (rule send [where bad = "corr = 0 \<or> is_more \<and> length p = 0"])
      (simp add: client_ops_def on_client_def ReplyFragment_def reply_flags_def)
  then show "\<exists>e w'. op_ReplyFragment client_ops kind corr p is_more w = Some (e, w') \<and> cw_inv w' \<and>
      cw_sent w' = cw_sent w @ (if e = None then [outgoing (reply_flags is_more) kind corr p] else []) \<and>
      (e \<noteq> None \<longrightarrow> w' = w)" by blast
  show "\<exists>e w'. op_RequestFragment client_ops kind corr p is_more w = Some (e, w') \<and> cw_inv w' \<and>
      cw_sent w' = cw_sent w @ (if e = None then [outgoing (request_flags is_more) kind corr p] else []) \<and>
      (e \<noteq> None \<longrightarrow> w' = w)"
  proof -
    have "op_RequestFragment client_ops kind corr p is_more w =
        on_client (\<lambda>c. if corr = 0 \<or> is_more \<and> length p = 0 then Some (Some ErrProtocol, c)
          else emit c (request_flags is_more) kind corr p) w"
      by (simp add: client_ops_def on_client_def RequestFragment_def request_flags_def)
    from send [where op = "op_RequestFragment client_ops kind corr p is_more", OF this]
    show ?thesis by blast
  qed
  show "\<exists>e w'. op_Cancel client_ops kind corr w = Some (e, w') \<and> cw_inv w' \<and>
      cw_sent w' = cw_sent w @ (if e = None then [outgoing FCancel kind corr []] else []) \<and>
      (e \<noteq> None \<longrightarrow> w' = w)"
  proof -
    have "op_Cancel client_ops kind corr w =
        on_client (\<lambda>c. if corr = 0 then Some (Some ErrProtocol, c) else emit c FCancel kind corr []) w"
      by (simp add: client_ops_def on_client_def Cancel_def)
    from send [where op = "op_Cancel client_ops kind corr", OF this]
    show ?thesis by blast
  qed
  show "\<exists>w'. op_Heartbeat client_ops now w = Some w' \<and> cw_inv w' \<and> cw_sent w' = cw_sent w" for now
    using Heartbeat_view [of "cw_client w" now] inv by (auto simp: client_ops_def cw_inv_def cw_sent_def)
  show "\<exists>b. op_EpochChanged client_ops w = Some b"
    using inv by (auto simp: client_ops_def cw_inv_def client_inv_def client_view_def EpochChanged_def)
  fix b w' now
  show "cw_inv w' \<and> cw_sent w' = cw_sent w" if "op_clock client_ops w = (now, w')"
    using that inv by (simp add: client_ops_def)
  show "cw_patience w' = cw_patience w" if "op_clock client_ops w = (now, w')"
    using that by (simp add: client_ops_def)
  show "cw_inv w' \<and> cw_sent w' = cw_sent w" if "op_Poll client_ops w = Some (r, w')" for r
    using on_client_Poll [OF inv that] by blast
  show "cw_inv (op_sleep client_ops w) \<and> cw_sent (op_sleep client_ops w) = cw_sent w"
    using client_wait_facts(1,2) [OF inv, of "fst (client_wait w)" "snd (client_wait w)"]
    by (simp add: client_ops_def)
  show "cw_inv w' \<and> cw_sent w' = cw_sent w" if "op_wait client_ops w = (b, w')"
    using that client_wait_facts(1,2) [OF inv] by (simp add: client_ops_def)
  show "op_moduleInlineBudget client_ops w' = op_moduleInlineBudget client_ops w"
    if "op_wait client_ops w = (b, w')"
    using that client_wait_facts(3) [OF inv] by (simp add: client_ops_def)
  show "cw_patience w' < cw_patience w"
    if "op_ReplyFragment client_ops kind corr p is_more w = Some (Some ErrWouldBlock, w)"
      "op_wait client_ops w = (b, w')"
    using that reply client_wait_facts(4) [OF inv] by (simp add: client_ops_def)
  show "cw_patience w' = cw_patience w" if "op_Heartbeat client_ops now w = Some w'"
    using that Heartbeat_view [of "cw_client w" now] inv
    by (auto simp: client_ops_def cw_inv_def cw_patience_def)
qed

lemma epoch_current_host_take:
  "host_take n c = (ss, c') \<Longrightarrow> epoch_current c' = epoch_current c"
proof (induction n arbitrary: c ss c')
  case (Suc n)
  then show ?case
    by (fastforce split: option.splits prod.splits simp: Let_def)
qed simp

lemma steady_update:
  assumes "cw_steady w" and "cw_inv (w\<lparr>cw_client := c\<rparr>)"
    and "c = (cw_client w)\<lparr>qpMem := x\<rparr>"
  shows "cw_steady (w\<lparr>cw_client := c\<rparr>)"
  using assms by (simp add: cw_steady_def)

lemma on_client_steady:
  assumes "cw_steady w"
    and "on_client (\<lambda>c. if bad then Some (Some ErrProtocol, c) else emit c flags kind corr p) w = Some (e, w')"
  shows "cw_steady w'" and "inlineBudget (cw_client w') = inlineBudget (cw_client w)"
    and "\<not> bad \<Longrightarrow> send_flags flags corr p \<Longrightarrow> length p \<le> unat (inlineBudget (cw_client w)) \<Longrightarrow>
      e = None \<or> e = Some ErrWouldBlock"
proof -
  let ?c = "cw_client w"
  note st = assms(1) [unfolded cw_steady_def]
  have inv: "client_inv ?c" "unat (c_slotSize ?c) \<le> out_slot ?c" using st by (simp_all add: cw_inv_def)
  note send = on_client_send [where op = "\<lambda>w. on_client (\<lambda>c. if bad then Some (Some ErrProtocol, c)
      else emit c flags kind corr p) w", OF _ refl, of w]
  have w': "cw_inv w'" using send assms(2) st by auto
  have "cw_steady w' \<and> inlineBudget (cw_client w') = inlineBudget ?c"
  proof (cases bad)
    case True
    then show ?thesis using assms by (simp add: on_client_def)
  next
    case False
    from emit_outcome [OF inv, of flags kind corr p] obtain e' c' x where
      "emit ?c flags kind corr p = Some (e', c')" "c' = ?c\<lparr>qpMem := x\<rparr>"
    proof (elim exE conjE)
      fix e' c'
      assume that: "\<And>e' c' x. emit ?c flags kind corr p = Some (e', c') \<Longrightarrow> c' = ?c\<lparr>qpMem := x\<rparr> \<Longrightarrow> thesis"
        and em: "emit ?c flags kind corr p = Some (e', c')"
        and cs: "case e' of
           None \<Rightarrow> client_inv c' \<and> (\<exists>m. c' = ?c\<lparr>qpMem := Some m\<rparr>) \<and>
             map slot_outgoing (outbox c') = map slot_outgoing (outbox ?c) @ [outgoing flags kind corr p]
         | Some err \<Rightarrow> c' = ?c \<and> (err = ErrWouldBlock \<longrightarrow> length (outbox ?c) = out_capacity ?c)"
      show thesis
      proof (cases e')
        case None
        then show ?thesis using cs that [OF em] by auto
      next
        case (Some err)
        then have "c' = ?c\<lparr>qpMem := qpMem ?c\<rparr>" using cs by simp
        then show ?thesis by (rule that [OF em])
      qed
    qed
    then show ?thesis
      using False assms steady_update [of w c' x] w' by (auto simp: on_client_def)
  qed
  then show "cw_steady w'" "inlineBudget (cw_client w') = inlineBudget ?c" by blast+
  show "e = None \<or> e = Some ErrWouldBlock" if "\<not> bad" "send_flags flags corr p" "length p \<le> unat (inlineBudget ?c)"
  proof -
    from inv obtain q cm m where v: "client_view ?c q cm m" by (auto simp: client_inv_def)
    have len: "length p \<le> 2 ^ 20" using that(3) st by simp
    have val: "Validate (emit_frame ?c flags kind corr p) = OK" by (rule emit_frame_valid [OF that(2) len])
    have fits: "payload_fits ?c p" "HdrLen \<le> out_slot ?c"
      using that(3) st inv(2) payload_len_word [OF len]
      by (auto simp: payload_fits_def word_less_nat_alt)
    have "emit ?c flags kind corr p = Some (Some ErrWouldBlock, ?c) \<or>
        (\<exists>c'. emit ?c flags kind corr p = Some (None, c'))"
      using emit_eq [OF v, of flags kind corr p] st fits val by (auto simp: Let_def)
    then show ?thesis using assms(2) that(1) by (auto simp: on_client_def)
  qed
qed

lemma client_op_shapes:
  "op_ReplyFragment client_ops kind corr p is_more = on_client (\<lambda>c.
     if corr = 0 \<or> is_more \<and> p = [] then Some (Some ErrProtocol, c) else emit c (reply_flags is_more) kind corr p)"
  "op_RequestFragment client_ops kind corr p is_more = on_client (\<lambda>c.
     if corr = 0 \<or> is_more \<and> p = [] then Some (Some ErrProtocol, c) else emit c (request_flags is_more) kind corr p)"
  "op_Cancel client_ops kind corr = on_client (\<lambda>c.
     if corr = 0 then Some (Some ErrProtocol, c) else emit c FCancel kind corr [])"
  by (auto simp: client_ops_def on_client_def ReplyFragment_def RequestFragment_def Cancel_def
      reply_flags_def request_flags_def fun_eq_iff)

lemma reply_send_flags: "corr \<noteq> 0 \<Longrightarrow> p \<noteq> [] \<Longrightarrow> send_flags (reply_flags is_more) corr p"
  by (simp add: send_flags_def reply_flags_def)

lemma steady_Heartbeat:
  assumes "cw_steady w" and "op_Heartbeat client_ops now w = Some w'"
  shows "cw_steady w'" and "inlineBudget (cw_client w') = inlineBudget (cw_client w)"
proof -
  have st: "cw_inv w" "client_inv (cw_client w)" using assms(1) by (simp_all add: cw_steady_def cw_inv_def)
  obtain m where m: "Heartbeat (cw_client w) now = Some ((cw_client w)\<lparr>qpMem := Some m\<rparr>)"
    using Heartbeat_view [OF st(2)] by blast
  have w': "w' = w\<lparr>cw_client := (cw_client w)\<lparr>qpMem := Some m\<rparr>\<rparr>"
    using assms(2) m by (simp add: client_ops_def)
  moreover have "cw_inv w'" using clientp.heartbeat_law [OF st(1), of now] assms(2) by simp
  ultimately show "cw_steady w'" using assms(1) steady_update [of w _ "Some m"] by blast
  show "inlineBudget (cw_client w') = inlineBudget (cw_client w)" by (simp add: w')
qed

lemma steady_wait:
  assumes "cw_steady w" and "client_wait w = (b, w')"
  shows "cw_steady w'" and "\<not> b"
proof -
  note st = assms(1) [unfolded cw_steady_def]
  let ?move = "cw_host w (cw_turn w)"
  obtain ss c where t: "host_take (hm_take ?move) (cw_client w) = (ss, c)" by fastforce
  have none: "hm_epoch ?move = None" "\<not> hm_done ?move" using st by simp_all
  have r: "host_restart None (cw_client w) = cw_client w" by (simp add: host_restart_def)
  have w': "(b, w') = (False, w\<lparr>cw_client := c, cw_taken := cw_taken w @ ss, cw_turn := cw_turn w + 1,
      cw_done := False\<rparr>)"
    using assms(2) st t none by (simp add: client_wait_def Let_def r)
  then show "\<not> b" by simp
  have "client_inv (cw_client w)" using st by (simp add: cw_inv_def)
  then have "same_shape (cw_client w) c" using host_take_outbox [OF _ t] by blast
  moreover have "epoch_current c" using epoch_current_host_take [OF t] st by simp
  moreover have "cw_inv w'" using client_wait_facts(1) [OF _ assms(2)] st by blast
  ultimately show "cw_steady w'"
    using st w' by (auto simp: cw_steady_def same_shape_def)
qed

interpretation steadyp: steady_port client_ops cw_steady cw_sent cw_patience
proof
  fix w kind corr p is_more
  assume st: "cw_steady w"
  then have inv: "cw_inv w" by (simp add: cw_steady_def)
  note steady = on_client_steady [OF st]
  show "\<exists>e w'. op_ReplyFragment client_ops kind corr p is_more w = Some (e, w') \<and> cw_steady w' \<and>
      cw_sent w' = cw_sent w @ (if e = None then [outgoing (reply_flags is_more) kind corr p] else []) \<and>
      (e \<noteq> None \<longrightarrow> w' = w)"
    using clientp.reply_law [OF inv, of kind corr p is_more] steady(1) unfolding client_op_shapes by blast
  show "\<exists>e w'. op_RequestFragment client_ops kind corr p is_more w = Some (e, w') \<and> cw_steady w' \<and>
      cw_sent w' = cw_sent w @ (if e = None then [outgoing (request_flags is_more) kind corr p] else []) \<and>
      (e \<noteq> None \<longrightarrow> w' = w)"
    using clientp.request_law [OF inv, of kind corr p is_more] steady(1) unfolding client_op_shapes by blast
  show "\<exists>e w'. op_Cancel client_ops kind corr w = Some (e, w') \<and> cw_steady w' \<and>
      cw_sent w' = cw_sent w @ (if e = None then [outgoing FCancel kind corr []] else []) \<and>
      (e \<noteq> None \<longrightarrow> w' = w)"
    using clientp.cancel_law [OF inv, of kind corr] steady(1) unfolding client_op_shapes by blast
  show "\<exists>w'. op_Heartbeat client_ops now w = Some w' \<and> cw_steady w' \<and> cw_sent w' = cw_sent w" for now
    using clientp.heartbeat_law [OF inv, of now] steady_Heartbeat(1) [OF st] by blast
  show "\<exists>b. op_EpochChanged client_ops w = Some b" by (rule clientp.epoch_law [OF inv])
  show epoch: "op_EpochChanged client_ops w = Some False"
    using st by (simp add: client_ops_def cw_steady_def epoch_current_def)
  fix b w' now
  show "cw_steady w' \<and> cw_sent w' = cw_sent w" if "op_clock client_ops w = (now, w')"
    using that st by (simp add: client_ops_def)
  show "cw_steady w' \<and> cw_sent w' = cw_sent w" if "op_Poll client_ops w = Some (r, w')" for r
    using on_client_Poll [OF inv that] st by blast
  have wait: "op_wait client_ops = client_wait" by (simp add: client_ops_def)
  show "cw_steady (op_sleep client_ops w) \<and> cw_sent (op_sleep client_ops w) = cw_sent w"
    using steady_wait(1) [OF st, of "fst (client_wait w)" "snd (client_wait w)"] clientp.sleep_law [OF inv]
    by (simp add: client_ops_def)
  show "cw_steady w' \<and> cw_sent w' = cw_sent w" if "op_wait client_ops w = (b, w')"
    using that clientp.wait_law [OF inv] steady_wait [OF st] unfolding wait by blast
  show "\<not> b" if "op_wait client_ops w = (b, w')"
    using that steady_wait [OF st] unfolding wait by blast
  show "op_moduleInlineBudget client_ops w' = op_moduleInlineBudget client_ops w"
    if "op_wait client_ops w = (b, w')"
    using that by (rule clientp.budget_law [OF inv])
  show "cw_patience w' < cw_patience w"
    if "op_ReplyFragment client_ops kind corr p is_more w = Some (Some ErrWouldBlock, w)"
      "op_wait client_ops w = (b, w')"
    using that by (rule clientp.wait_fair [OF inv])
  show "cw_patience w' = cw_patience w" if "op_Heartbeat client_ops now w = Some w'"
    using that by (rule clientp.heartbeat_fair [OF inv])
  show "cw_patience w' = cw_patience w" if "op_clock client_ops w = (now, w')"
    using that by (rule clientp.clock_fair [OF inv])
  have budget: "op_moduleInlineBudget client_ops v = inlineBudget (cw_client v)" for v
    by (simp add: client_ops_def)
  show "e = None \<or> e = Some ErrWouldBlock"
    if "corr \<noteq> 0" "p \<noteq> []" "length p \<le> unat (op_moduleInlineBudget client_ops w)"
      "op_ReplyFragment client_ops kind corr p is_more w = Some (e, w')" for e
    using that steady(3) [of "corr = 0 \<or> is_more \<and> p = []" "reply_flags is_more" kind corr p e w']
      reply_send_flags [of corr p is_more] unfolding client_op_shapes budget by simp
  show "op_moduleInlineBudget client_ops w1 = op_moduleInlineBudget client_ops w"
    if "op_ReplyFragment client_ops kind corr p is_more w = Some (e, w1) \<or>
      op_Heartbeat client_ops now w = Some w1 \<or> op_clock client_ops w = (now', w1)" for e w1 now now'
    unfolding budget
    using that
  proof (elim disjE)
    show "inlineBudget (cw_client w1) = inlineBudget (cw_client w)" if "op_clock client_ops w = (now', w1)"
      using that by (simp add: client_ops_def)
  qed (use steady(2) steady_Heartbeat(2) [OF st] in \<open>unfold client_op_shapes, blast+\<close>)
qed

section \<open>A concrete process\<close>

definition sample_world :: client_world where
  \<comment> \<open>an attached client with an inline budget of 48 bytes and a host that takes a slot per turn\<close>
  "sample_world = \<lparr>cw_client = empty_client 128 48, cw_taken = [],
     cw_host = (\<lambda>_. \<lparr>hm_take = 1, hm_epoch = None, hm_done = False, hm_clock = 5\<rparr>),
     cw_turn = 0, cw_done = False\<rparr>"

lemma sample_world_steady:
  "cw_steady sample_world" "cw_sent sample_world = []" "inlineBudget (cw_client sample_world) = 48"
proof -
  have "outbox (empty_client 128 48) = []" using empty_client_view [of 128 48] by auto
  then show "cw_sent sample_world = []" by (simp add: cw_sent_def sample_world_def)
  show "cw_steady sample_world"
    by (simp add: cw_steady_def cw_inv_def sample_world_def host_fair_def empty_client_inv)
  show "inlineBudget (cw_client sample_world) = 48" by (simp add: sample_world_def)
qed

end
