(* ===== verification/Module_Reply.thy ===== *)
theory Module_Reply
  imports Bus_Ops Module_Protocol "HOL-Library.Monad_Syntax"
begin

text \<open>
  Fragmentation of \<open>server-go/bus/module_runtime.go\<close>: \<open>replyModuleResult\<close> cuts a result into
  frames that fit the inline budget, sends them in order and waits while the ring is full.
  Its specification is the list of frames, \<open>result_fragments\<close>; the lemmas in the locales show
  that what is sent is a prefix of it, and on a fair host in a steady world all of it.

  The retry loop has no bound of its own, so the functions are partial: their value is \<open>None\<close>
  when the call does not return.
\<close>

section \<open>The code\<close>

definition validModuleStatus :: "u16 \<Rightarrow> bool" where
  "validModuleStatus status \<longleftrightarrow> status \<le> ModuleStatusInternal"

partial_function (option) send_reply ::
  "'w bus_ops \<Rightarrow> u32 \<Rightarrow> u64 \<Rightarrow> byte list \<Rightarrow> bool \<Rightarrow> 'w \<Rightarrow> (bus_error option \<times> 'w) option" where
  \<comment> \<open>the inner loop of \<open>replyModuleResult\<close>: one fragment, retried while the ring is full\<close>
  "send_reply ops kind corr payload is_more w =
    do {
      (e, w) \<leftarrow> op_ReplyFragment ops kind corr payload is_more w;
      if e = None then Some (None, w)
      else if e \<noteq> Some ErrWouldBlock then Some (e, w)
      else if fst (op_wait ops w) then Some (Some ErrContext, snd (op_wait ops w))
      else do {
        changed \<leftarrow> op_EpochChanged ops (snd (op_wait ops w));
        if changed then Some (Some ErrEpoch, snd (op_wait ops w))
        else do {
          w \<leftarrow> (let (now, w) = op_clock ops (snd (op_wait ops w))
                in if now \<noteq> 0 then op_Heartbeat ops now w else Some w);
          send_reply ops kind corr payload is_more w
        }
      }
    }"

definition result_message :: "u16 \<Rightarrow> u32 \<Rightarrow> u64 \<Rightarrow> nat \<Rightarrow> module_message" where
  "result_message status stageID traceID part =
    \<lparr>Operation = ModuleOpResult, Status = status, StageID = stageID, Flags = 0,
     BodyLen = word_of_nat part, DeadlineNS = 0, TraceID = traceID\<rparr>"

partial_function (option) reply_loop ::
  "'w bus_ops \<Rightarrow> u32 \<Rightarrow> u64 \<Rightarrow> u32 \<Rightarrow> u64 \<Rightarrow> u16 \<Rightarrow> byte list \<Rightarrow> nat \<Rightarrow> bool \<Rightarrow> nat \<Rightarrow> 'w \<Rightarrow>
    (bus_error option \<times> 'w) option" where
  "reply_loop ops kind corr stageID traceID status body chunkCapacity is_first offset w =
    (if is_first \<or> offset < length body then
       let part = length body - offset;
           part = (if part > chunkCapacity then chunkCapacity else part);
           is_more = (offset + part < length body);
           payload = replicate (ModuleMessageHeaderLen + part) 0
       in (case message_Encode (result_message status stageID traceID part) payload of
             Inl e \<Rightarrow> Some (Some e, w)
           | Inr (_, payload) \<Rightarrow>
               do {
                 (e, w) \<leftarrow> send_reply ops kind corr
                   (go_copy payload ModuleMessageHeaderLen (slice body offset part)) is_more w;
                 if e \<noteq> None then Some (e, w)
                 else reply_loop ops kind corr stageID traceID status body chunkCapacity False
                        (offset + part) w
               })
     else Some (None, w))"

definition reply_content :: "u16 \<Rightarrow> byte list \<Rightarrow> u16 \<times> byte list" where
  "reply_content status body =
    (if \<not> validModuleStatus status \<or> length body > unat ModuleMessageMaxBody
     then (ModuleStatusInternal, [])
     else if status \<noteq> ModuleStatusOK then (status, []) else (status, body))"

definition replyModuleResult ::
  "'w bus_ops \<Rightarrow> u32 \<Rightarrow> u64 \<Rightarrow> u32 \<Rightarrow> u64 \<Rightarrow> u16 \<Rightarrow> byte list \<Rightarrow> 'w \<Rightarrow>
    (bus_error option \<times> 'w) option" where
  "replyModuleResult ops kind correlation stageID traceID status body w =
    (let (status, body) = reply_content status body;
         budget = op_moduleInlineBudget ops w
     in if unat budget \<le> ModuleMessageHeaderLen then Some (Some ErrModuleRuntime, w)
        else reply_loop ops kind correlation stageID traceID status body
               (unat budget - ModuleMessageHeaderLen) True 0 w)"

section \<open>Fragments\<close>

function fragments :: "nat \<Rightarrow> byte list \<Rightarrow> (byte list \<times> bool) list" where
  \<comment> \<open>a body cut into parts of at most \<open>cap\<close> bytes, each with its \<open>more\<close> flag\<close>
  "fragments cap body =
    (if cap = 0 \<or> length body \<le> cap then [(body, False)]
     else (take cap body, True) # fragments cap (drop cap body))"
  by pat_completeness auto
termination by (relation "measure (\<lambda>(_, body). length body)") auto

declare fragments.simps [simp del]

lemma fragments_concat: "concat (map fst (fragments cap body)) = body"
  by (induction cap body rule: fragments.induct) (subst fragments.simps, simp)

lemma fragments_more:
  "\<exists>ps p. fragments cap body = map (\<lambda>q. (q, True)) ps @ [(p, False)]"
proof (induction cap body rule: fragments.induct)
  case (1 cap body)
  show ?case
  proof (cases "cap = 0 \<or> length body \<le> cap")
    case True
    then have "fragments cap body = map (\<lambda>q. (q, True)) [] @ [(body, False)]"
      by (subst fragments.simps) simp
    then show ?thesis by blast
  next
    case False
    then obtain ps p where "fragments cap (drop cap body) = map (\<lambda>q. (q, True)) ps @ [(p, False)]"
      using 1 by blast
    with False have "fragments cap body = map (\<lambda>q. (q, True)) (take cap body # ps) @ [(p, False)]"
      by (subst fragments.simps) simp
    then show ?thesis by blast
  qed
qed

lemma fragments_bounds:
  "0 < cap \<Longrightarrow> (p, m) \<in> set (fragments cap body) \<Longrightarrow> length p \<le> cap \<and> length p \<le> length body \<and> (m \<longrightarrow> p \<noteq> [])"
proof (induction cap body rule: fragments.induct)
  case (1 cap body)
  show ?case
  proof (cases "length body \<le> cap")
    case True
    with 1(2,3) show ?thesis by (simp add: fragments.simps [of cap body])
  next
    case False
    with 1(2,3) have "p = take cap body \<or> (p, m) \<in> set (fragments cap (drop cap body))"
      by (auto simp: fragments.simps [of cap body])
    then show ?thesis using False 1 by fastforce
  qed
qed

definition result_frame :: "u32 \<Rightarrow> u64 \<Rightarrow> u32 \<Rightarrow> u64 \<Rightarrow> u16 \<Rightarrow> byte list \<times> bool \<Rightarrow> outgoing" where
  "result_frame kind corr stageID traceID status f =
    outgoing (reply_flags (snd f)) kind corr
      (message_bytes (result_message status stageID traceID (length (fst f))) @ fst f)"

definition result_fragments ::
  "u32 \<Rightarrow> u64 \<Rightarrow> u32 \<Rightarrow> u64 \<Rightarrow> u16 \<Rightarrow> byte list \<Rightarrow> nat \<Rightarrow> outgoing list" where
  \<comment> \<open>the frames of a result\<close>
  "result_fragments kind corr stageID traceID status body cap =
    map (result_frame kind corr stageID traceID status) (fragments cap body)"

lemma result_message_valid:
  assumes "stageID \<noteq> 0" and "validModuleStatus status" and "part \<le> 2 ^ 24"
  shows "message_valid (result_message status stageID traceID part)"
  using assms
  by (simp add: message_valid_def result_message_def validModuleStatus_def word_le_nat_alt unat_of_nat linorder_not_less)

lemma result_payload:
  assumes "stageID \<noteq> 0" and "validModuleStatus status" and "length p \<le> 2 ^ 24"
  shows "\<exists>out. message_Encode (result_message status stageID traceID (length p))
      (replicate (ModuleMessageHeaderLen + length p) 0) = Inr (40, out) \<and>
    go_copy out ModuleMessageHeaderLen p = message_bytes (result_message status stageID traceID (length p)) @ p"
  using message_Encode_OK [OF result_message_valid [OF assms], of "replicate (40 + length p) 0" traceID]
  by (simp add: go_copy_def splice_def)

lemma reply_content_facts:
  assumes "reply_content status body = (status', body')"
  shows "validModuleStatus status'" and "length body' \<le> 2 ^ 24"
  using assms by (auto simp: reply_content_def validModuleStatus_def split: if_splits)

text \<open>The loop over the offset is a loop over the fragments.\<close>

primrec send_parts ::
  "'w bus_ops \<Rightarrow> u32 \<Rightarrow> u64 \<Rightarrow> (byte list \<Rightarrow> byte list) \<Rightarrow> (byte list \<times> bool) list \<Rightarrow> 'w \<Rightarrow>
    (bus_error option \<times> 'w) option" where
  "send_parts ops kind corr enc [] w = Some (None, w)"
| "send_parts ops kind corr enc (f # fs) w =
    do {
      (e, w) \<leftarrow> send_reply ops kind corr (enc (fst f)) (snd f) w;
      if e \<noteq> None then Some (e, w) else send_parts ops kind corr enc fs w
    }"

definition with_header :: "(nat \<Rightarrow> module_message) \<Rightarrow> byte list \<Rightarrow> byte list" where
  "with_header msg part = message_bytes (msg (length part)) @ part"

lemma reply_loop_parts:
  assumes "stageID \<noteq> 0" and "validModuleStatus status" and "length body \<le> 2 ^ 24" and "0 < cap"
    and "offset \<le> length body"
  shows "reply_loop ops kind corr stageID traceID status body cap is_first offset w =
    send_parts ops kind corr (with_header (result_message status stageID traceID))
      (if is_first \<or> offset < length body then fragments cap (drop offset body) else []) w"
  using assms(5)
proof (induction "length body - offset" arbitrary: offset is_first w rule: less_induct)
  case less
  show ?case
  proof (cases "is_first \<or> offset < length body")
    case False
    then show ?thesis by (subst reply_loop.simps) simp
  next
    case True
    let ?d = "drop offset body"
    let ?part = "if length ?d > cap then cap else length ?d"
    let ?p = "take ?part ?d" and ?more = "cap < length ?d"
    have len: "length ?p = ?part" by simp
    have slice: "slice body offset ?part = ?p" by (simp add: slice_def)
    have small: "length ?p \<le> 2 ^ 24" using assms(3) by auto
    obtain out where enc: "message_Encode (result_message status stageID traceID ?part)
        (replicate (ModuleMessageHeaderLen + ?part) 0) = Inr (40, out)" and
      out: "go_copy out ModuleMessageHeaderLen ?p = with_header (result_message status stageID traceID) ?p"
      using result_payload [OF assms(1,2) small, of traceID] unfolding len with_header_def by blast
    have unfold: "reply_loop ops kind corr stageID traceID status body cap is_first offset w =
        do {
          (e, w) \<leftarrow> send_reply ops kind corr (with_header (result_message status stageID traceID) ?p) ?more w;
          if e \<noteq> None then Some (e, w)
          else reply_loop ops kind corr stageID traceID status body cap False (offset + ?part) w
        }"
    proof -
      have m: "(offset + ?part < length body) = ?more" using assms(4) less.prems by auto
      have d: "length body - offset = length ?d" by simp
      show ?thesis
        by (subst reply_loop.simps, unfold d Let_def m enc slice out)
          (simp only: True if_True sum.case prod.case out)
    qed
    have rest: "reply_loop ops kind corr stageID traceID status body cap False (offset + ?part) v =
        send_parts ops kind corr (with_header (result_message status stageID traceID))
          (if ?more then fragments cap (drop cap ?d) else []) v" for v
    proof (cases "offset < length body")
      case less_body: True
      have "length body - (offset + ?part) < length body - offset" "offset + ?part \<le> length body"
        using less_body assms(4) by auto
      from less.hyps [OF this, of False v] show ?thesis using less_body by (auto simp: add.commute)
    next
      case False
      then have "?part = 0" "\<not> ?more" by auto
      then show ?thesis using False by (subst reply_loop.simps) simp
    qed
    have "fragments cap ?d = (?p, ?more) # (if ?more then fragments cap (drop cap ?d) else [])"
      using assms(4) by (subst fragments.simps) simp
    then show ?thesis
      unfolding unfold rest using True by simp
  qed
qed

lemma replyModuleResult_parts:
  assumes "stageID \<noteq> 0" and "reply_content status body = (status', body')"
    and "ModuleMessageHeaderLen < unat (op_moduleInlineBudget ops w)"
  shows "replyModuleResult ops kind corr stageID traceID status body w =
    send_parts ops kind corr (with_header (result_message status' stageID traceID))
      (fragments (unat (op_moduleInlineBudget ops w) - ModuleMessageHeaderLen) body') w"
  using assms reply_loop_parts [OF assms(1) reply_content_facts [OF assms(2)],
      of "unat (op_moduleInlineBudget ops w) - ModuleMessageHeaderLen" 0 ops kind corr traceID True w]
  by (simp add: replyModuleResult_def)

section \<open>What a reply sends\<close>

context bus_port
begin

lemma send_reply_inv:
  assumes "send_reply ops' kind corr p m w = Some y" and "ops' = ops" and "inv w"
  shows "inv (snd y) \<and>
    sent (snd y) = sent w @ (if fst y = None then [outgoing (reply_flags m) kind corr p] else [])"
  using assms
proof (induction rule: send_reply.raw_induct [rotated, consumes 1, case_names step])
  case (step send ops' kind corr p m w y)
  note ops' [simp] = step(3)
  obtain e w1 where r: "op_ReplyFragment ops kind corr p m w = Some (e, w1)" and
    i1: "inv w1" and s1: "sent w1 = sent w @ (if e = None then [outgoing (reply_flags m) kind corr p] else [])"
    using reply_law [OF step(4)] by blast
  obtain b w2 where w: "op_wait ops w1 = (b, w2)" by fastforce
  note l2 = wait_law [OF i1 w]
  obtain now w3 where c: "op_clock ops w2 = (now, w3)" by fastforce
  from l2 have i2: "inv w2" by simp
  note l3 = clock_law [OF i2 c]
  obtain w4 where h: "op_Heartbeat ops now w3 = Some w4" and l4: "inv w4" "sent w4 = sent w3"
    using heartbeat_law [of w3 now] l3 by blast
  obtain changed where ep: "op_EpochChanged ops w2 = Some changed" using epoch_law [OF i2] by blast
  show ?case
  proof (cases "e = Some ErrWouldBlock \<and> \<not> b \<and> \<not> changed")
    case False
    then show ?thesis using step(2) r w ep i1 s1 l2
      by (auto split: if_splits)
  next
    case True
    let ?v = "if now \<noteq> 0 then w4 else w3"
    have "send ops kind corr p m ?v = Some y"
      using step(2) r w ep c h True by (auto split: if_splits)
    from step(1) [OF this refl] have "inv (snd y) \<and>
        sent (snd y) = sent ?v @ (if fst y = None then [outgoing (reply_flags m) kind corr p] else [])"
      using l3 l4 by auto
    moreover have "sent ?v = sent w" using l2 l3 l4 s1 True by simp
    ultimately show ?thesis by simp
  qed
qed

lemmas send_reply_sends = send_reply_inv [OF _ refl]

lemma send_parts_sends:
  assumes "send_parts ops kind corr enc fs w = Some (e, w')" and "inv w"
  shows "inv w' \<and> (\<exists>n. sent w' = sent w @ take n (map (\<lambda>f. outgoing (reply_flags (snd f)) kind corr (enc (fst f))) fs) \<and>
    (if e = None then n = length fs else n < length fs))"
  using assms
proof (induction fs arbitrary: w)
  case Nil
  then show ?case by simp
next
  case (Cons f fs)
  let ?g = "\<lambda>f. outgoing (reply_flags (snd f)) kind corr (enc (fst f))"
  obtain e1 w1 where r: "send_reply ops kind corr (enc (fst f)) (snd f) w = Some (e1, w1)"
    using Cons.prems(1) by (cases "send_reply ops kind corr (enc (fst f)) (snd f) w") auto
  from send_reply_sends [OF r Cons.prems(2)] have i: "inv w1" and
    s: "sent w1 = sent w @ (if e1 = None then [?g f] else [])" by simp_all
  show ?case
  proof (cases e1)
    case None
    with Cons.prems(1) r have "send_parts ops kind corr enc fs w1 = Some (e, w')" by simp
    from Cons.IH [OF this i] obtain n where n: "inv w'" "sent w' = sent w1 @ take n (map ?g fs)"
      "if e = None then n = length fs else n < length fs" by blast
    show ?thesis
      by (intro conjI exI [of _ "Suc n"]) (use n s None in \<open>auto split: if_splits\<close>)
  next
    case (Some x)
    with Cons.prems(1) r have "e = e1" "w' = w1" by auto
    then show ?thesis using s i Some by auto
  qed
qed

end

section \<open>A reply returns\<close>

context fair_port
begin

lemma send_reply_returns:
  assumes "inv w"
  shows "\<exists>y. send_reply ops kind corr p m w = Some y"
  using assms
proof (induction "patience w" arbitrary: w rule: less_induct)
  case less
  obtain e w1 where r: "op_ReplyFragment ops kind corr p m w = Some (e, w1)" and
    i1: "inv w1" and e: "e \<noteq> None \<longrightarrow> w1 = w"
    using reply_law [OF less.prems] by blast
  show ?case
  proof (cases "e = Some ErrWouldBlock")
    case False
    then show ?thesis using r by (subst send_reply.simps) auto
  next
    case True
    with e r have r: "op_ReplyFragment ops kind corr p m w = Some (Some ErrWouldBlock, w)" by simp
    obtain b w2 where w: "op_wait ops w = (b, w2)" by fastforce
    have i2: "inv w2" using wait_law [OF less.prems w] by blast
    obtain now w3 where c: "op_clock ops w2 = (now, w3)" by fastforce
    have i3: "inv w3" using clock_law [OF i2 c] by blast
    obtain w4 where h: "op_Heartbeat ops now w3 = Some w4" and i4: "inv w4"
      using heartbeat_law [OF i3] by blast
    obtain changed where ep: "op_EpochChanged ops w2 = Some changed" using epoch_law [OF i2] by blast
    let ?v = "if now \<noteq> 0 then w4 else w3"
    have v: "patience ?v < patience w" "inv ?v"
      using wait_fair [OF less.prems r w] clock_fair [OF i2 c] heartbeat_fair [OF i3 h] i3 i4 by simp_all
    from less.hyps [OF v] obtain y where "send_reply ops kind corr p m ?v = Some y" by blast
    then show ?thesis using r w ep c h by (subst send_reply.simps) (auto split: if_splits)
  qed
qed

lemma send_parts_returns:
  assumes "inv w"
  shows "\<exists>y. send_parts ops kind corr enc fs w = Some y"
  using assms
proof (induction fs arbitrary: w)
  case (Cons f fs)
  obtain e w' where r: "send_reply ops kind corr (enc (fst f)) (snd f) w = Some (e, w')"
    using send_reply_returns [OF Cons.prems] by fastforce
  have "inv w'" using send_reply_sends [OF r Cons.prems] by simp
  then show ?case using Cons.IH [of w'] r by auto
qed simp

end

context steady_port
begin

lemma send_reply_succeeds:
  assumes "inv w" and "corr \<noteq> 0" and "p \<noteq> []" and "length p \<le> unat (op_moduleInlineBudget ops w)"
  shows "\<exists>w'. send_reply ops kind corr p m w = Some (None, w') \<and>
    op_moduleInlineBudget ops w' = op_moduleInlineBudget ops w"
  using assms(1,4)
proof (induction "patience w" arbitrary: w rule: less_induct)
  case less
  obtain e w1 where r: "op_ReplyFragment ops kind corr p m w = Some (e, w1)" and e: "e \<noteq> None \<longrightarrow> w1 = w"
    using reply_law [OF less.prems(1)] by blast
  show ?case
  proof (cases e)
    case None
    then show ?thesis using r budget_kept [OF less.prems(1) disjI1 [OF r]] by (subst send_reply.simps) auto
  next
    case (Some x)
    then have r: "op_ReplyFragment ops kind corr p m w = Some (Some ErrWouldBlock, w)"
      using no_refusal [OF less.prems(1) assms(2,3) less.prems(2) r] r e by simp
    obtain b w2 where w: "op_wait ops w = (b, w2)" by fastforce
    have i2: "inv w2" using wait_law [OF less.prems(1) w] by blast
    obtain now w3 where c: "op_clock ops w2 = (now, w3)" by fastforce
    have i3: "inv w3" using clock_law [OF i2 c] by blast
    obtain w4 where h: "op_Heartbeat ops now w3 = Some w4" and i4: "inv w4"
      using heartbeat_law [OF i3] by blast
    let ?v = "if now \<noteq> 0 then w4 else w3"
    have budget: "op_moduleInlineBudget ops ?v = op_moduleInlineBudget ops w"
      using budget_law [OF less.prems(1) w] budget_kept [OF i2 disjI2 [OF disjI2 [OF c]]]
        budget_kept [OF i3 disjI2 [OF disjI1 [OF h]]] by simp
    have v: "patience ?v < patience w" "inv ?v"
      using wait_fair [OF less.prems(1) r w] clock_fair [OF i2 c] heartbeat_fair [OF i3 h] i3 i4 by simp_all
    from less.hyps [OF v] less.prems(2) budget obtain w' where
      "send_reply ops kind corr p m ?v = Some (None, w')"
      "op_moduleInlineBudget ops w' = op_moduleInlineBudget ops w" by auto
    then show ?thesis
      using r w c h no_restart [OF i2] no_stop [OF less.prems(1) w]
      by (subst send_reply.simps) (auto split: if_splits)
  qed
qed

lemma send_parts_succeeds:
  assumes "inv w" and "corr \<noteq> 0"
    and "\<forall>f \<in> set fs. enc (fst f) \<noteq> [] \<and> length (enc (fst f)) \<le> unat (op_moduleInlineBudget ops w)"
  shows "\<exists>w'. send_parts ops kind corr enc fs w = Some (None, w')"
  using assms(1,3)
proof (induction fs arbitrary: w)
  case (Cons f fs)
  obtain w' where r: "send_reply ops kind corr (enc (fst f)) (snd f) w = Some (None, w')" and
    b: "op_moduleInlineBudget ops w' = op_moduleInlineBudget ops w"
    using send_reply_succeeds [OF Cons.prems(1) assms(2), of "enc (fst f)" kind "snd f"] Cons.prems(2)
    by auto
  have "inv w'" using send_reply_sends [OF r Cons.prems(1)] by simp
  then show ?case using Cons.IH [of w'] Cons.prems(2) r b by simp
qed simp

end

section \<open>Properties of a reply\<close>

lemma message_bytes_not_Nil [simp]: "message_bytes m \<noteq> []"
  by (simp flip: length_greater_0_conv)

lemma result_frames_enc:
  "map (\<lambda>f. outgoing (reply_flags (snd f)) kind corr (with_header (result_message status stageID traceID) (fst f)))
    (fragments cap body) = result_fragments kind corr stageID traceID status body cap"
  by (simp add: result_fragments_def result_frame_def with_header_def)

lemma length_result_fragments [simp]:
  "length (result_fragments kind corr stageID traceID status body cap) = length (fragments cap body)"
  by (simp add: result_fragments_def)

definition carries :: "outgoing list \<Rightarrow> byte list \<Rightarrow> nat \<Rightarrow> bool" where
  \<comment> \<open>the frames carry the body behind their headers, each within the budget, all but the last
    marked \<open>more\<close>\<close>
  "carries frames body budget \<longleftrightarrow>
     concat (map (\<lambda>(_, _, _, p). drop ModuleMessageHeaderLen p) frames) = body \<and>
     (\<forall>(_, _, _, p) \<in> set frames. ModuleMessageHeaderLen \<le> length p \<and> length p \<le> budget) \<and>
     map (\<lambda>(flags, _). flags AND FMore \<noteq> 0) frames = replicate (length frames - 1) True @ [False]"

lemma carries_frames:
  assumes "ModuleMessageHeaderLen < budget" and "\<And>n. length (hdr n) = ModuleMessageHeaderLen"
    and "\<And>f. g f = (fl (snd f), x, y, hdr (length (fst f)) @ fst f)" and "\<And>m. (fl m AND FMore \<noteq> 0) = m"
  shows "carries (map g (fragments (budget - ModuleMessageHeaderLen) body)) body budget"
proof -
  let ?cap = "budget - ModuleMessageHeaderLen"
  have "concat (map (\<lambda>(_, _, _, p). drop ModuleMessageHeaderLen p) (map g (fragments ?cap body))) = body"
    using fragments_concat [of ?cap body] by (simp add: assms(2,3) comp_def del: ModuleMessageHeaderLen_def)
  moreover have "ModuleMessageHeaderLen \<le> length p \<and> length p \<le> budget"
    if "(a, b, c, p) \<in> set (map g (fragments ?cap body))" for a b c p
  proof -
    from that obtain q m where q: "(q, m) \<in> set (fragments ?cap body)" and p: "p = hdr (length q) @ q"
      by (auto simp: assms(3))
    have "length q \<le> ?cap" using fragments_bounds [OF _ q] assms(1) by simp
    then show ?thesis using assms(1) by (simp add: p assms(2) del: ModuleMessageHeaderLen_def)
  qed
  moreover obtain ps p where fs: "fragments ?cap body = map (\<lambda>q. (q, True)) ps @ [(p, False)]"
    using fragments_more by blast
  have "map (\<lambda>(flags, _). flags AND FMore \<noteq> 0) (map g (fragments ?cap body)) =
      replicate (length (map g (fragments ?cap body)) - 1) True @ [False]"
    unfolding fs by (simp add: assms(3) comp_def assms(4) [of True, simplified] assms(4) [of False, simplified]
        map_replicate_const)
  ultimately show ?thesis unfolding carries_def by blast
qed

lemma result_fragments_carry:
  assumes "ModuleMessageHeaderLen < budget"
  shows "carries (result_fragments kind corr stageID traceID status body (budget - ModuleMessageHeaderLen)) body budget"
  unfolding result_fragments_def
  by (rule carries_frames [OF assms, where fl = "\<lambda>m. reply_flags m OR FInline" and
        hdr = "\<lambda>n. message_bytes (result_message status stageID traceID n)"])
    (simp_all add: result_frame_def outgoing_def reply_flags_def)

text \<open>
  What a reply puts on the bus. Whatever the ring, the host and the context do while
  \<open>replyModuleResult\<close> waits, if it returns it has sent a prefix, in order and with nothing in
  between, of the frames of the result, and all of them exactly when it reports success. The
  frames fit the inline budget, their bodies concatenate to the body of the reply (none for a
  failure status or an oversized body, which becomes an internal error) and all but the last
  are marked \<open>more\<close>.
\<close>

theorem reply_is_prefix:
  assumes "cw_inv w" and "stageID \<noteq> 0" and "ModuleMessageHeaderLen < unat (inlineBudget (cw_client w))"
    and "replyModuleResult client_ops kind corr stageID traceID status body w = Some (e, w')"
  shows "\<exists>frames n.
    frames = result_fragments kind corr stageID traceID (fst (reply_content status body))
      (snd (reply_content status body)) (unat (inlineBudget (cw_client w)) - ModuleMessageHeaderLen) \<and>
    carries frames (snd (reply_content status body)) (unat (inlineBudget (cw_client w))) \<and>
    cw_sent w' = cw_sent w @ take n frames \<and> (if e = None then n = length frames else n < length frames)"
proof -
  obtain status' body' where c: "reply_content status body = (status', body')" by fastforce
  let ?cap = "unat (inlineBudget (cw_client w)) - ModuleMessageHeaderLen"
  let ?frames = "result_fragments kind corr stageID traceID status' body' ?cap"
  have "send_parts client_ops kind corr (with_header (result_message status' stageID traceID))
      (fragments ?cap body') w = Some (e, w')"
    using replyModuleResult_parts [OF assms(2) c, of client_ops w] assms(3,4) by (simp add: client_ops_def)
  from clientp.send_parts_sends [OF this assms(1)] obtain n where
    "cw_sent w' = cw_sent w @ take n ?frames" "if e = None then n = length ?frames else n < length ?frames"
    unfolding result_frames_enc length_result_fragments by blast
  then show ?thesis
    unfolding c fst_conv snd_conv
    by (intro exI [of _ ?frames] exI [of _ n] conjI result_fragments_carry assms(3) refl)
qed

lemma reply_all:
  assumes "cw_steady w" and "stageID \<noteq> 0" and "corr \<noteq> 0"
    and "ModuleMessageHeaderLen < unat (inlineBudget (cw_client w))"
  shows "\<exists>w'. replyModuleResult client_ops kind corr stageID traceID status body w = Some (None, w') \<and>
    cw_sent w' = cw_sent w @ result_fragments kind corr stageID traceID (fst (reply_content status body))
      (snd (reply_content status body)) (unat (inlineBudget (cw_client w)) - ModuleMessageHeaderLen)"
proof -
  obtain status' body' where c: "reply_content status body = (status', body')" by fastforce
  let ?cap = "unat (inlineBudget (cw_client w)) - ModuleMessageHeaderLen"
  let ?enc = "with_header (result_message status' stageID traceID)"
  have budget: "op_moduleInlineBudget client_ops w = inlineBudget (cw_client w)" by (simp add: client_ops_def)
  have "?enc (fst f) \<noteq> [] \<and> length (?enc (fst f)) \<le> unat (op_moduleInlineBudget client_ops w)"
    if "f \<in> set (fragments ?cap body')" for f
    using fragments_bounds [of ?cap "fst f" "snd f" body'] that assms(4)
      length_message_bytes [of "result_message status' stageID traceID (length (fst f))"]
    by (auto simp: with_header_def budget simp flip: length_greater_0_conv)
  then obtain w' where w': "send_parts client_ops kind corr ?enc (fragments ?cap body') w = Some (None, w')"
    using steadyp.send_parts_succeeds [OF assms(1,3)] by blast
  moreover have "cw_sent w' = cw_sent w @ result_fragments kind corr stageID traceID status' body' ?cap"
    using steadyp.send_parts_sends [OF w' assms(1)] unfolding result_frames_enc
    by (auto simp: result_fragments_def)
  ultimately show ?thesis
    using replyModuleResult_parts [OF assms(2) c, of client_ops w] assms(4) budget c by auto
qed

text \<open>
  C12. Every reply is delivered. In a process that is not told to stop and whose host does not
  restart and takes slots again and again, however slowly, \<open>replyModuleResult\<close> returns
  success, having sent all frames of the result.
\<close>

theorem reply_delivered:
  assumes "cw_steady w" and "stageID \<noteq> 0" and "corr \<noteq> 0"
    and "ModuleMessageHeaderLen < unat (inlineBudget (cw_client w))"
  shows "\<exists>w'. replyModuleResult client_ops kind corr stageID traceID status body w = Some (None, w') \<and>
    cw_sent w' = cw_sent w @ result_fragments kind corr stageID traceID (fst (reply_content status body))
      (snd (reply_content status body)) (unat (inlineBudget (cw_client w)) - ModuleMessageHeaderLen)"
  by (rule reply_all [OF assms])

lemma sample_fragments: "fragments 8 [1, 2, 3, 4, 5, 6, 7, 8, 9, 10] = [([1, 2, 3, 4, 5, 6, 7, 8], True), ([9, 10], False)]"
  by (simp add: fragments.simps)

theorem reply_delivered_witness:
  "\<exists>w'. replyModuleResult client_ops 300 7 1 9 ModuleStatusOK [1, 2, 3, 4, 5, 6, 7, 8, 9, 10] sample_world = Some (None, w') \<and>
    length (cw_sent w') = 2"
  using reply_delivered [OF sample_world_steady(1), of 1 7 300 9 ModuleStatusOK "[1, 2, 3, 4, 5, 6, 7, 8, 9, 10]"]
  by (auto simp: sample_world_steady reply_content_def validModuleStatus_def sample_fragments)

theorem reply_is_prefix_witness:
  "\<exists>e w' n. replyModuleResult client_ops 300 7 1 9 ModuleStatusInternal [1, 2] sample_world = Some (e, w') \<and>
    cw_sent w' = take n (result_fragments 300 7 1 9 ModuleStatusInternal [] 8)"
proof -
  have inv: "cw_inv sample_world" using sample_world_steady(1) by (simp add: cw_steady_def)
  have c: "reply_content ModuleStatusInternal [1, 2] = (ModuleStatusInternal, [])"
    by (simp add: reply_content_def validModuleStatus_def)
  have b: "ModuleMessageHeaderLen < unat (inlineBudget (cw_client sample_world))"
    by (simp add: sample_world_steady)
  then have "\<exists>y. replyModuleResult client_ops 300 7 1 9 ModuleStatusInternal [1, 2] sample_world = Some y"
    using replyModuleResult_parts [of 1, OF _ c, of client_ops sample_world] clientp.send_parts_returns [OF inv]
    by (simp add: client_ops_def)
  then obtain e w' where r: "replyModuleResult client_ops 300 7 1 9 ModuleStatusInternal [1, 2] sample_world = Some (e, w')"
    by auto
  from reply_is_prefix [OF inv _ b r] show ?thesis using r c by (auto simp: sample_world_steady)
qed

end
