(* ===== verification/Module_Caller.thy ===== *)
theory Module_Caller
  imports Module_Reply
begin

text \<open>
  The calling side of \<open>server-go/bus/module_caller.go\<close>: \<open>send\<close> fragments a request, \<open>awaitReply\<close>
  polls the bus until the correlated result is complete, \<open>Call\<close> is both with a deadline and a
  cancel on the way out. The loop of \<open>awaitReply\<close> has no bound of its own; its value is \<open>None\<close>
  when it does not return.
\<close>

section \<open>Sending a request\<close>

definition invoke_message :: "u32 \<Rightarrow> u64 \<Rightarrow> u64 \<Rightarrow> nat \<Rightarrow> module_message" where
  "invoke_message stageID deadlineNS traceID part =
    \<lparr>Operation = ModuleOpInvoke, Status = ModuleStatusOK, StageID = stageID, Flags = 0,
     BodyLen = word_of_nat part, DeadlineNS = deadlineNS, TraceID = traceID\<rparr>"

partial_function (option) send_loop ::
  "'w bus_ops \<Rightarrow> u32 \<Rightarrow> u64 \<Rightarrow> u32 \<Rightarrow> u64 \<Rightarrow> u64 \<Rightarrow> byte list \<Rightarrow> nat \<Rightarrow> bool \<Rightarrow> nat \<Rightarrow> byte list \<Rightarrow> 'w \<Rightarrow>
    (bus_error option \<times> 'w) option" where
  \<comment> \<open>the loop of \<open>send\<close>; the buffer \<open>frame\<close> is reused by every fragment\<close>
  "send_loop ops kind corr stageID traceID deadlineNS request chunk is_first offset frame w =
    (if is_first \<or> offset < length request then
       let part = length request - offset;
           part = (if part > chunk then chunk else part);
           is_more = (offset + part < length request)
       in (case message_Encode (invoke_message stageID deadlineNS traceID part) frame of
             Inl e \<Rightarrow> Some (Some e, w)
           | Inr (written, frame) \<Rightarrow>
               let frame = go_copy frame written (slice request offset part)
               in do {
                 (e, w) \<leftarrow> op_RequestFragment ops kind corr (take (written + part) frame) is_more w;
                 if e \<noteq> None then Some (e, w)
                 else send_loop ops kind corr stageID traceID deadlineNS request chunk False
                        (offset + part) frame w
               })
     else Some (None, w))"

definition send ::
  "'w bus_ops \<Rightarrow> u32 \<Rightarrow> u32 \<Rightarrow> u64 \<Rightarrow> u64 \<Rightarrow> u64 \<Rightarrow> byte list \<Rightarrow> 'w \<Rightarrow> (bus_error option \<times> 'w) option" where
  "send ops eventKind stageID traceID correlation deadlineNS request w =
    (let budget = op_moduleInlineBudget ops w
     in if unat budget \<le> ModuleMessageHeaderLen then Some (Some ErrModuleRuntime, w)
        else send_loop ops eventKind correlation stageID traceID deadlineNS request
               (unat budget - ModuleMessageHeaderLen) True 0 (replicate (unat budget) 0) w)"

section \<open>Waiting for the result\<close>

datatype await = Waiting "byte list" | Finished "bus_error + byte list"

definition caller_event :: "u32 \<Rightarrow> u32 \<Rightarrow> u64 \<Rightarrow> byte list \<Rightarrow> event \<Rightarrow> await" where
  \<comment> \<open>what \<open>awaitReply\<close> does with one event\<close>
  "caller_event responseLimit eventKind correlation body ev =
    (let f = Frame ev in
     if CorrelationID f = correlation \<and> EventKind f = KindCapabilityAbsent
     then Finished (Inl ErrModuleCallCapabilityAbsent)
     else if CorrelationID f = correlation \<and> EventKind f = KindError
     then Finished (Inl ErrModuleCallRejected)
     else if EventKind f \<noteq> eventKind \<or> CorrelationID f \<noteq> correlation then Waiting body
     else case DecodeModuleMessage (Payload ev) of
       Inl _ \<Rightarrow> Waiting body
     | Inr m \<Rightarrow>
         if Operation m \<noteq> ModuleOpResult then Waiting body
         else if Status m \<noteq> ModuleStatusOK then Finished (Inl (ErrModuleCallStatus (Status m)))
         else if ModuleMessageHeaderLen + unat (BodyLen m) > length (Payload ev)
         then Finished (Inl ErrModuleRuntime)
         else if word_of_nat (length body) + BodyLen m > responseLimit
         then Finished (Inl ErrModuleRuntime)
         else
           let body = body @ slice (Payload ev) ModuleMessageHeaderLen (unat (BodyLen m))
           in if HdrFlags f AND FMore \<noteq> 0 then Waiting body else Finished (Inr body))"

partial_function (option) awaitReply ::
  "'w bus_ops \<Rightarrow> u32 \<Rightarrow> u32 \<Rightarrow> u64 \<Rightarrow> int option \<Rightarrow> byte list \<Rightarrow> 'w \<Rightarrow> ((bus_error + byte list) \<times> 'w) option" where
  \<comment> \<open>\<open>expiry\<close> is \<open>None\<close> for the zero time; \<open>body\<close> is empty at the start\<close>
  "awaitReply ops responseLimit eventKind correlation expiry body w =
    do {
      (r, w) \<leftarrow> op_Poll ops w;
      (case r of
         PollError e \<Rightarrow> Some (Inl e, w)
       | NoEvent \<Rightarrow>
           if op_done ops w then Some (Inl ErrModuleCallCancelled, w)
           else if expiry \<noteq> None \<and> op_now ops w > the expiry then Some (Inl ErrModuleCallDeadline, w)
           else awaitReply ops responseLimit eventKind correlation expiry body (op_sleep ops w)
       | Polled ev \<Rightarrow>
           (case caller_event responseLimit eventKind correlation body ev of
              Waiting body \<Rightarrow> awaitReply ops responseLimit eventKind correlation expiry body w
            | Finished res \<Rightarrow> Some (res, w)))
    }"

section \<open>A call\<close>

record module_caller =
  \<comment> \<open>\<open>ModuleCaller\<close>; its client is the world the operations act on\<close>
  mc_correlation :: u64
  mc_responseLimit :: u32

definition newModuleCaller :: module_caller where
  "newModuleCaller = \<lparr>mc_correlation = 0, mc_responseLimit = ModuleMessageMaxBody\<rparr>"

definition Call ::
  "'w bus_ops \<Rightarrow> u32 \<Rightarrow> u32 \<Rightarrow> u64 \<Rightarrow> int \<Rightarrow> byte list \<Rightarrow> module_caller \<Rightarrow> 'w \<Rightarrow>
    ((bus_error + byte list) \<times> module_caller \<times> 'w) option" where
  \<comment> \<open>\<open>deadline\<close> in nanoseconds, a signed 64-bit \<open>time.Duration\<close>\<close>
  "Call ops eventKind stageID traceID deadline request m w =
    (if word_of_nat (length request) > ModuleMessageMaxBody then Some (Inl ErrModuleConfig, m, w)
     else
       let m = m\<lparr>mc_correlation := mc_correlation m + 1\<rparr>;
           correlation = mc_correlation m;
           (deadlineNS, w) = (if deadline > 0
             then (case op_clock ops w of (now, w) \<Rightarrow> (now + word_of_int deadline, w)) else (0, w))
       in do {
         (e, w) \<leftarrow> send ops eventKind stageID traceID correlation deadlineNS request w;
         (case e of
            Some err \<Rightarrow> Some (Inl err, m, w)
          | None \<Rightarrow>
              let expiry = (if deadline > 0 then Some (op_now ops w + deadline) else None)
              in do {
                (res, w) \<leftarrow> awaitReply ops (mc_responseLimit m) eventKind correlation expiry [] w;
                (case res of
                   Inr body \<Rightarrow> Some (Inr body, m, w)
                 | Inl err \<Rightarrow>
                     do { (_, w) \<leftarrow> op_Cancel ops eventKind correlation w; Some (Inl err, m, w) })
              })
       })"

section \<open>What a request sends\<close>

primrec request_parts ::
  "'w bus_ops \<Rightarrow> u32 \<Rightarrow> u64 \<Rightarrow> (byte list \<Rightarrow> byte list) \<Rightarrow> (byte list \<times> bool) list \<Rightarrow> 'w \<Rightarrow>
    (bus_error option \<times> 'w) option" where
  "request_parts ops kind corr enc [] w = Some (None, w)"
| "request_parts ops kind corr enc (f # fs) w =
    do {
      (e, w) \<leftarrow> op_RequestFragment ops kind corr (enc (fst f)) (snd f) w;
      if e \<noteq> None then Some (e, w) else request_parts ops kind corr enc fs w
    }"

definition request_frame :: "u32 \<Rightarrow> u64 \<Rightarrow> u32 \<Rightarrow> u64 \<Rightarrow> u64 \<Rightarrow> byte list \<times> bool \<Rightarrow> outgoing" where
  "request_frame kind corr stageID deadlineNS traceID f =
    outgoing (request_flags (snd f)) kind corr
      (with_header (invoke_message stageID deadlineNS traceID) (fst f))"

definition request_fragments :: "u32 \<Rightarrow> u64 \<Rightarrow> u32 \<Rightarrow> u64 \<Rightarrow> u64 \<Rightarrow> byte list \<Rightarrow> nat \<Rightarrow> outgoing list" where
  \<comment> \<open>the frames of a request\<close>
  "request_fragments kind corr stageID deadlineNS traceID request cap =
    map (request_frame kind corr stageID deadlineNS traceID) (fragments cap request)"

lemma invoke_message_valid:
  assumes "stageID \<noteq> 0" and "part \<le> 2 ^ 24"
  shows "message_valid (invoke_message stageID deadlineNS traceID part)"
  using assms by (simp add: message_valid_def invoke_message_def word_le_nat_alt unat_of_nat)

lemma invoke_payload:
  assumes "stageID \<noteq> 0" and "length p \<le> 2 ^ 24" and "length p \<le> chunk" and "length buf = 40 + chunk"
  shows "\<exists>out. message_Encode (invoke_message stageID deadlineNS traceID (length p)) buf = Inr (40, out) \<and>
    length (go_copy out 40 p) = 40 + chunk \<and>
    take (40 + length p) (go_copy out 40 p) = with_header (invoke_message stageID deadlineNS traceID) p"
  using message_Encode_OK [OF invoke_message_valid [OF assms(1,2)], of buf deadlineNS traceID] assms(3,4)
  by (simp add: go_copy_def splice_def with_header_def)

lemma send_loop_parts:
  assumes "stageID \<noteq> 0" and "length request \<le> 2 ^ 24" and "0 < chunk"
    and "offset \<le> length request" and "length buf = 40 + chunk"
  shows "send_loop ops kind corr stageID traceID deadlineNS request chunk is_first offset buf w =
    request_parts ops kind corr (with_header (invoke_message stageID deadlineNS traceID))
      (if is_first \<or> offset < length request then fragments chunk (drop offset request) else []) w"
  using assms(4,5)
proof (induction "length request - offset" arbitrary: offset is_first buf w rule: less_induct)
  case less
  let ?enc = "with_header (invoke_message stageID deadlineNS traceID)"
  show ?case
  proof (cases "is_first \<or> offset < length request")
    case False
    then show ?thesis by (subst send_loop.simps) simp
  next
    case True
    let ?d = "drop offset request"
    let ?part = "if length ?d > chunk then chunk else length ?d"
    let ?p = "take ?part ?d" and ?more = "chunk < length ?d"
    have len: "length ?p = ?part" by simp
    have slice: "slice request offset ?part = ?p" by (simp add: slice_def)
    have small: "length ?p \<le> 2 ^ 24" "length ?p \<le> chunk" using assms(2) by auto
    obtain out where enc: "message_Encode (invoke_message stageID deadlineNS traceID ?part) buf = Inr (40, out)" and
      out: "take (40 + ?part) (go_copy out 40 ?p) = ?enc ?p" and lout: "length (go_copy out 40 ?p) = 40 + chunk"
      using invoke_payload [OF assms(1) small less.prems(2), of deadlineNS traceID] unfolding len by blast
    let ?buf = "go_copy out 40 ?p"
    have unfold: "send_loop ops kind corr stageID traceID deadlineNS request chunk is_first offset buf w =
        do {
          (e, w) \<leftarrow> op_RequestFragment ops kind corr (?enc ?p) ?more w;
          if e \<noteq> None then Some (e, w)
          else send_loop ops kind corr stageID traceID deadlineNS request chunk False (offset + ?part) ?buf w
        }"
    proof -
      have m: "(offset + ?part < length request) = ?more" using assms(3) less.prems by auto
      have d: "length request - offset = length ?d" by simp
      show ?thesis
        by (subst send_loop.simps, unfold d Let_def m enc slice)
          (simp only: True if_True sum.case prod.case out slice)
    qed
    have rest: "send_loop ops kind corr stageID traceID deadlineNS request chunk False (offset + ?part) ?buf v =
        request_parts ops kind corr ?enc (if ?more then fragments chunk (drop chunk ?d) else []) v" for v
    proof (cases "offset < length request")
      case less_body: True
      have "length request - (offset + ?part) < length request - offset" "offset + ?part \<le> length request"
        using less_body assms(3) by auto
      from less.hyps [OF this lout, of False v] show ?thesis using less_body by (auto simp: add.commute)
    next
      case False
      then have "?part = 0" "\<not> ?more" by auto
      then show ?thesis using False by (subst send_loop.simps) simp
    qed
    have "fragments chunk ?d = (?p, ?more) # (if ?more then fragments chunk (drop chunk ?d) else [])"
      using assms(3) by (subst fragments.simps) simp
    then show ?thesis
      unfolding unfold rest using True by simp
  qed
qed

lemma send_parts_eq:
  assumes "stageID \<noteq> 0" and "length request \<le> 2 ^ 24"
    and "ModuleMessageHeaderLen < unat (op_moduleInlineBudget ops w)"
  shows "send ops kind stageID traceID corr deadlineNS request w =
    request_parts ops kind corr (with_header (invoke_message stageID deadlineNS traceID))
      (fragments (unat (op_moduleInlineBudget ops w) - ModuleMessageHeaderLen) request) w"
proof -
  let ?chunk = "unat (op_moduleInlineBudget ops w) - ModuleMessageHeaderLen"
  have "length (replicate (unat (op_moduleInlineBudget ops w)) (0 :: byte)) = 40 + ?chunk" using assms(3) by simp
  then show ?thesis
    using send_loop_parts [OF assms(1,2), of ?chunk 0 _ ops kind corr traceID deadlineNS True w] assms(3)
    by (simp add: send_def)
qed

lemma request_frames_enc:
  "map (\<lambda>f. outgoing (request_flags (snd f)) kind corr (with_header (invoke_message stageID deadlineNS traceID) (fst f)))
    (fragments cap request) = request_fragments kind corr stageID deadlineNS traceID request cap"
  by (simp add: request_fragments_def request_frame_def)

context bus_port
begin

lemma request_parts_sends:
  assumes "inv w"
  shows "\<exists>e w' n. request_parts ops kind corr enc fs w = Some (e, w') \<and> inv w' \<and>
    sent w' = sent w @ take n (map (\<lambda>f. outgoing (request_flags (snd f)) kind corr (enc (fst f))) fs) \<and>
    (if e = None then n = length fs else n < length fs)"
  using assms
proof (induction fs arbitrary: w)
  case Nil
  then show ?case by simp
next
  case (Cons f fs)
  let ?g = "\<lambda>f. outgoing (request_flags (snd f)) kind corr (enc (fst f))"
  obtain e1 w1 where r: "op_RequestFragment ops kind corr (enc (fst f)) (snd f) w = Some (e1, w1)" and
    i: "inv w1" and s: "sent w1 = sent w @ (if e1 = None then [?g f] else [])"
    using request_law [OF Cons.prems] by blast
  show ?case
  proof (cases e1)
    case None
    from Cons.IH [OF i] obtain e w' n where n: "request_parts ops kind corr enc fs w1 = Some (e, w')"
      "inv w'" "sent w' = sent w1 @ take n (map ?g fs)" "if e = None then n = length fs else n < length fs"
      by blast
    show ?thesis
      by (intro exI [of _ e] exI [of _ w'] exI [of _ "Suc n"] conjI) (use n r s None in \<open>auto split: if_splits\<close>)
  next
    case (Some x)
    show ?thesis
      by (intro exI [of _ e1] exI [of _ w1] exI [of _ 0] conjI) (use r s i Some in auto)
  qed
qed

lemma awaitReply_inv:
  assumes "awaitReply ops' limit kind corr expiry body w = Some y" and "ops' = ops" and "inv w"
  shows "inv (snd y) \<and> sent (snd y) = sent w"
  using assms
proof (induction rule: awaitReply.raw_induct [rotated, consumes 1, case_names step])
  case (step await ops' limit kind corr expiry body w y)
  note ops' [simp] = step(3)
  obtain r w1 where p: "op_Poll ops w = Some (r, w1)"
    using step(2) by (cases "op_Poll ops w") auto
  note l1 = poll_law [OF step(4) p]
  then have "inv w1" by blast
  note l2 = sleep_law [OF this]
  show ?case
  proof (cases r)
    case NoEvent
    then show ?thesis
      using step(2) p l1 l2 step(1) [OF _ refl, of limit kind corr expiry body "op_sleep ops w1" y]
      by (auto split: if_splits)
  next
    case (PollError x)
    then show ?thesis using step(2) p l1 by auto
  next
    case (Polled ev)
    then show ?thesis
      using step(2) p l1 step(1) [OF _ refl, of limit kind corr expiry _ w1 y]
      by (auto split: await.splits)
  qed
qed

end

section \<open>A source of events\<close>

text \<open>
  What \<open>awaitReply\<close> relies on while events are pending: every poll hands out the next one, or
  reports none (a slot that does not decode, an event still on its way) a bounded number of
  times, and the context does not end the wait.
\<close>

locale event_source =
  fixes ops :: "'w bus_ops" and inv :: "'w \<Rightarrow> bool" and incoming :: "'w \<Rightarrow> event list"
    and delay :: "'w \<Rightarrow> nat"
  assumes next_event: "inv w \<Longrightarrow> incoming w = ev # evs \<Longrightarrow>
      (\<exists>w'. op_Poll ops w = Some (Polled ev, w') \<and> inv w' \<and> incoming w' = evs) \<or>
      (\<exists>w'. op_Poll ops w = Some (NoEvent, w') \<and> \<not> op_done ops w' \<and> inv (op_sleep ops w') \<and>
        incoming (op_sleep ops w') = incoming w \<and> delay (op_sleep ops w') < delay w)"

fun consume :: "u32 \<Rightarrow> u32 \<Rightarrow> u64 \<Rightarrow> byte list \<Rightarrow> event list \<Rightarrow> await" where
  \<comment> \<open>the events read one after the other\<close>
  "consume limit kind corr body [] = Waiting body"
| "consume limit kind corr body (ev # evs) =
    (case caller_event limit kind corr body ev of
       Waiting body \<Rightarrow> consume limit kind corr body evs | Finished res \<Rightarrow> Finished res)"

context event_source
begin

lemma await_consume:
  assumes "inv w" and "consume limit kind corr body (incoming w) = Finished res"
  shows "\<exists>w'. awaitReply ops limit kind corr None body w = Some (res, w')"
proof -
  let ?r = "inv_image (less_than <*lex*> less_than) (\<lambda>w. (length (incoming w), delay w))"
  have wf: "wf ?r" by auto
  show ?thesis
    using assms
  proof (induction w arbitrary: body rule: wf_induct_rule [OF wf])
    case (1 w)
    obtain ev evs where i: "incoming w = ev # evs" using 1(3) by (cases "incoming w") auto
    from next_event [OF 1(2) i] show ?case
    proof (elim disjE exE conjE)
      fix w1 assume p: "op_Poll ops w = Some (Polled ev, w1)" "inv w1" "incoming w1 = evs"
      show ?thesis
      proof (cases "caller_event limit kind corr body ev")
        case (Waiting b)
        with 1(3) i have "consume limit kind corr b (incoming w1) = Finished res" by (simp add: p)
        with 1(1) [of w1 b] p i obtain w' where "awaitReply ops limit kind corr None b w1 = Some (res, w')" by auto
        then show ?thesis using p Waiting by (subst awaitReply.simps) auto
      next
        case (Finished r)
        then show ?thesis using p 1(3) i by (subst awaitReply.simps) simp
      qed
    next
      fix w1 assume p: "op_Poll ops w = Some (NoEvent, w1)" "\<not> op_done ops w1" "inv (op_sleep ops w1)"
        "incoming (op_sleep ops w1) = incoming w" "delay (op_sleep ops w1) < delay w"
      with 1(1) [of "op_sleep ops w1" body] 1(3) obtain w' where
        "awaitReply ops limit kind corr None body (op_sleep ops w1) = Some (res, w')" by auto
      then show ?thesis using p by (subst awaitReply.simps) auto
    qed
  qed
qed

end

text \<open>The events a client has received and not yet handed out.\<close>

definition slot_events :: "u32 \<Rightarrow> byte list \<Rightarrow> event list" where
  "slot_events slotSize s =
    (let (r, f) = Decode s zero_frame in
     if r \<noteq> OK then []
     else [\<lparr>Frame = f, Payload =
       (if HdrFlags f AND FInline \<noteq> 0 \<and> PayloadLen f > 0 \<and> PayloadRef f + ucast (PayloadLen f) \<le> ucast slotSize
        then slice s (unat (PayloadRef f)) (unat (PayloadLen f)) else [])\<rparr>])"

definition cw_incoming :: "client_world \<Rightarrow> event list" where
  "cw_incoming w = concat (map (slot_events (c_slotSize (cw_client w))) (inbox (cw_client w)))"

definition cw_listening :: "client_world \<Rightarrow> bool" where
  \<comment> \<open>a steady client whose received frames do not wrap the bound check of \<open>Poll\<close>\<close>
  "cw_listening w \<longleftrightarrow> cw_steady w \<and> unat (c_slotSize (cw_client w)) \<le> in_slot (cw_client w) \<and>
     (\<forall>s \<in> set (inbox (cw_client w)). \<forall>f. Decode s zero_frame = (OK, f) \<longrightarrow>
        unat (PayloadRef f) + unat (PayloadLen f) < 2 ^ 64)"

lemma in_slot_settle [simp]:
  "in_slot (settle c q m) = in_slot c" "in_slot (c\<lparr>pendingRead := b\<rparr>) = in_slot c"
  "in_slot (c\<lparr>qpMem := x\<rparr>) = in_slot c" "c_slotSize (settle c q m) = c_slotSize c"
  by (simp_all add: settle_def in_slot_def)

lemma listening_sleep:
  assumes "cw_listening w"
  shows "cw_listening (op_sleep client_ops w)" and "inbox (cw_client (op_sleep client_ops w)) = inbox (cw_client w)"
    and "c_slotSize (cw_client (op_sleep client_ops w)) = c_slotSize (cw_client w)"
proof -
  let ?c = "cw_client w" and ?move = "cw_host w (cw_turn w)"
  have st: "cw_steady w" "client_inv ?c" "hm_epoch ?move = None"
    using assms by (simp_all add: cw_listening_def cw_steady_def cw_inv_def)
  obtain ss c where t: "host_take (hm_take ?move) ?c = (ss, c)" by fastforce
  have c: "cw_client (op_sleep client_ops w) = c"
    using t st by (simp add: client_ops_def client_wait_def Let_def host_restart_def)
  note i = host_take_inbox [OF st(2) t] and o = host_take_outbox [OF st(2) t]
  then show inbox: "inbox (cw_client (op_sleep client_ops w)) = inbox ?c"
    and size: "c_slotSize (cw_client (op_sleep client_ops w)) = c_slotSize ?c"
    by (simp_all add: c same_shape_def)
  have "cw_steady (op_sleep client_ops w)" using steadyp.sleep_law [OF st(1)] by blast
  then show "cw_listening (op_sleep client_ops w)"
    using assms i unfolding cw_listening_def inbox size by (simp add: c)
qed

lemma listening_Poll:
  assumes "cw_listening w" and i: "inbox (cw_client w) = s # rest"
  shows "\<exists>w'. op_Poll client_ops w = Some ((case slot_events (c_slotSize (cw_client w)) s of
      [] \<Rightarrow> NoEvent | ev # _ \<Rightarrow> Polled ev), w') \<and> cw_listening w' \<and> inbox (cw_client w') = rest \<and>
    c_slotSize (cw_client w') = c_slotSize (cw_client w)"
proof -
  let ?c = "cw_client w"
  note l = assms(1) [unfolded cw_listening_def]
  have st: "client_inv ?c" "epoch_current ?c" "cw_inv w" using l by (simp_all add: cw_steady_def cw_inv_def)
  from st(1) obtain q cm m where v: "client_view ?c q cm m" by (auto simp: client_inv_def)
  obtain res f where d: "Decode s zero_frame = (res, f)" by fastforce
  have "\<exists>r c'. Poll ?c = Some (r, c') \<and> inbox c' = rest \<and>
      r = (case slot_events (c_slotSize ?c) s of [] \<Rightarrow> NoEvent | ev # _ \<Rightarrow> Polled ev)"
  proof (cases "res = OK")
    case True
    then have ok: "Decode s zero_frame = (OK, f)" using d by simp
    then have "unat (PayloadRef f) + unat (PayloadLen f) < 2 ^ 64" using l i by auto
    from Poll_good [OF v st(2) i ok _ this] l view_pending(2) [OF v i] show ?thesis
      by (simp add: slot_events_def ok delivered_def)
  next
    case False
    from Poll_bad [OF v st(2) i d False] show ?thesis using d False by (auto simp: slot_events_def)
  qed
  then obtain r c' where p: "Poll ?c = Some (r, c')" and ib: "inbox c' = rest" and
    r: "r = (case slot_events (c_slotSize ?c) s of [] \<Rightarrow> NoEvent | ev # _ \<Rightarrow> Polled ev)" by blast
  let ?w = "w\<lparr>cw_client := c'\<rparr>"
  have op: "op_Poll client_ops w = Some (r, ?w)" using p by (simp add: client_ops_def on_client_def)
  have steady: "cw_steady ?w" using on_client_Poll(3) [OF st(3) op] l by blast
  have shape: "same_shape ?c c'" using Poll_keeps [OF st(1) p] by blast
  have slot: "in_slot c' = in_slot ?c"
  proof -
    have "qp c' = qp ?c" using p by (auto simp: Poll_def Let_def split: bool.splits if_splits option.splits prod.splits)
    then show ?thesis by (simp add: in_slot_def)
  qed
  have "cw_listening ?w"
    using l steady shape slot ib i by (simp add: cw_listening_def same_shape_def)
  then show ?thesis using op r ib shape by (auto simp: same_shape_def)
qed

lemma listening_Poll_empty:
  assumes "cw_listening w" and i: "inbox (cw_client w) = []"
  shows "\<exists>w'. op_Poll client_ops w = Some (NoEvent, w') \<and> cw_sent w' = cw_sent w \<and> cw_host w' = cw_host w \<and>
    cw_turn w' = cw_turn w \<and> cw_listening w' \<and> inbox (cw_client w') = []"
proof -
  let ?c = "cw_client w"
  have st: "client_inv ?c" "epoch_current ?c" "cw_inv w" "cw_steady w"
    using assms(1) by (simp_all add: cw_listening_def cw_steady_def cw_inv_def)
  from st(1) obtain q cm m where v: "client_view ?c q cm m" by (auto simp: client_inv_def)
  let ?w = "w\<lparr>cw_client := settle ?c q m\<rparr>"
  have op: "op_Poll client_ops w = Some (NoEvent, ?w)"
    using Poll_empty [OF v st(2) i] by (simp add: client_ops_def on_client_def)
  have "cw_listening ?w"
    using on_client_Poll(3) [OF st(3) op st(4)] assms(1) view_settle(3) [OF v] i by (simp add: cw_listening_def)
  then show ?thesis using op on_client_Poll(2) [OF st(3) op] view_settle(3) [OF v] i by simp
qed

interpretation listenp: event_source client_ops cw_listening cw_incoming
  "\<lambda>w. length (inbox (cw_client w))"
proof
  fix w ev evs
  assume l: "cw_listening w" and i: "cw_incoming w = ev # evs"
  then obtain s rest where ib: "inbox (cw_client w) = s # rest" by (cases "inbox (cw_client w)") (auto simp: cw_incoming_def)
  from listening_Poll [OF l ib] obtain w' where
    p: "op_Poll client_ops w = Some ((case slot_events (c_slotSize (cw_client w)) s of
      [] \<Rightarrow> NoEvent | ev # _ \<Rightarrow> Polled ev), w')" and w': "cw_listening w'" "inbox (cw_client w') = rest"
      "c_slotSize (cw_client w') = c_slotSize (cw_client w)" by blast
  have inc: "cw_incoming w = slot_events (c_slotSize (cw_client w)) s @ cw_incoming w'"
    by (simp add: cw_incoming_def ib w')
  show "(\<exists>w'. op_Poll client_ops w = Some (Polled ev, w') \<and> cw_listening w' \<and> cw_incoming w' = evs) \<or>
      (\<exists>w'. op_Poll client_ops w = Some (NoEvent, w') \<and> \<not> op_done client_ops w' \<and>
        cw_listening (op_sleep client_ops w') \<and> cw_incoming (op_sleep client_ops w') = cw_incoming w \<and>
        length (inbox (cw_client (op_sleep client_ops w'))) < length (inbox (cw_client w)))"
  proof (cases "slot_events (c_slotSize (cw_client w)) s")
    case Nil
    note sl = listening_sleep [OF w'(1)]
    have "\<not> op_done client_ops w'" using w'(1) by (simp add: client_ops_def cw_listening_def cw_steady_def)
    moreover have "cw_incoming (op_sleep client_ops w') = cw_incoming w"
      using inc Nil sl by (simp add: cw_incoming_def)
    ultimately show ?thesis using p Nil sl ib w' by auto
  next
    case (Cons e es)
    then have "es = []" by (auto simp: slot_events_def Let_def split: if_splits prod.splits)
    with Cons inc i p w' show ?thesis by auto
  qed
qed

section \<open>Reassembling a result\<close>

definition event_matches :: "outgoing \<Rightarrow> event \<Rightarrow> bool" where
  \<comment> \<open>the event is the frame as the host delivers it to the caller\<close>
  "event_matches out ev \<longleftrightarrow>
     (HdrFlags (Frame ev), EventKind (Frame ev), CorrelationID (Frame ev), Payload ev) = out"

definition reply_outcome :: "u16 \<Rightarrow> byte list \<Rightarrow> bus_error + byte list" where
  \<comment> \<open>what a caller is to learn of a result\<close>
  "reply_outcome status body =
    (case reply_content status body of (st, b) \<Rightarrow>
       if st = ModuleStatusOK then Inr b else Inl (ErrModuleCallStatus st))"

lemma caller_event_part:
  assumes "event_matches (result_frame kind corr stageID traceID status (p, m)) ev"
    and "kind \<noteq> KindCapabilityAbsent" "kind \<noteq> KindError" "stageID \<noteq> 0" "validModuleStatus status"
    and "length p \<le> 2 ^ 24" "length body + length p \<le> unat limit"
  shows "caller_event limit kind corr body ev =
    (if status \<noteq> ModuleStatusOK then Finished (Inl (ErrModuleCallStatus status))
     else if m then Waiting (body @ p) else Finished (Inr (body @ p)))"
proof -
  define msg where "msg = result_message status stageID traceID (length p)"
  have len: "unat (BodyLen msg) = length p" using assms(6) by (simp add: msg_def result_message_def unat_of_nat)
  have f: "HdrFlags (Frame ev) = (reply_flags m OR FInline)" "EventKind (Frame ev) = kind"
    "CorrelationID (Frame ev) = corr" "Payload ev = message_bytes msg @ p"
    using assms(1) by (auto simp: event_matches_def result_frame_def outgoing_def msg_def)
  have dec: "DecodeModuleMessage (Payload ev) = Inr msg"
    unfolding f(4) using len result_message_valid [OF assms(4,5,6), of traceID, folded msg_def]
    by (intro DecodeModuleMessage_bytes) simp_all
  have more: "HdrFlags (Frame ev) AND FMore \<noteq> 0 \<longleftrightarrow> m" by (simp add: f(1) reply_flags_def)
  have "unat limit < 2 ^ 32" using unsigned_less [of limit, where ?'a = nat] by simp
  then have "unat (word_of_nat (length body) + BodyLen msg) = length body + length p"
    using assms(7) len by (simp add: unat_word_ariths unat_of_nat)
  then have "\<not> word_of_nat (length body) + BodyLen msg > limit"
    using assms(7) by (simp add: word_less_nat_alt)
  moreover have "slice (Payload ev) ModuleMessageHeaderLen (unat (BodyLen msg)) = p"
    by (simp add: f(4) len slice_def)
  moreover have "ModuleMessageHeaderLen + unat (BodyLen msg) = length (Payload ev)" by (simp add: f(4) len)
  moreover have "Operation msg = ModuleOpResult" "Status msg = status" by (simp_all add: msg_def result_message_def)
  ultimately show ?thesis
    using assms(2,3) dec more by (simp add: caller_event_def Let_def f(2,3))
qed

lemma caller_event_other:
  "CorrelationID (Frame ev) \<noteq> corr \<Longrightarrow> caller_event limit kind corr body ev = Waiting body"
  by (simp add: caller_event_def Let_def)

lemma consume_parts:
  assumes "kind \<noteq> KindCapabilityAbsent" "kind \<noteq> KindError" "stageID \<noteq> 0"
    and "filter (\<lambda>ev. CorrelationID (Frame ev) = corr) evs = es @ rest"
    and "list_all2 event_matches (map (result_frame kind corr stageID traceID ModuleStatusOK)
      (map (\<lambda>q. (q, True)) ps @ [(p, False)])) es"
    and "length body + length (concat ps) + length p \<le> unat limit"
    and "\<forall>q \<in> set (p # ps). length q \<le> 2 ^ 24"
  shows "consume limit kind corr body evs = Finished (Inr (body @ concat ps @ p))"
  using assms(4-7)
proof (induction evs arbitrary: es ps body)
  case Nil
  then show ?case by simp
next
  case (Cons ev evs)
  show ?case
  proof (cases "CorrelationID (Frame ev) = corr")
    case False
    with Cons show ?thesis by (simp add: caller_event_other)
  next
    case True
    obtain e es' where es: "es = e # es'" using Cons.prems(2) by (cases es) auto
    with Cons.prems(1) True have e: "e = ev" and f: "filter (\<lambda>ev. CorrelationID (Frame ev) = corr) evs = es' @ rest"
      by simp_all
    have valid: "validModuleStatus ModuleStatusOK" by (simp add: validModuleStatus_def)
    note part = caller_event_part [OF _ assms(1-3) valid]
    show ?thesis
    proof (cases ps)
      case Nil
      with Cons.prems part [of corr traceID p False ev body limit] es e show ?thesis by simp
    next
      case (Cons q qs)
      with Cons.prems part [of corr traceID q True ev body limit] es e
      have "caller_event limit kind corr body ev = Waiting (body @ q)" by simp
      moreover have "consume limit kind corr (body @ q) evs = Finished (Inr ((body @ q) @ concat qs @ p))"
        by (rule Cons.IH [OF f]) (use Cons.prems Cons es in auto)
      ultimately show ?thesis using Cons by simp
    qed
  qed
qed

lemma consume_result:
  assumes "kind \<noteq> KindCapabilityAbsent" "kind \<noteq> KindError" "stageID \<noteq> 0" "0 < cap"
    and "reply_content status body = (st, b)"
    and "filter (\<lambda>ev. CorrelationID (Frame ev) = corr) evs = es @ rest"
    and "list_all2 event_matches (result_fragments kind corr stageID traceID st b cap) es"
  shows "consume ModuleMessageMaxBody kind corr [] evs = Finished (reply_outcome status body)"
proof -
  note c = reply_content_facts [OF assms(5)]
  obtain ps p where fs: "fragments cap b = map (\<lambda>q. (q, True)) ps @ [(p, False)]"
    using fragments_more by blast
  then have b: "b = concat ps @ p" using fragments_concat [of cap b] by (simp add: comp_def)
  have small: "length q \<le> 2 ^ 24" if "q \<in> set (p # ps)" for q
    using fragments_bounds [OF assms(4), of q _ b] that fs c(2) by (fastforce simp: fs)
  have limit: "length b \<le> unat ModuleMessageMaxBody" using c(2) by simp
  show ?thesis
  proof (cases "st = ModuleStatusOK")
    case True
    then show ?thesis
      using consume_parts [OF assms(1-3,6), where ps = ps and p = p and traceID = traceID and body = "[]"
          and limit = ModuleMessageMaxBody] assms(5,7) fs b small limit
      by (simp add: reply_outcome_def result_fragments_def del: ModuleMessageMaxBody_def)
  next
    case False
    then have "b = []" using assms(5) by (auto simp: reply_content_def split: if_splits)
    then have one: "result_fragments kind corr stageID traceID st b cap = [result_frame kind corr stageID traceID st ([], False)]"
      by (simp add: result_fragments_def fragments.simps)
    then obtain e where es: "es = [e]" "event_matches (result_frame kind corr stageID traceID st ([], False)) e"
      using assms(7) by (cases es) (auto simp: list_all2_Cons1)
    have "consume ModuleMessageMaxBody kind corr [] evs = Finished (Inl (ErrModuleCallStatus st))"
      using assms(6)
    proof (induction evs)
      case (Cons ev evs)
      show ?case
      proof (cases "CorrelationID (Frame ev) = corr")
        case True
        then show ?thesis
          using Cons.prems es caller_event_part [OF _ assms(1-3) c(1), of corr traceID "[]" False ev "[]"] False
          by simp
      qed (use Cons in \<open>simp add: caller_event_other\<close>)
    qed (use es in simp)
    then show ?thesis using False assms(5) by (simp add: reply_outcome_def)
  qed
qed

lemma await_result:
  assumes "cw_listening w" and "kind \<noteq> KindCapabilityAbsent" and "kind \<noteq> KindError"
    and "stageID \<noteq> 0" and "0 < cap"
    and "filter (\<lambda>ev. CorrelationID (Frame ev) = corr) (cw_incoming w) = es @ rest"
    and "list_all2 event_matches (result_fragments kind corr stageID traceID
      (fst (reply_content status body)) (snd (reply_content status body)) cap) es"
  shows "\<exists>w'. awaitReply client_ops ModuleMessageMaxBody kind corr None [] w =
    Some (reply_outcome status body, w')"
  using listenp.await_consume [OF assms(1) consume_result [OF assms(2-5) _ assms(6)]] assms(7)
  by (metis prod.collapse)

section \<open>Properties of a call\<close>

text \<open>
  C11. A result is put together again. If, among what the client has received and not yet read,
  the frames of the call's correlation start with the frames \<open>replyModuleResult\<close> sends for a
  result, however cut and however interleaved with other traffic, \<open>awaitReply\<close> returns the
  body of that result, or its failure status.
\<close>

theorem await_reassembles:
  assumes "cw_listening w" and "kind \<noteq> KindCapabilityAbsent" and "kind \<noteq> KindError"
    and "stageID \<noteq> 0" and "0 < cap"
    and "filter (\<lambda>ev. CorrelationID (Frame ev) = corr) (cw_incoming w) = es @ rest"
    and "list_all2 event_matches (result_fragments kind corr stageID traceID
      (fst (reply_content status body)) (snd (reply_content status body)) cap) es"
  shows "\<exists>w'. awaitReply client_ops ModuleMessageMaxBody kind corr None [] w =
    Some (reply_outcome status body, w')"
  by (rule await_result [OF assms])

lemma slot_events_sent:
  assumes "send_flags flags corr p" and "p \<noteq> []" and "HdrLen + length p \<le> length sl"
    and "HdrLen + length p \<le> unat slotSize" and "length p \<le> 2 ^ 20"
  shows "slot_events slotSize (sent_slot (emit_frame c flags kind corr p) p sl) =
      [\<lparr>Frame = emit_frame c flags kind corr p, Payload = p\<rparr>]"
    and "Decode (sent_slot (emit_frame c flags kind corr p) p sl) zero_frame = (OK, emit_frame c flags kind corr p)"
    and "unat (PayloadRef (emit_frame c flags kind corr p)) + unat (PayloadLen (emit_frame c flags kind corr p)) < 2 ^ 64"
proof -
  let ?f = "emit_frame c flags kind corr p"
  have len: "unat (PayloadLen ?f) = length p" "unat (PayloadRef ?f) = HdrLen"
    using payload_len_word [OF assms(5)] assms(2) by (simp_all add: emit_frame_fields)
  then show nowrap: "unat (PayloadRef ?f) + unat (PayloadLen ?f) < 2 ^ 64" using assms(5) by simp
  show dec: "Decode (sent_slot ?f p sl) zero_frame = (OK, ?f)"
    using assms by (intro sent_slot_decodes emit_frame_valid) simp_all
  have "unat (PayloadRef ?f + ucast (PayloadLen ?f)) = HdrLen + length p"
    using nowrap len by (subst unat_add_no_wrap) simp_all
  then have "PayloadRef ?f + ucast (PayloadLen ?f) \<le> ucast slotSize"
    using assms(4) by (simp add: word_le_nat_alt)
  moreover have "HdrFlags ?f AND FInline \<noteq> 0"
    using assms(2) send_flags_inline [OF assms(1)] by (simp add: emit_frame_fields)
  moreover have "0 < PayloadLen ?f" using len(1) assms(2) by (simp add: word_less_nat_alt)
  moreover have "slice (sent_slot ?f p sl) HdrLen (length p) = p"
    using assms(3) by (simp add: sent_slot_eq layout_simps)
  ultimately show "slot_events slotSize (sent_slot ?f p sl) = [\<lparr>Frame = ?f, Payload = p\<rparr>]"
    by (simp add: slot_events_def dec len del: FInline_def)
qed

lemma world_with_inbox:
  assumes "sz \<noteq> 0" and "HdrLen + unat budget \<le> unat sz" "unat budget \<le> 2 ^ 20" and "length s = unat sz"
    and "\<forall>f. Decode s zero_frame = (OK, f) \<longrightarrow> unat (PayloadRef f) + unat (PayloadLen f) < 2 ^ 64"
  shows "\<exists>w. cw_listening w \<and> inbox (cw_client w) = [s] \<and> c_slotSize (cw_client w) = sz \<and>
    inlineBudget (cw_client w) = budget \<and> cw_host w = cw_host sample_world"
proof -
  from client_with_inbox [OF assms(1,4)] obtain c where c: "client_inv c" "epoch_current c" "inbox c = [s]"
    "c_slotSize c = sz" "in_slot c = unat sz" "out_slot c = unat sz" "inlineBudget c = budget" by blast
  let ?w = "sample_world\<lparr>cw_client := c\<rparr>"
  have "cw_listening ?w"
    using c assms sample_world_steady(1)
    by (simp add: cw_listening_def cw_steady_def cw_inv_def sample_world_def)
  then show ?thesis using c by (intro exI [of _ ?w]) simp
qed

theorem await_reassembles_witness:
  "\<exists>w w'. awaitReply client_ops ModuleMessageMaxBody 300 7 None [] w = Some (Inr [1, 2, 3], w')"
proof -
  let ?p = "message_bytes (result_message 0 1 9 (length [1, 2, 3 :: byte])) @ [1, 2, 3]"
  let ?f = "emit_frame (empty_client 128 40) FReply 300 7 ?p"
  let ?s = "sent_slot ?f ?p (replicate 128 0)"
  note ev = slot_events_sent [of FReply 7 ?p "replicate 128 0" 128 "empty_client 128 40" 300]
  have flags: "send_flags FReply 7 ?p" by (simp add: send_flags_def)
  have "length ?s = unat (128 :: u32)" by (simp add: length_sent_slot)
  from world_with_inbox [of 128 40, OF _ _ _ this] ev(2,3) flags obtain w where
    w: "cw_listening w" "inbox (cw_client w) = [?s]" "c_slotSize (cw_client w) = 128" by auto
  have inc: "cw_incoming w = [\<lparr>Frame = ?f, Payload = ?p\<rparr>]"
    using ev(1) flags w by (simp add: cw_incoming_def)
  have frags: "fragments 8 [1, 2, 3] = [([1, 2, 3], False)]" by (simp add: fragments.simps)
  have "\<exists>w'. awaitReply client_ops ModuleMessageMaxBody 300 7 None [] w = Some (reply_outcome ModuleStatusOK [1, 2, 3], w')"
    by (rule await_reassembles [OF w(1), where stageID = 1 and traceID = 9 and cap = 8
        and es = "[\<lparr>Frame = ?f, Payload = ?p\<rparr>]" and rest = "[]"])
      (simp_all add: inc reply_content_def validModuleStatus_def result_fragments_def frags result_frame_def
        event_matches_def outgoing_def emit_frame_fields reply_flags_def)
  then show ?thesis by (auto simp: reply_outcome_def reply_content_def validModuleStatus_def)
qed

lemma request_fragments_carry:
  assumes "ModuleMessageHeaderLen < budget"
  shows "carries (request_fragments kind corr stageID deadlineNS traceID request (budget - ModuleMessageHeaderLen))
    request budget"
  unfolding request_fragments_def
  by (rule carries_frames [OF assms, where fl = "\<lambda>m. request_flags m OR FInline" and
        hdr = "\<lambda>n. message_bytes (invoke_message stageID deadlineNS traceID n)"])
    (simp_all add: request_frame_def with_header_def outgoing_def request_flags_def)

text \<open>The three ways a call ends.\<close>

lemma Call_cases:
  assumes "Call ops kind stageID traceID deadline request m w = Some (res, m', w')"
    and "\<not> (word_of_nat (length request) :: u32) > ModuleMessageMaxBody"
  shows "\<exists>dl w1 e w2. (w1 = w \<or> (\<exists>now. op_clock ops w = (now, w1))) \<and>
    send ops kind stageID traceID (mc_correlation m + 1) dl request w1 = Some (e, w2) \<and>
    mc_correlation m' = mc_correlation m + 1 \<and>
    (case e of
       Some err \<Rightarrow> res = Inl err \<and> w' = w2
     | None \<Rightarrow> \<exists>expiry w3.
         awaitReply ops (mc_responseLimit m) kind (mc_correlation m + 1) expiry [] w2 = Some (res, w3) \<and>
         (case res of Inr _ \<Rightarrow> w' = w3
          | Inl _ \<Rightarrow> \<exists>c. op_Cancel ops kind (mc_correlation m + 1) w3 = Some (c, w')))"
proof -
  let ?corr = "mc_correlation m + 1"
  define dw where "dw = (if deadline > 0
    then (case op_clock ops w of (now, w) \<Rightarrow> (now + word_of_int deadline, w)) else (0, w))"
  obtain dl w1 where dw1: "dw = (dl, w1)" by fastforce
  have w1: "w1 = w \<or> (\<exists>now. op_clock ops w = (now, w1))"
    using dw1 by (auto simp: dw_def split: if_splits prod.splits)
  define ex where "ex w = (if deadline > 0 then Some (op_now ops w + deadline) else None)" for w
  define await where "await w = awaitReply ops (mc_responseLimit m) kind ?corr (ex w) [] w" for w
  have call: "(case send ops kind stageID traceID ?corr dl request w1 of
      None \<Rightarrow> None
    | Some (Some err, w2) \<Rightarrow> Some (Inl err, m\<lparr>mc_correlation := ?corr\<rparr>, w2)
    | Some (None, w2) \<Rightarrow>
        (case await w2 of
           None \<Rightarrow> None
         | Some (Inr body, w3) \<Rightarrow> Some (Inr body, m\<lparr>mc_correlation := ?corr\<rparr>, w3)
         | Some (Inl err, w3) \<Rightarrow>
             (case op_Cancel ops kind ?corr w3 of
                None \<Rightarrow> None | Some (_, w4) \<Rightarrow> Some (Inl err, m\<lparr>mc_correlation := ?corr\<rparr>, w4)))) =
      Some (res, m', w')"
    using assms dw1 unfolding Call_def Let_def dw_def [symmetric] ex_def [symmetric]
    by (auto simp: await_def split: option.splits prod.splits sum.splits bind_splits)
  then obtain e w2 where send: "send ops kind stageID traceID ?corr dl request w1 = Some (e, w2)"
    by (auto split: option.splits)
  show ?thesis
  proof (cases e)
    case (Some err)
    then show ?thesis using call send w1 by (intro exI [of _ dl] exI [of _ w1]) auto
  next
    case None
    with call send obtain r w3 where a: "await w2 = Some (r, w3)" by (auto split: option.splits)
    with None call send have "(case r of Inr _ \<Rightarrow> w' = w3 | Inl _ \<Rightarrow> \<exists>c. op_Cancel ops kind ?corr w3 = Some (c, w')) \<and>
        res = r \<and> mc_correlation m' = ?corr"
      by (auto split: sum.splits option.splits)
    then show ?thesis using None send a w1 unfolding await_def
      by (intro exI [of _ dl] exI [of _ w1] exI [of _ e] exI [of _ w2]) auto
  qed
qed

text \<open>What \<open>send\<close> does on the real client: a prefix of the fragments, all of them on success.\<close>

lemma client_send_sends:
  assumes "cw_inv w" and "stageID \<noteq> 0" and "length request \<le> 2 ^ 24"
    and "ModuleMessageHeaderLen < unat (inlineBudget (cw_client w))"
    and "send client_ops kind stageID traceID corr dl request w = Some (e, w')"
    and "frames = request_fragments kind corr stageID dl traceID request
      (unat (inlineBudget (cw_client w)) - ModuleMessageHeaderLen)"
  shows "cw_inv w' \<and> (\<exists>n. cw_sent w' = cw_sent w @ take n frames \<and>
    (if e = None then n = length frames else n < length frames))"
proof -
  let ?cap = "unat (inlineBudget (cw_client w)) - ModuleMessageHeaderLen"
  have len: "length frames = length (fragments ?cap request)" by (simp add: assms(6) request_fragments_def)
  have send: "send client_ops kind stageID traceID corr dl request w =
      request_parts client_ops kind corr (with_header (invoke_message stageID dl traceID)) (fragments ?cap request) w"
    using send_parts_eq [OF assms(2,3), of client_ops w] assms(4) by (simp add: client_ops_def)
  from clientp.request_parts_sends [OF assms(1), of kind corr "with_header (invoke_message stageID dl traceID)"
      "fragments ?cap request"] assms(5)
  show ?thesis unfolding send request_frames_enc assms(6) [symmetric] len by auto
qed

text \<open>
  C27. What a call puts on the bus. Whatever the host does, if \<open>Call\<close> returns, it has used the
  next correlation and sent a prefix, in order, of the fragments of the request; if it
  returned a body, exactly the whole request and no cancel; if it failed after the whole
  request was sent, at most one cancel for the same kind and correlation follows; and if the
  request was cut short, it failed and sent nothing more.
\<close>

theorem Call_on_the_bus:
  assumes "cw_inv w" and "stageID \<noteq> 0" and "length request \<le> 2 ^ 24"
    and "ModuleMessageHeaderLen < unat (inlineBudget (cw_client w))"
    and "Call client_ops kind stageID traceID deadline request m w = Some (res, m', w')"
  shows "\<exists>deadlineNS frames n tail.
    frames = request_fragments kind (mc_correlation m + 1) stageID deadlineNS traceID request
      (unat (inlineBudget (cw_client w)) - ModuleMessageHeaderLen) \<and>
    carries frames request (unat (inlineBudget (cw_client w))) \<and>
    mc_correlation m' = mc_correlation m + 1 \<and> cw_sent w' = cw_sent w @ take n frames @ tail \<and>
    (case res of
       Inr _ \<Rightarrow> n = length frames \<and> tail = []
     | Inl _ \<Rightarrow> (n < length frames \<and> tail = []) \<or>
         (n = length frames \<and> tail \<in> {[], [outgoing FCancel kind (mc_correlation m + 1) []]}))"
proof -
  let ?corr = "mc_correlation m + 1" and ?cap = "unat (inlineBudget (cw_client w)) - ModuleMessageHeaderLen"
  have small: "\<not> (word_of_nat (length request) :: u32) > ModuleMessageMaxBody"
    using assms(3) by (simp add: word_less_nat_alt unat_of_nat)
  from Call_cases [OF assms(5) small] obtain dl w1 e w2 where
    w1: "w1 = w \<or> (\<exists>now. op_clock client_ops w = (now, w1))" and
    r: "send client_ops kind stageID traceID ?corr dl request w1 = Some (e, w2)" and
    m': "mc_correlation m' = ?corr" and
    e: "case e of Some err \<Rightarrow> res = Inl err \<and> w' = w2
     | None \<Rightarrow> \<exists>expiry w3. awaitReply client_ops (mc_responseLimit m) kind ?corr expiry [] w2 = Some (res, w3) \<and>
         (case res of Inr _ \<Rightarrow> w' = w3 | Inl _ \<Rightarrow> \<exists>c. op_Cancel client_ops kind ?corr w3 = Some (c, w'))" by blast
  have w1: "w1 = w" using w1 by (auto simp: client_ops_def)
  let ?frames = "request_fragments kind ?corr stageID dl traceID request ?cap"
  from client_send_sends [OF assms(1-4) r [unfolded w1] refl] obtain n where i2: "cw_inv w2"
    and s2: "cw_sent w2 = cw_sent w @ take n ?frames"
    and n: "if e = None then n = length ?frames else n < length ?frames" by blast
  have "\<exists>tail. cw_sent w' = cw_sent w @ take n ?frames @ tail \<and>
    (case res of
       Inr _ \<Rightarrow> n = length ?frames \<and> tail = []
     | Inl _ \<Rightarrow> (n < length ?frames \<and> tail = []) \<or>
         (n = length ?frames \<and> tail \<in> {[], [outgoing FCancel kind ?corr []]}))"
  proof (cases e)
    case (Some err)
    then show ?thesis using e s2 n by simp
  next
    case None
    with e obtain expiry w3 where a: "awaitReply client_ops (mc_responseLimit m) kind ?corr expiry [] w2 = Some (res, w3)" and
      c: "case res of Inr _ \<Rightarrow> w' = w3 | Inl _ \<Rightarrow> \<exists>c. op_Cancel client_ops kind ?corr w3 = Some (c, w')" by auto
    from clientp.awaitReply_inv [OF a refl i2] have i3: "cw_inv w3" "cw_sent w3 = cw_sent w @ ?frames"
      using s2 n None by simp_all
    show ?thesis
      using c clientp.cancel_law [OF i3(1), of kind ?corr] i3(2) n None
      by (cases res) (auto split: if_splits)
  qed
  then show ?thesis using request_fragments_carry [OF assms(4)] m' by blast
qed

text \<open>How many frames the outbound ring has room for.\<close>

definition ring_room :: "client_world \<Rightarrow> nat" where
  "ring_room w = out_capacity (cw_client w) - length (outbox (cw_client w))"

lemma request_room:
  assumes st: "cw_steady w" and "corr \<noteq> 0" and "p \<noteq> []" and len: "length p \<le> unat (inlineBudget (cw_client w))"
  shows "if ring_room w = 0 then op_RequestFragment client_ops kind corr p m w = Some (Some ErrWouldBlock, w)
    else \<exists>w'. op_RequestFragment client_ops kind corr p m w = Some (None, w') \<and> cw_steady w' \<and>
      ring_room w' = ring_room w - 1 \<and> inlineBudget (cw_client w') = inlineBudget (cw_client w) \<and>
      cw_sent w' = cw_sent w @ [outgoing (request_flags m) kind corr p]"
proof -
  let ?c = "cw_client w"
  have inv: "cw_inv w" "client_inv ?c" "epoch_current ?c" using st by (simp_all add: cw_steady_def cw_inv_def)
  then obtain q cm mem where v: "client_view ?c q cm mem" by (auto simp: client_inv_def)
  have "length (outbox ?c) \<le> out_capacity ?c"
    using v view_sizes [OF v] by (simp add: client_view_def ring_inv_def length_ring_abs)
  then have room: "ring_room w = 0 \<longleftrightarrow> length (outbox ?c) = out_capacity ?c" by (auto simp: ring_room_def)
  have op: "op_RequestFragment client_ops kind corr p m w =
      on_client (\<lambda>c. if corr = 0 \<or> m \<and> p = [] then Some (Some ErrProtocol, c)
        else emit c (request_flags m) kind corr p) w"
    by (simp add: client_op_shapes)
  have flags: "send_flags (request_flags m) corr p" using assms(2,3) by (simp add: send_flags_def request_flags_def)
  obtain e w' where r: "op_RequestFragment client_ops kind corr p m w = Some (e, w')" and st': "cw_steady w'" and
    sent: "cw_sent w' = cw_sent w @ (if e = None then [outgoing (request_flags m) kind corr p] else [])" and
    ew: "e \<noteq> None \<longrightarrow> w' = w"
    using steadyp.request_law [OF st] by blast
  note on = on_client_steady [OF st r [unfolded op]]
  have e: "e = None \<or> e = Some ErrWouldBlock" using on(3) assms(2,3) flags len by blast
  have full: "e = Some ErrWouldBlock \<longleftrightarrow> ring_room w = 0"
    using r emit_eq [OF v inv(3), of "request_flags m" kind corr p] e room assms(2,3)
    unfolding op by (auto simp: on_client_def Let_def split: if_splits)
  show ?thesis
  proof (cases "ring_room w = 0")
    case True
    then show ?thesis using full r ew by simp
  next
    case False
    with full e have e: "e = None" by simp
    obtain c' where c': "emit ?c (request_flags m) kind corr p = Some (None, c')" "w' = w\<lparr>cw_client := c'\<rparr>"
      using r e assms(2,3) unfolding op by (auto simp: on_client_def)
    have "length (cw_sent w') = Suc (length (cw_sent w))" using sent e by simp
    then have "length (outbox c') = Suc (length (outbox ?c))" by (simp add: cw_sent_def c'(2))
    moreover have "out_capacity c' = out_capacity ?c" using emit_sends [OF v inv(3) c'(1)] by auto
    ultimately have "ring_room w' = ring_room w - 1" by (simp add: ring_room_def c'(2))
    then show ?thesis using r e st' sent on(2) False by simp
  qed
qed

lemma request_parts_blocked:
  assumes "cw_steady w" and "corr \<noteq> 0" and "ring_room w < length fs"
    and "\<forall>f \<in> set fs. enc (fst f) \<noteq> [] \<and> length (enc (fst f)) \<le> unat (inlineBudget (cw_client w))"
  shows "\<exists>w'. request_parts client_ops kind corr enc fs w = Some (Some ErrWouldBlock, w') \<and>
    cw_sent w' = cw_sent w @ take (ring_room w)
      (map (\<lambda>f. outgoing (request_flags (snd f)) kind corr (enc (fst f))) fs)"
  using assms(1,3,4)
proof (induction fs arbitrary: w)
  case (Cons f fs)
  have "enc (fst f) \<noteq> []" "length (enc (fst f)) \<le> unat (inlineBudget (cw_client w))"
    using Cons.prems(3) by simp_all
  note room = request_room [OF Cons.prems(1) assms(2) this, of kind "snd f"]
  show ?case
  proof (cases "ring_room w = 0")
    case True
    then show ?thesis using room by simp
  next
    case False
    with room obtain w1 where w1: "op_RequestFragment client_ops kind corr (enc (fst f)) (snd f) w = Some (None, w1)"
      "cw_steady w1" "ring_room w1 = ring_room w - 1" "inlineBudget (cw_client w1) = inlineBudget (cw_client w)"
      "cw_sent w1 = cw_sent w @ [outgoing (request_flags (snd f)) kind corr (enc (fst f))]" by auto
    moreover have "ring_room w1 < length fs" using w1(3) Cons.prems(2) False by simp
    ultimately obtain w' where
      "request_parts client_ops kind corr enc fs w1 = Some (Some ErrWouldBlock, w')"
      "cw_sent w' = cw_sent w1 @ take (ring_room w - 1)
        (map (\<lambda>f. outgoing (request_flags (snd f)) kind corr (enc (fst f))) fs)"
      using Cons.IH [OF w1(2)] Cons.prems(3) by auto
    then show ?thesis using w1 False by (auto simp: take_Cons')
  qed
qed simp

text \<open>
  C40. \<open>send\<close> does not wait for room, unlike the serving side. A request that needs more frames
  than the ring has room for, when the host takes none meanwhile, makes \<open>Call\<close> fail with
  \<open>ErrWouldBlock\<close> after publishing as many fragments as fit; no cancel follows, so the module
  is left with an assembly that nothing will complete or drop.
\<close>

theorem Call_abandons_request:
  assumes "cw_steady w" and "stageID \<noteq> 0" and "length request \<le> 2 ^ 24" and "mc_correlation m + 1 \<noteq> 0"
    and "ModuleMessageHeaderLen < unat (inlineBudget (cw_client w))"
    and "ring_room w < length (fragments (unat (inlineBudget (cw_client w)) - ModuleMessageHeaderLen) request)"
  shows "\<exists>deadlineNS w'. Call client_ops kind stageID traceID deadline request m w =
      Some (Inl ErrWouldBlock, m\<lparr>mc_correlation := mc_correlation m + 1\<rparr>, w') \<and>
    cw_sent w' = cw_sent w @ take (ring_room w)
      (request_fragments kind (mc_correlation m + 1) stageID deadlineNS traceID request
        (unat (inlineBudget (cw_client w)) - ModuleMessageHeaderLen))"
proof -
  let ?corr = "mc_correlation m + 1" and ?cap = "unat (inlineBudget (cw_client w)) - ModuleMessageHeaderLen"
  define dl where "dl = (if deadline > 0 then fst (op_clock client_ops w) + word_of_int deadline else 0)"
  let ?enc = "with_header (invoke_message stageID dl traceID)"
  have "?enc (fst f) \<noteq> [] \<and> length (?enc (fst f)) \<le> unat (inlineBudget (cw_client w))"
    if "f \<in> set (fragments ?cap request)" for f
  proof -
    have "length (fst f) \<le> ?cap" using fragments_bounds [of ?cap "fst f" "snd f" request] that assms(5) by simp
    then have "ModuleMessageHeaderLen + length (fst f) \<le> unat (inlineBudget (cw_client w))"
      using assms(5) by linarith
    then show ?thesis by (simp add: with_header_def)
  qed
  then obtain w' where w': "request_parts client_ops kind ?corr ?enc (fragments ?cap request) w = Some (Some ErrWouldBlock, w')"
    and s: "cw_sent w' = cw_sent w @ take (ring_room w) (request_fragments kind ?corr stageID dl traceID request ?cap)"
    using request_parts_blocked [OF assms(1,4,6), of ?enc kind] unfolding request_frames_enc by blast
  have "send client_ops kind stageID traceID ?corr dl request w = Some (Some ErrWouldBlock, w')"
    using send_parts_eq [OF assms(2,3), of client_ops w] assms(5) w' by (simp add: client_ops_def)
  moreover have "\<not> (word_of_nat (length request) :: u32) > ModuleMessageMaxBody"
    using assms(3) by (simp add: word_less_nat_alt unat_of_nat)
  moreover have "op_clock client_ops w = (fst (op_clock client_ops w), w)" by (simp add: client_ops_def)
  ultimately have "Call client_ops kind stageID traceID deadline request m w =
      Some (Inl ErrWouldBlock, m\<lparr>mc_correlation := ?corr\<rparr>, w')"
    by (cases "deadline > 0") (auto simp: Call_def dl_def Let_def split: prod.splits)
  then show ?thesis using s by blast
qed

lemma sample_room: "ring_room sample_world = 8"
proof -
  have "outbox (empty_client 128 48) = []" using empty_client_view [of 128 48] by auto
  then show ?thesis by (simp add: ring_room_def sample_world_def)
qed

lemma sample_request: "length (fragments 8 (replicate 72 0)) = 9"
  by (simp add: fragments.simps)

theorem Call_abandons_request_witness:
  "\<exists>w'. Call client_ops 300 1 9 0 (replicate 72 0) newModuleCaller sample_world =
      Some (Inl ErrWouldBlock, \<lparr>mc_correlation = 1, mc_responseLimit = ModuleMessageMaxBody\<rparr>, w') \<and>
    length (cw_sent w') = 8"
  using Call_abandons_request [OF sample_world_steady(1), of 1 "replicate 72 0" newModuleCaller 300 9 0] sample_request
  by (auto simp: newModuleCaller_def sample_world_steady sample_room request_fragments_def)

theorem Call_on_the_bus_witness:
  "\<exists>w' n tail. Call client_ops 300 1 9 0 [1, 2] (newModuleCaller\<lparr>mc_correlation := - 1\<rparr>) sample_world =
      Some (Inl ErrProtocol, newModuleCaller\<lparr>mc_correlation := 0\<rparr>, w') \<and> n = 0 \<and>
    cw_sent w' = take n (request_fragments 300 0 1 0 9 [1, 2] 8) @ tail \<and> tail = []"
proof -
  have inv: "cw_inv sample_world" and b: "unat (inlineBudget (cw_client sample_world)) = 48"
    using sample_world_steady by (simp_all add: cw_steady_def)
  let ?m = "newModuleCaller\<lparr>mc_correlation := - 1\<rparr>"
  have "send client_ops 300 1 9 0 0 [1, 2] sample_world =
      request_parts client_ops 300 0 (with_header (invoke_message 1 0 9)) (fragments 8 [1, 2]) sample_world"
    using send_parts_eq [of 1 "[1, 2]" client_ops sample_world 300 9 0 0] b by (simp add: client_ops_def)
  moreover have "fragments 8 [1, 2] = [([1, 2], False)]" by (simp add: fragments.simps)
  ultimately have "send client_ops 300 1 9 0 0 [1, 2] sample_world = Some (Some ErrProtocol, sample_world)"
    by (simp add: client_op_shapes on_client_def)
  then have c: "Call client_ops 300 1 9 0 [1, 2] ?m sample_world =
      Some (Inl ErrProtocol, newModuleCaller\<lparr>mc_correlation := 0\<rparr>, sample_world)"
    by (simp add: Call_def Let_def newModuleCaller_def)
  from Call_on_the_bus [OF inv _ _ _ c] b show ?thesis using c sample_world_steady(2)
    by (auto simp: newModuleCaller_def)
qed

text \<open>
  C34. A call with a deadline ends, when the bus is quiet. If nothing is left to read and the
  clock eventually passes the expiry, \<open>awaitReply\<close> returns, with \<open>ErrModuleCallDeadline\<close>.
\<close>

theorem await_deadline:
  assumes "cw_listening w" and "inbox (cw_client w) = []"
    and "\<exists>j. t < int (unat (hm_clock (cw_host w (cw_turn w + j))))"
  shows "\<exists>w'. awaitReply client_ops limit kind corr (Some t) body w = Some (Inl ErrModuleCallDeadline, w') \<and>
    cw_sent w' = cw_sent w"
proof -
  from assms(3) obtain j where "t < int (unat (hm_clock (cw_host w (cw_turn w + j))))" by blast
  with assms(1,2) show ?thesis
  proof (induction j arbitrary: w)
    case (0 w)
    from listening_Poll_empty [OF 0(1,2)] obtain w1 where
      p: "op_Poll client_ops w = Some (NoEvent, w1)" "cw_sent w1 = cw_sent w" "cw_host w1 = cw_host w" "cw_turn w1 = cw_turn w"
      and l: "cw_listening w1" by blast
    then have "op_now client_ops w1 > t" "\<not> op_done client_ops w1"
      using 0(3) by (simp_all add: client_ops_def cw_listening_def cw_steady_def)
    then show ?case using p by (subst awaitReply.simps) simp
  next
    case (Suc j)
    from listening_Poll_empty [OF Suc.prems(1,2)] obtain w1 where
      p: "op_Poll client_ops w = Some (NoEvent, w1)" "cw_sent w1 = cw_sent w" "cw_host w1 = cw_host w" "cw_turn w1 = cw_turn w"
      and l: "cw_listening w1" and i: "inbox (cw_client w1) = []" by blast
    let ?s = "op_sleep client_ops w1"
    have host: "cw_host ?s = cw_host w" "cw_turn ?s = cw_turn w + 1"
      using p by (simp_all add: client_ops_def client_wait_def Let_def split: prod.splits)
    have sent: "cw_sent ?s = cw_sent w"
      using steadyp.sleep_law [of w1] l p by (simp add: cw_listening_def)
    from Suc.IH [of ?s] listening_sleep [OF l] i Suc.prems(3) host sent obtain w' where
      "awaitReply client_ops limit kind corr (Some t) body ?s = Some (Inl ErrModuleCallDeadline, w')"
      "cw_sent w' = cw_sent w" by auto
    moreover have "\<not> op_done client_ops w1" using l by (simp add: client_ops_def cw_listening_def cw_steady_def)
    ultimately show ?case using p by (subst awaitReply.simps) auto
  qed
qed

theorem await_deadline_witness:
  "\<exists>w'. awaitReply client_ops 100 300 7 (Some 4) [] sample_world = Some (Inl ErrModuleCallDeadline, w') \<and>
    cw_sent w' = []"
proof -
  have i: "inbox (cw_client sample_world) = []"
    using empty_client_view [of 128 48] by (auto simp: sample_world_def)
  then have "cw_listening sample_world"
    using sample_world_steady(1) by (simp add: cw_listening_def) (simp add: sample_world_def)
  from await_deadline [OF this i] sample_world_steady(2) show ?thesis by (simp add: sample_world_def)
qed

text \<open>
  C39. The deadline and the context are looked at only when there is nothing to read. While
  every poll hands out an event of another correlation, \<open>awaitReply\<close> does not return, whatever
  the expiry, the clock and the context.
\<close>

theorem awaitReply_starved:
  assumes "\<And>w. busy w \<Longrightarrow> \<exists>ev w'. op_Poll ops w = Some (Polled ev, w') \<and> busy w' \<and> CorrelationID (Frame ev) \<noteq> corr"
    and "busy w"
  shows "awaitReply ops limit kind corr expiry body w = None"
proof -
  have "False" if "awaitReply ops' limit kind corr' expiry body w = Some y" "ops' = ops" "corr' = corr" "busy w" for ops' corr' y
    using that
  proof (induction rule: awaitReply.raw_induct [rotated, consumes 1, case_names step])
    case (step await ops' limit kind corr' expiry body w y)
    from assms(1) [OF step(5)] obtain ev w' where p: "op_Poll ops w = Some (Polled ev, w')" "busy w'"
      "CorrelationID (Frame ev) \<noteq> corr" by blast
    from caller_event_other [OF p(3)] have "await ops limit kind corr expiry body w' = Some y"
      using step(2-4) p(1) by simp
    from step(1) [OF this refl refl p(2)] show ?case .
  qed
  then show ?thesis using assms(2) by (cases "awaitReply ops limit kind corr expiry body w") auto
qed

theorem awaitReply_starved_witness:
  "awaitReply (client_ops\<lparr>op_Poll := (\<lambda>w. Some (Polled \<lparr>Frame = ping_frame, Payload = []\<rparr>, w)), op_done := (\<lambda>w. True)\<rparr>)
    100 300 7 (Some 0) [] sample_world = None"
  by (rule awaitReply_starved [where busy = "\<lambda>_. True"]) (simp_all add: ping_frame_def zero_frame_def)

end
