(* ===== verification/Module_Runtime.thy ===== *)
theory Module_Runtime
  imports Module_Caller "HOL-Library.AList" "HOL-Library.Multiset"
begin

text \<open>
  The serving side of \<open>server-go/bus/module_runtime.go\<close>: configuration, the assembly of
  requests from fragments, the handler goroutines and the main loop.

  The loop is modelled as a step relation. A step of the main goroutine is one iteration of
  one of its inner loops: receiving one result from the channel \<open>done\<close>, one pass through the
  body (check the context and the epoch, heartbeat, poll, handle one event), or collecting
  one result while stopping. Between any two of them a handler goroutine may call its
  handler or deliver its result, and the host may act. The maps are association lists, a
  \<open>cancelFlag\<close> is an address in a store of flags, and the state of the handler (the files
  behind the learned store) is threaded through the calls.
\<close>

section \<open>Configuration\<close>

definition moduleMaxInFlight :: nat where [simp]: "moduleMaxInFlight = 16"

record module_stage =
  ms_EventKind :: u32
  ms_StageID :: u32

record module_invocation =
  inv_StageID :: u32
  inv_DeadlineNS :: u64
  inv_TraceID :: u64
  inv_cancelled :: "nat option"   \<comment> \<open>the address of the flag, \<open>None\<close> for nil\<close>

definition Cancelled :: "(nat \<Rightarrow> bool) \<Rightarrow> u64 \<Rightarrow> module_invocation \<Rightarrow> bool" where
  \<comment> \<open>\<open>i.Cancelled()\<close> with the flags set so far and the clock\<close>
  "Cancelled flags now i =
    (if (case inv_cancelled i of Some a \<Rightarrow> flags a | None \<Rightarrow> False) then True
     else now \<noteq> 0 \<and> inv_DeadlineNS i \<noteq> 0 \<and> now \<ge> inv_DeadlineNS i)"

text \<open>
  A handler sees the answer of \<open>Cancelled()\<close> once and changes its own state; \<open>None\<close> is a panic.
\<close>

type_synonym 'h module_handler =
  "module_invocation \<Rightarrow> bool \<Rightarrow> byte list \<Rightarrow> 'h \<Rightarrow> ((byte list \<times> u16) \<times> 'h) option"

record 'h module_config =
  SocketPath :: string
  ModuleName :: string
  PrincipalClass :: u32
  PrincipalRef :: u32
  Stages :: "module_stage list"
  Handler :: "'h module_handler option"

type_synonym stages = "(u32 \<times> u32) list"

fun add_stages :: "module_stage list \<Rightarrow> stages \<Rightarrow> bus_error + stages" where
  "add_stages [] table = Inr table"
| "add_stages (stage # rest) table =
    (if ms_EventKind stage = 0 \<or> ms_StageID stage = 0 then Inl ErrModuleConfig
     else if map_of table (ms_EventKind stage) \<noteq> None then Inl ErrModuleConfig
     else add_stages rest (AList.update (ms_EventKind stage) (ms_StageID stage) table))"

definition validateModuleConfig :: "'h module_config \<Rightarrow> bus_error + stages" where
  "validateModuleConfig config =
    (if SocketPath config = [] \<or> ModuleName config = [] \<or> PrincipalClass config = 0 \<or>
        PrincipalRef config = 0 \<or> length (Stages config) = 0
     then Inl ErrModuleConfig
     else add_stages (Stages config) [])"

definition stage_of :: "stages \<Rightarrow> u32 \<Rightarrow> u32" where
  \<comment> \<open>\<open>stages[kind]\<close>, 0 for a kind that is not served\<close>
  "stage_of table kind = (case map_of table kind of Some s \<Rightarrow> s | None \<Rightarrow> 0)"

section \<open>State\<close>

record module_assembly =
  as_eventKind :: u32
  as_message :: module_message
  as_body :: "byte list"

record module_work =
  wk_eventKind :: u32
  wk_correlationID :: u64
  wk_invocation :: module_invocation
  wk_cancelled :: nat

record module_result =
  rs_work :: module_work
  rs_body :: "byte list"
  rs_status :: u16

datatype goroutine =
    Starting module_work "byte list"             \<comment> \<open>before the call of the handler\<close>
  | Returning module_work "byte list \<times> u16"      \<comment> \<open>after it, with what it returned\<close>

fun gr_work :: "goroutine \<Rightarrow> module_work" where
  "gr_work (Starting work _) = work"
| "gr_work (Returning work _) = work"

record 'h runtime =
  assemblies :: "(u64 \<times> module_assembly) list"
  jobs :: "(u64 \<times> module_work) list"
  results :: "module_result list"                \<comment> \<open>the channel \<open>done\<close>\<close>
  goroutines :: "goroutine list"
  flags :: "nat \<Rightarrow> bool"
  next_flag :: nat
  handler_state :: 'h

definition initial_runtime :: "'h \<Rightarrow> 'h runtime" where
  "initial_runtime h = \<lparr>assemblies = [], jobs = [], results = [], goroutines = [],
     flags = (\<lambda>_. False), next_flag = 0, handler_state = h\<rparr>"

section \<open>The handler goroutine\<close>

definition runHandler :: "(nat \<Rightarrow> bool) \<Rightarrow> u64 \<Rightarrow> module_work \<Rightarrow> byte list \<times> u16 \<Rightarrow> module_result" where
  \<comment> \<open>what \<open>runHandler\<close> sends for what the handler returned\<close>
  "runHandler flag_set now work ret =
    (let (response, status) = ret;
         (status, response) =
           (if \<not> validModuleStatus status \<or> length response > unat ModuleMessageMaxBody
            then (ModuleStatusInternal, [])
            else if status \<noteq> ModuleStatusOK then (status, []) else (status, response));
         (status, response) =
           (if flag_set (wk_cancelled work) then (ModuleStatusCancelled, [])
            else if inv_DeadlineNS (wk_invocation work) \<noteq> 0 \<and> now \<noteq> 0 \<and>
              now \<ge> inv_DeadlineNS (wk_invocation work)
            then (ModuleStatusDeadlineExceeded, [])
            else (status, response))
     in \<lparr>rs_work = work, rs_body = response, rs_status = status\<rparr>)"

section \<open>Events\<close>

type_synonym ('h, 'w) served = "(bus_error option \<times> 'h runtime \<times> 'w) option"

definition reply_then ::
  "'w bus_ops \<Rightarrow> u32 \<Rightarrow> u64 \<Rightarrow> u32 \<Rightarrow> u64 \<Rightarrow> u16 \<Rightarrow> byte list \<Rightarrow> 'h runtime \<Rightarrow> 'w \<Rightarrow> ('h, 'w) served" where
  "reply_then ops kind corr stageID traceID status body rt w =
    do { (e, w) \<leftarrow> replyModuleResult ops kind corr stageID traceID status body w; Some (e, rt, w) }"

definition invalidModuleRequest ::
  "'w bus_ops \<Rightarrow> event \<Rightarrow> u32 \<Rightarrow> u64 \<Rightarrow> 'h runtime \<Rightarrow> 'w \<Rightarrow> ('h, 'w) served" where
  "invalidModuleRequest ops ev stageID traceID =
    (let stageID = (if stageID = 0 then 1 else stageID)
     in reply_then ops (EventKind (Frame ev)) (CorrelationID (Frame ev)) stageID traceID
          ModuleStatusInvalidRequest [])"

definition finishModuleWork :: "'w bus_ops \<Rightarrow> module_result \<Rightarrow> 'h runtime \<Rightarrow> 'w \<Rightarrow> ('h, 'w) served" where
  "finishModuleWork ops result rt =
    (let work = rs_work result;
         rt = rt\<lparr>jobs := AList.delete (wk_correlationID work) (jobs rt)\<rparr>
     in reply_then ops (wk_eventKind work) (wk_correlationID work) (inv_StageID (wk_invocation work))
          (inv_TraceID (wk_invocation work)) (rs_status result) (rs_body result) rt)"

definition cancel_event :: "u64 \<Rightarrow> 'h runtime \<Rightarrow> 'h runtime" where
  "cancel_event corr rt =
    rt\<lparr>flags := (case map_of (jobs rt) corr of
          Some work \<Rightarrow> (flags rt)(wk_cancelled work := True) | None \<Rightarrow> flags rt),
       assemblies := AList.delete corr (assemblies rt)\<rparr>"

definition new_work :: "event \<Rightarrow> u32 \<Rightarrow> module_message \<Rightarrow> nat \<Rightarrow> module_work" where
  \<comment> \<open>the job of a request, with a fresh flag\<close>
  "new_work ev stageID message flag =
    \<lparr>wk_eventKind = EventKind (Frame ev), wk_correlationID = CorrelationID (Frame ev),
     wk_invocation = \<lparr>inv_StageID = stageID, inv_DeadlineNS = DeadlineNS message,
       inv_TraceID = TraceID message, inv_cancelled = Some flag\<rparr>,
     wk_cancelled = flag\<rparr>"

definition start_work ::
  "'w bus_ops \<Rightarrow> bool \<Rightarrow> u64 \<Rightarrow> event \<Rightarrow> u32 \<Rightarrow> module_message \<Rightarrow> byte list \<Rightarrow> 'h runtime \<Rightarrow> 'w \<Rightarrow>
    ('h, 'w) served" where
  \<comment> \<open>a complete request: the refusals, or a new job and its goroutine\<close>
  "start_work ops has_handler now ev stageID message body rt w =
    (let kind = EventKind (Frame ev); corr = CorrelationID (Frame ev);
         refuse = (\<lambda>status. reply_then ops kind corr stageID (TraceID message) status [] rt w)
     in if DeadlineExpired message now then refuse ModuleStatusDeadlineExceeded
        else if \<not> has_handler then refuse ModuleStatusCapabilityAbsent
        else if length (jobs rt) \<ge> moduleMaxInFlight then refuse ModuleStatusInternal
        else
          let flag = next_flag rt; work = new_work ev stageID message flag
          in Some (None, rt\<lparr>jobs := AList.update corr work (jobs rt), next_flag := flag + 1,
               flags := (flags rt)(flag := False),
               goroutines := goroutines rt @ [Starting work body]\<rparr>, w))"

definition request_invalid :: "u32 \<Rightarrow> bus_error + module_message \<Rightarrow> event \<Rightarrow> 'h runtime \<Rightarrow> bool" where
  "request_invalid expectedStage decoded ev rt =
    (let corr = CorrelationID (Frame ev); message = projr decoded;
         invalid = (expectedStage = 0 \<or> isl decoded \<or> Operation message \<noteq> ModuleOpInvoke \<or>
           StageID message \<noteq> expectedStage \<or> map_of (jobs rt) corr \<noteq> None)
     in if invalid then True
        else case map_of (assemblies rt) corr of
            None \<Rightarrow> False
          | Some a \<Rightarrow>
              as_eventKind a \<noteq> EventKind (Frame ev) \<or>
              StageID (as_message a) \<noteq> StageID message \<or>
              DeadlineNS (as_message a) \<noteq> DeadlineNS message \<or>
              TraceID (as_message a) \<noteq> TraceID message)"

definition current_assembly :: "event \<Rightarrow> module_message \<Rightarrow> 'h runtime \<Rightarrow> module_assembly" where
  \<comment> \<open>the assembly of the correlation, or a new one\<close>
  "current_assembly ev message rt =
    (case map_of (assemblies rt) (CorrelationID (Frame ev)) of
       Some a \<Rightarrow> a
     | None \<Rightarrow> \<lparr>as_eventKind = EventKind (Frame ev), as_message = message, as_body = []\<rparr>)"

definition request_event ::
  "'w bus_ops \<Rightarrow> bool \<Rightarrow> stages \<Rightarrow> u64 \<Rightarrow> event \<Rightarrow> 'h runtime \<Rightarrow> 'w \<Rightarrow> ('h, 'w) served" where
  "request_event ops has_handler table now ev rt w =
    (let kind = EventKind (Frame ev); corr = CorrelationID (Frame ev);
         expectedStage = stage_of table kind;
         decoded = DecodeModuleMessage (Payload ev);
         message = projr decoded;
         dropped = rt\<lparr>assemblies := AList.delete corr (assemblies rt)\<rparr>
     in if request_invalid expectedStage decoded ev rt
        then invalidModuleRequest ops ev expectedStage 0 dropped w
        else if map_of (assemblies rt) corr = None \<and> length (assemblies rt) \<ge> moduleMaxInFlight
        then reply_then ops kind corr expectedStage (TraceID message) ModuleStatusInternal [] rt w
        else
          let a = current_assembly ev message rt;
              body = slice (Payload ev) ModuleMessageHeaderLen (unat (BodyLen message))
          in if length (as_body a) + length body > unat ModuleMessageMaxBody
             then reply_then ops kind corr expectedStage (TraceID message) ModuleStatusInternal []
                    dropped w
             else
               let a = a\<lparr>as_body := as_body a @ body\<rparr>
               in if HdrFlags (Frame ev) AND FMore \<noteq> 0
                  then Some (None, rt\<lparr>assemblies := AList.update corr a (assemblies rt)\<rparr>, w)
                  else start_work ops has_handler now ev expectedStage message (as_body a) dropped w)"

definition handle_event ::
  "'w bus_ops \<Rightarrow> bool \<Rightarrow> stages \<Rightarrow> u64 \<Rightarrow> event \<Rightarrow> 'h runtime \<Rightarrow> 'w \<Rightarrow> ('h, 'w) served" where
  "handle_event ops has_handler table now ev rt w =
    (if HdrFlags (Frame ev) AND FCancel \<noteq> 0
     then Some (None, cancel_event (CorrelationID (Frame ev)) rt, w)
     else if HdrFlags (Frame ev) AND FRequest = 0 then Some (None, rt, w)
     else request_event ops has_handler table now ev rt w)"

section \<open>The main loop\<close>

datatype phase = Draining | Serving | Stopping | Stopped "bus_error option"

definition cancel_jobs :: "'h runtime \<Rightarrow> 'h runtime" where
  "cancel_jobs rt = rt\<lparr>flags := (\<lambda>a. a \<in> wk_cancelled ` snd ` set (jobs rt) \<or> flags rt a)\<rparr>"

definition serve_once ::
  "'w bus_ops \<Rightarrow> bool \<Rightarrow> stages \<Rightarrow> 'h runtime \<Rightarrow> 'w \<Rightarrow> (phase \<times> 'h runtime \<times> 'w) option" where
  \<comment> \<open>one pass through the body of the loop, after the channel has been drained\<close>
  "serve_once ops has_handler table rt w =
    (if op_done ops w then Some (Stopping, cancel_jobs rt, w)
     else do {
       changed \<leftarrow> op_EpochChanged ops w;
       if changed then Some (Stopped None, rt, w)
       else
         let (now, w) = op_clock ops w
         in do {
           w \<leftarrow> (if now \<noteq> 0 then op_Heartbeat ops now w else Some w);
           (r, w) \<leftarrow> op_Poll ops w;
           (case r of
              PollError e \<Rightarrow> Some (Stopped (if e = ErrEpoch then None else Some e), rt, w)
            | NoEvent \<Rightarrow> Some (Draining, rt, op_sleep ops w)
            | Polled ev \<Rightarrow>
                do {
                  (e, rt, w) \<leftarrow> handle_event ops has_handler table now ev rt w;
                  Some (if e = None then Draining else Stopped e, rt, w)
                })
         }
     })"

inductive runtime_step ::
  "'w bus_ops \<Rightarrow> 'h module_handler option \<Rightarrow> stages \<Rightarrow> phase \<times> 'h runtime \<times> 'w \<Rightarrow>
    phase \<times> 'h runtime \<times> 'w \<Rightarrow> bool"
  for ops :: "'w bus_ops" and handler :: "'h module_handler option" and table :: stages where
  drain: "results rt = r # rs \<Longrightarrow> finishModuleWork ops r (rt\<lparr>results := rs\<rparr>) w = Some (e, rt', w') \<Longrightarrow>
    runtime_step ops handler table (Draining, rt, w)
      (if e = None then Draining else Stopped e, rt', w')"
| drained: "results rt = [] \<Longrightarrow>
    runtime_step ops handler table (Draining, rt, w) (Serving, rt, w)"
| serve: "serve_once ops (handler \<noteq> None) table rt w = Some (p, rt', w') \<Longrightarrow>
    runtime_step ops handler table (Serving, rt, w) (p, rt', w')"
| collect: "jobs rt \<noteq> [] \<Longrightarrow> results rt = r # rs \<Longrightarrow>
    runtime_step ops handler table (Stopping, rt, w)
      (Stopping, rt\<lparr>results := rs, jobs := AList.delete (wk_correlationID (rs_work r)) (jobs rt)\<rparr>, w)"
| stopped: "jobs rt = [] \<Longrightarrow>
    runtime_step ops handler table (Stopping, rt, w) (Stopped None, rt, w)"
| handle: "goroutines rt = gs @ Starting work body # gs' \<Longrightarrow> handler = Some h \<Longrightarrow>
    h (wk_invocation work) (Cancelled (flags rt) now (wk_invocation work)) body (handler_state rt) = Some (ret, hs) \<Longrightarrow>
    runtime_step ops handler table (p, rt, w)
      (p, rt\<lparr>goroutines := gs @ Returning work ret # gs', handler_state := hs\<rparr>, w)"
| deliver: "goroutines rt = gs @ Returning work ret # gs' \<Longrightarrow> length (results rt) < moduleMaxInFlight \<Longrightarrow>
    runtime_step ops handler table (p, rt, w)
      (p, rt\<lparr>goroutines := gs @ gs', results := results rt @ [runHandler (flags rt) now work ret]\<rparr>, w)"

inductive runtime_reach ::
  "'w bus_ops \<Rightarrow> 'h module_handler option \<Rightarrow> stages \<Rightarrow> phase \<times> 'h runtime \<times> 'w \<Rightarrow> bool"
  for ops :: "'w bus_ops" and handler :: "'h module_handler option" and table :: stages where
  start: "runtime_reach ops handler table (Draining, initial_runtime h, w)"
| step: "runtime_reach ops handler table s \<Longrightarrow> runtime_step ops handler table s s' \<Longrightarrow>
    runtime_reach ops handler table s'"
| host: "runtime_reach ops handler table (p, rt, w) \<Longrightarrow> runtime_reach ops handler table (p, rt, w')"

inductive_cases runtime_stepE: "runtime_step ops handler table s s'"
inductive_cases StoppingE: "runtime_step ops handler table (Stopping, rt, w) s'"

section \<open>The invariant\<close>

definition job_ok :: "stages \<Rightarrow> nat \<Rightarrow> u64 \<Rightarrow> module_work \<Rightarrow> bool" where
  "job_ok table n corr work \<longleftrightarrow>
     wk_correlationID work = corr \<and> wk_cancelled work < n \<and>
     inv_StageID (wk_invocation work) = stage_of table (wk_eventKind work) \<and>
     inv_StageID (wk_invocation work) \<noteq> 0 \<and> inv_cancelled (wk_invocation work) = Some (wk_cancelled work)"

definition assembly_ok :: "stages \<Rightarrow> module_assembly \<Rightarrow> bool" where
  "assembly_ok table a \<longleftrightarrow>
     length (as_body a) \<le> unat ModuleMessageMaxBody \<and> message_valid (as_message a) \<and>
     Operation (as_message a) = ModuleOpInvoke \<and>
     StageID (as_message a) = stage_of table (as_eventKind a)"

definition result_ok :: "module_result \<Rightarrow> bool" where
  \<comment> \<open>what \<open>runHandler\<close> may send\<close>
  "result_ok r \<longleftrightarrow> validModuleStatus (rs_status r) \<and> length (rs_body r) \<le> unat ModuleMessageMaxBody \<and>
     (rs_status r \<noteq> ModuleStatusOK \<longrightarrow> rs_body r = [])"

fun goroutine_ok :: "goroutine \<Rightarrow> bool" where
  "goroutine_ok (Starting _ body) \<longleftrightarrow> length body \<le> unat ModuleMessageMaxBody"
| "goroutine_ok (Returning _ _) \<longleftrightarrow> True"

definition assemblies_inv :: "stages \<Rightarrow> (u64 \<times> module_assembly) list \<Rightarrow> bool" where
  "assemblies_inv table as \<longleftrightarrow>
     distinct (map fst as) \<and> length as \<le> moduleMaxInFlight \<and> (\<forall>(c, a) \<in> set as. assembly_ok table a)"

definition jobs_inv :: "stages \<Rightarrow> nat \<Rightarrow> (u64 \<times> module_work) list \<Rightarrow> bool" where
  "jobs_inv table n js \<longleftrightarrow>
     distinct (map fst js) \<and> length js \<le> moduleMaxInFlight \<and> (\<forall>(c, work) \<in> set js. job_ok table n c work) \<and>
     distinct (map (wk_cancelled \<circ> snd) js)"

definition works :: "'h runtime \<Rightarrow> module_work multiset" where
  \<comment> \<open>the jobs whose goroutine is running or whose result waits in the channel\<close>
  "works rt = mset (map gr_work (goroutines rt)) + mset (map rs_work (results rt))"

definition rt_inv :: "stages \<Rightarrow> 'h runtime \<Rightarrow> bool" where
  "rt_inv table rt \<longleftrightarrow>
     assemblies_inv table (assemblies rt) \<and> jobs_inv table (next_flag rt) (jobs rt) \<and>
     fst ` set (assemblies rt) \<inter> fst ` set (jobs rt) = {} \<and>
     mset (map snd (jobs rt)) = works rt \<and>
     (\<forall>r \<in> set (results rt). result_ok r) \<and> (\<forall>g \<in> set (goroutines rt). goroutine_ok g)"

lemma delete_subset: "set (AList.delete k xs) = {p \<in> set xs. fst p \<noteq> k}"
  by (auto simp: AList.delete_eq)

lemma mset_delete:
  assumes "distinct (map fst xs)" and "(k, v) \<in> set xs"
  shows "mset (map snd (AList.delete k xs)) = mset (map snd xs) - {#v#}"
  using assms
proof (induction xs)
  case (Cons p xs)
  show ?case
  proof (cases "fst p = k")
    case True
    then have "AList.delete k xs = xs" using Cons.prems(1) by (auto simp: AList.delete_eq filter_id_conv rev_image_eqI)
    moreover have "p = (k, v)" using Cons.prems True by (auto simp: rev_image_eqI)
    ultimately show ?thesis by (simp add: AList.delete_eq)
  next
    case False
    then have "v \<in># mset (map snd xs)" using Cons.prems(2) by (force simp: image_iff)
    then show ?thesis using False Cons by (auto simp: AList.delete_eq)
  qed
qed simp

lemma assemblies_inv_delete: "assemblies_inv table as \<Longrightarrow> assemblies_inv table (AList.delete k as)"
  using AList.length_delete_le [of k as] by (auto simp: assemblies_inv_def delete_subset intro: AList.distinct_delete)

lemma jobs_inv_delete: "jobs_inv table n js \<Longrightarrow> jobs_inv table n (AList.delete k js)"
  using AList.length_delete_le [of k js]
  by (auto simp: jobs_inv_def delete_subset intro: AList.distinct_delete) (simp add: AList.delete_eq distinct_map_filter)

lemma length_update_new: "map_of xs k = None \<Longrightarrow> length (AList.update k v xs) = Suc (length xs)"
  by (induction xs) (auto split: if_splits)

lemma length_update_old: "map_of xs k \<noteq> None \<Longrightarrow> length (AList.update k v xs) = length xs"
  by (induction xs) (auto split: if_splits)

lemma update_new: "map_of xs k = None \<Longrightarrow> AList.update k v xs = xs @ [(k, v)]"
  by (induction xs) (auto split: if_splits)

lemma set_update: "set (AList.update k v xs) \<subseteq> insert (k, v) (set xs)"
  by (induction xs) auto

lemma keys_update: "fst ` set (AList.update k v xs) = insert k (fst ` set xs)"
  by (simp add: AList.dom_update)

lemma rt_inv_dropped: "rt_inv table rt \<Longrightarrow> rt_inv table (rt\<lparr>assemblies := AList.delete k (assemblies rt)\<rparr>)"
  by (auto simp: rt_inv_def assemblies_inv_delete delete_subset works_def)

lemma rt_inv_flags: "rt_inv table (rt\<lparr>flags := f\<rparr>) = rt_inv table rt"
  by (simp add: rt_inv_def works_def)

text \<open>Taking a result from the channel ends exactly its job.\<close>

lemma rt_inv_take:
  assumes "rt_inv table rt" and "results rt = r # rs"
  shows "rt_inv table (rt\<lparr>results := rs, jobs := AList.delete (wk_correlationID (rs_work r)) (jobs rt)\<rparr>)"
    and "result_ok r" and "(wk_correlationID (rs_work r), rs_work r) \<in> set (jobs rt)"
proof -
  let ?c = "wk_correlationID (rs_work r)"
  note i = assms(1) [unfolded rt_inv_def]
  have "rs_work r \<in># works rt" using assms(2) by (simp add: works_def)
  with i have "rs_work r \<in> set (map snd (jobs rt))" by (metis set_mset_mset)
  then obtain c where "(c, rs_work r) \<in> set (jobs rt)" by auto
  with i show job: "(?c, rs_work r) \<in> set (jobs rt)" by (auto simp: jobs_inv_def job_ok_def)
  have "mset (map snd (AList.delete ?c (jobs rt))) = works rt - {#rs_work r#}"
    using i mset_delete [OF _ job] by (simp add: jobs_inv_def)
  then show "rt_inv table (rt\<lparr>results := rs, jobs := AList.delete ?c (jobs rt)\<rparr>)"
    using i assms(2) jobs_inv_delete by (auto simp: rt_inv_def works_def delete_subset)
  show "result_ok r" using i assms(2) by simp
qed

lemma reply_then_rt: "reply_then ops kind corr stageID traceID status body rt w = Some (e, rt', w') \<Longrightarrow> rt' = rt"
  by (auto simp: reply_then_def split: bind_splits)

lemma invalidModuleRequest_rt: "invalidModuleRequest ops ev stageID traceID rt w = Some (e, rt', w') \<Longrightarrow> rt' = rt"
  by (auto simp: invalidModuleRequest_def Let_def dest: reply_then_rt)

lemma runHandler_ok: "result_ok (runHandler f now work ret)" "rs_work (runHandler f now work ret) = work"
  by (auto simp: runHandler_def result_ok_def validModuleStatus_def Let_def split: prod.splits)

lemma start_work_inv:
  assumes "rt_inv table rt" and "start_work ops hh now ev stageID message body rt w = Some (e, rt', w')"
    and "map_of (jobs rt) (CorrelationID (Frame ev)) = None"
    and "CorrelationID (Frame ev) \<notin> fst ` set (assemblies rt)"
    and "stageID = stage_of table (EventKind (Frame ev))" and "stageID \<noteq> 0"
    and "length body \<le> unat ModuleMessageMaxBody"
  shows "rt_inv table rt'"
proof (cases "DeadlineExpired message now \<or> \<not> hh \<or> length (jobs rt) \<ge> moduleMaxInFlight")
  case True
  then have "rt' = rt" using assms(2) by (auto simp: start_work_def Let_def dest: reply_then_rt split: if_splits)
  then show ?thesis using assms(1) by simp
next
  case False
  note i = assms(1) [unfolded rt_inv_def jobs_inv_def]
  have fresh: "wk_cancelled (snd p) < next_flag rt" if "p \<in> set (jobs rt)" for p
    using i that by (auto simp: job_ok_def)
  have mono: "job_ok table (Suc (next_flag rt)) c work" if "(c, work) \<in> set (jobs rt)" for c work
    using i that by (auto simp: job_ok_def)
  have new: "CorrelationID (Frame ev) \<notin> fst ` set (jobs rt)" using assms(3) by (simp add: map_of_eq_None_iff)
  let ?work = "new_work ev stageID message (next_flag rt)"
  have work: "job_ok table (Suc (next_flag rt)) (CorrelationID (Frame ev)) ?work" "wk_cancelled ?work = next_flag rt"
    using assms(5,6) by (simp_all add: new_work_def job_ok_def)
  have rt': "rt' = rt\<lparr>jobs := jobs rt @ [(CorrelationID (Frame ev), ?work)], next_flag := Suc (next_flag rt),
      flags := (flags rt)(next_flag rt := False), goroutines := goroutines rt @ [Starting ?work body]\<rparr>"
    using assms(2,3) False by (auto simp: start_work_def Let_def update_new)
  have "next_flag rt \<notin> (wk_cancelled \<circ> snd) ` set (jobs rt)" using fresh by fastforce
  then have "jobs_inv table (Suc (next_flag rt)) (jobs rt @ [(CorrelationID (Frame ev), ?work)])"
    using i False new work mono by (auto simp: jobs_inv_def)
  then show ?thesis
    using i assms(4,7) new unfolding rt' by (auto simp: rt_inv_def works_def)
qed

lemma current_assembly_ok:
  assumes "assemblies_inv table (assemblies rt)" and "\<not> request_invalid (stage_of table (EventKind (Frame ev))) (Inr m) ev rt"
    and "message_valid m"
  shows "assembly_ok table (current_assembly ev m rt)" and "as_eventKind (current_assembly ev m rt) = EventKind (Frame ev)"
proof -
  let ?corr = "CorrelationID (Frame ev)"
  have ops: "Operation m = ModuleOpInvoke" "StageID m = stage_of table (EventKind (Frame ev))"
    using assms(2) by (auto simp: request_invalid_def Let_def split: if_splits)
  have same: "as_eventKind a = EventKind (Frame ev)" if "map_of (assemblies rt) ?corr = Some a" for a
    using assms(2) that by (auto simp: request_invalid_def Let_def split: if_splits)
  then show "as_eventKind (current_assembly ev m rt) = EventKind (Frame ev)"
    by (auto simp: current_assembly_def split: option.splits)
  show "assembly_ok table (current_assembly ev m rt)"
  proof (cases "map_of (assemblies rt) ?corr")
    case None
    then show ?thesis using ops assms(3) by (simp add: current_assembly_def assembly_ok_def)
  next
    case (Some b)
    then have "(?corr, b) \<in> set (assemblies rt)" by (rule map_of_SomeD)
    then show ?thesis using assms(1) Some by (auto simp: current_assembly_def assemblies_inv_def)
  qed
qed

lemma rt_inv_assembly:
  assumes "rt_inv table rt" and "assembly_ok table a" and "map_of (jobs rt) corr = None"
    and "map_of (assemblies rt) corr = None \<Longrightarrow> length (assemblies rt) < moduleMaxInFlight"
  shows "rt_inv table (rt\<lparr>assemblies := AList.update corr a (assemblies rt)\<rparr>)"
proof -
  have "assemblies_inv table (AList.update corr a (assemblies rt))"
    using assms(1,2,4) set_update [of corr a "assemblies rt"] length_update_new [of "assemblies rt" corr a]
      length_update_old [of "assemblies rt" corr a]
    by (cases "map_of (assemblies rt) corr") (auto simp: rt_inv_def assemblies_inv_def AList.distinct_update)
  moreover have "corr \<notin> fst ` set (jobs rt)" using assms(3) by (simp add: map_of_eq_None_iff)
  ultimately show ?thesis using assms(1) unfolding rt_inv_def by (simp add: keys_update works_def)
qed

lemma request_event_inv:
  assumes inv: "rt_inv table rt" and ev: "request_event ops hh table now ev rt w = Some (e, rt', w')"
  shows "rt_inv table rt'"
proof -
  let ?kind = "EventKind (Frame ev)" and ?corr = "CorrelationID (Frame ev)"
  let ?stage = "stage_of table ?kind" and ?dec = "DecodeModuleMessage (Payload ev)"
  let ?drop = "rt\<lparr>assemblies := AList.delete ?corr (assemblies rt)\<rparr>"
  have drop: "rt_inv table ?drop" by (rule rt_inv_dropped [OF inv])
  note i = inv [unfolded rt_inv_def assemblies_inv_def]
  show ?thesis
  proof (cases "request_invalid ?stage ?dec ev rt")
    case True
    then have "rt' = ?drop" using ev by (auto simp: request_event_def Let_def dest: invalidModuleRequest_rt)
    then show ?thesis using drop by simp
  next
    case valid: False
    then obtain m where m: "?dec = Inr m" and ops: "Operation m = ModuleOpInvoke" "StageID m = ?stage" "?stage \<noteq> 0"
      "map_of (jobs rt) ?corr = None"
      by (cases ?dec) (auto simp: request_invalid_def Let_def split: if_splits)
    have mv: "message_valid m" using m unfolding DecodeModuleMessage_OK_iff by blast
    define a where "a = current_assembly ev m rt"
    define body where "body = slice (Payload ev) ModuleMessageHeaderLen (unat (BodyLen m))"
    have aok: "assembly_ok table a" "as_eventKind a = ?kind"
      using current_assembly_ok [OF _ valid [unfolded m] mv] i by (simp_all add: a_def rt_inv_def assemblies_inv_def)
    have split: "request_event ops hh table now ev rt w =
      (if map_of (assemblies rt) ?corr = None \<and> length (assemblies rt) \<ge> moduleMaxInFlight
       then reply_then ops ?kind ?corr ?stage (TraceID m) ModuleStatusInternal [] rt w
       else if length (as_body a) + length body > unat ModuleMessageMaxBody
       then reply_then ops ?kind ?corr ?stage (TraceID m) ModuleStatusInternal [] ?drop w
       else if HdrFlags (Frame ev) AND FMore \<noteq> 0
       then Some (None, rt\<lparr>assemblies := AList.update ?corr (a\<lparr>as_body := as_body a @ body\<rparr>) (assemblies rt)\<rparr>, w)
       else start_work ops hh now ev ?stage m (as_body a @ body) ?drop w)"
      using valid by (simp add: request_event_def Let_def m a_def body_def)
    show ?thesis
    proof (cases "map_of (assemblies rt) ?corr = None \<and> length (assemblies rt) \<ge> moduleMaxInFlight \<or>
        length (as_body a) + length body > unat ModuleMessageMaxBody")
      case True
      then have "rt' = rt \<or> rt' = ?drop" using ev unfolding split by (auto dest: reply_then_rt split: if_splits)
      then show ?thesis using drop inv by blast
    next
      case False
      show ?thesis
      proof (cases "HdrFlags (Frame ev) AND FMore \<noteq> 0")
        case True
        let ?a = "a\<lparr>as_body := as_body a @ body\<rparr>"
        have rt': "rt' = rt\<lparr>assemblies := AList.update ?corr ?a (assemblies rt)\<rparr>"
          using ev False True unfolding split by (auto split: if_splits)
        have "assembly_ok table ?a" using aok False by (simp add: assembly_ok_def)
        then show ?thesis
          unfolding rt' by (rule rt_inv_assembly [OF inv]) (use ops(4) False in auto)
      next
        case complete: False
        then have "start_work ops hh now ev ?stage m (as_body a @ body) ?drop w = Some (e, rt', w')"
          using ev False unfolding split by (auto split: if_splits)
        from start_work_inv [OF drop this] show ?thesis
          using ops False by (fastforce simp: delete_subset)
      qed
    qed
  qed
qed

lemma handle_event_inv:
  assumes "rt_inv table rt" and "handle_event ops hh table now ev rt w = Some (e, rt', w')"
  shows "rt_inv table rt'"
proof -
  have "rt_inv table (cancel_event (CorrelationID (Frame ev)) rt)"
    using rt_inv_flags rt_inv_dropped [OF assms(1)] by (auto simp: cancel_event_def rt_inv_def works_def)
  then show ?thesis
    using assms request_event_inv [OF assms(1)] by (auto simp: handle_event_def split: if_splits)
qed

lemma serve_once_inv:
  assumes "rt_inv table rt" and "serve_once ops hh table rt w = Some (p, rt', w')"
  shows "rt_inv table rt'"
  using assms handle_event_inv [OF assms(1)]
  by (auto simp: serve_once_def Let_def cancel_jobs_def rt_inv_flags split: if_splits bind_splits prod.splits poll_result.splits)

lemma runtime_step_inv:
  assumes "runtime_step ops handler table s s'" and "rt_inv table (fst (snd s))"
  shows "rt_inv table (fst (snd s'))"
  using assms
proof (induction rule: runtime_step.induct)
  case (drain rt r rs w e rt' w')
  have "rt' = rt\<lparr>results := rs, jobs := AList.delete (wk_correlationID (rs_work r)) (jobs rt)\<rparr>"
    using drain(2) by (auto simp: finishModuleWork_def Let_def dest: reply_then_rt)
  then show ?case using rt_inv_take(1) [OF _ drain(1)] drain(3) by simp
next
  case (serve rt w p rt' w')
  then show ?case using serve_once_inv by simp
next
  case (collect rt r rs w)
  then show ?case using rt_inv_take(1) [OF _ collect(2)] by simp
next
  case (handle rt gs work body gs' h now ret hs p w)
  then show ?case by (simp add: rt_inv_def works_def)
next
  case (deliver rt gs work ret gs' now p w)
  then show ?case by (simp add: rt_inv_def works_def runHandler_ok)
qed simp_all

lemma initial_runtime_inv: "rt_inv table (initial_runtime h)"
  by (simp add: rt_inv_def initial_runtime_def assemblies_inv_def jobs_inv_def works_def)

lemma runtime_reach_inv:
  "runtime_reach ops handler table s \<Longrightarrow> rt_inv table (fst (snd s))"
proof (induction rule: runtime_reach.induct)
  case (step s s')
  then show ?case using runtime_step_inv by blast
qed (simp_all add: initial_runtime_inv)

section \<open>Stopping\<close>

fun goroutine_steps :: "goroutine \<Rightarrow> nat" where
  "goroutine_steps (Starting _ _) = 3"
| "goroutine_steps (Returning _ _) = 2"

definition steps_left :: "'h runtime \<Rightarrow> nat" where
  \<comment> \<open>how many steps a stopping module has left\<close>
  "steps_left rt = Suc (sum_list (map goroutine_steps (goroutines rt)) + length (results rt))"

lemma steps_left_bound:
  assumes "rt_inv table rt"
  shows "steps_left rt \<le> 49"
proof -
  have "goroutine_steps g \<le> 3" for g by (cases g) simp_all
  then have "sum_list (map goroutine_steps gs) \<le> 3 * length gs" for gs
    by (induction gs) (simp_all add: add_mono)
  note le = this [of "goroutines rt"]
  have "size (mset (map snd (jobs rt))) = size (works rt)" using assms by (simp add: rt_inv_def)
  then have "length (goroutines rt) + length (results rt) \<le> 16"
    using assms by (simp add: works_def rt_inv_def jobs_inv_def)
  then show ?thesis using le unfolding steps_left_def by linarith
qed

lemma no_jobs:
  assumes "rt_inv table rt" and "jobs rt = []"
  shows "goroutines rt = []" and "results rt = []"
  using assms by (simp_all add: rt_inv_def works_def)

lemma stopping_enabled:
  assumes "rt_inv table rt" and "\<And>i c body hs. h i c body hs \<noteq> None"
  shows "\<exists>s'. runtime_step ops (Some h) table (Stopping, rt, w) s'"
proof (cases "jobs rt = []")
  case True
  then show ?thesis by (blast intro: runtime_step.stopped)
next
  case jobs: False
  show ?thesis
  proof (cases "results rt")
    case (Cons r rs)
    show ?thesis by (rule exI, rule runtime_step.collect [OF jobs Cons])
  next
    case Nil
    have "works rt \<noteq> {#}" using assms(1) jobs by (metis mset_zero_iff map_is_Nil_conv rt_inv_def)
    then obtain g gs where g: "goroutines rt = g # gs" using Nil by (cases "goroutines rt") (auto simp: works_def)
    show ?thesis
    proof (cases g)
      case (Starting work body)
      obtain ret hs where "h (wk_invocation work) (Cancelled (flags rt) 0 (wk_invocation work)) body (handler_state rt) = Some (ret, hs)"
        using assms(2) by (metis option.exhaust surj_pair)
      with runtime_step.handle [of rt "[]" work body gs "Some h" h 0 ret hs] g Starting show ?thesis by fastforce
    next
      case (Returning work ret)
      from runtime_step.deliver [of rt "[]" work ret gs] g Returning Nil show ?thesis by fastforce
    qed
  qed
qed

lemma stopping_step:
  assumes "runtime_step ops handler table (Stopping, rt, w) s'" and "rt_inv table rt"
  shows "(\<exists>rt'. s' = (Stopping, rt', w) \<and> steps_left rt' < steps_left rt) \<or>
    (\<exists>rt'. s' = (Stopped None, rt', w) \<and> jobs rt' = [])"
  using assms(1)
  by (cases rule: StoppingE) (auto simp: steps_left_def)

lemma stopped_no_step:
  assumes "runtime_step ops handler table (Stopped e, rt, w) s'" and "rt_inv table rt" and "jobs rt = []"
  shows "False"
  using assms(1)
  by (cases rule: runtime_stepE) (use no_jobs [OF assms(2,3)] in auto)

section \<open>Assembling a request\<close>

fun serve_events ::
  "'w bus_ops \<Rightarrow> bool \<Rightarrow> stages \<Rightarrow> u64 \<Rightarrow> event list \<Rightarrow> 'h runtime \<Rightarrow> 'w \<Rightarrow> ('h, 'w) served" where
  \<comment> \<open>events handled one after the other\<close>
  "serve_events ops hh table now [] rt w = Some (None, rt, w)"
| "serve_events ops hh table now (ev # evs) rt w =
    do {
      (e, rt, w) \<leftarrow> handle_event ops hh table now ev rt w;
      if e \<noteq> None then Some (e, rt, w) else serve_events ops hh table now evs rt w
    }"

definition assembly_accepts :: "'h runtime \<Rightarrow> u32 \<Rightarrow> u64 \<Rightarrow> u32 \<Rightarrow> u64 \<Rightarrow> u64 \<Rightarrow> byte list \<Rightarrow> bool" where
  \<comment> \<open>\<open>body\<close> is what has been assembled of this request; there is room for its assembly\<close>
  "assembly_accepts rt kind corr stageID dl traceID body \<longleftrightarrow>
     (case map_of (assemblies rt) corr of
        None \<Rightarrow> length (assemblies rt) < moduleMaxInFlight \<and> body = []
      | Some a \<Rightarrow> as_eventKind a = kind \<and> StageID (as_message a) = stageID \<and>
          DeadlineNS (as_message a) = dl \<and> TraceID (as_message a) = traceID \<and> as_body a = body)"

text \<open>What the runtime reads from a request frame.\<close>

lemma request_frame_read:
  assumes "event_matches (request_frame kind corr stageID dl traceID (p, m)) ev"
    and "stageID \<noteq> 0" and "length p \<le> 2 ^ 24"
  shows "HdrFlags (Frame ev) = (request_flags m OR FInline)" "EventKind (Frame ev) = kind"
    "CorrelationID (Frame ev) = corr"
    "\<exists>msg. DecodeModuleMessage (Payload ev) = Inr msg \<and> Operation msg = ModuleOpInvoke \<and> StageID msg = stageID \<and>
      DeadlineNS msg = dl \<and> TraceID msg = traceID \<and>
      slice (Payload ev) ModuleMessageHeaderLen (unat (BodyLen msg)) = p"
proof -
  define msg where "msg = invoke_message stageID dl traceID (length p)"
  have len: "unat (BodyLen msg) = length p" using assms(3) by (simp add: msg_def invoke_message_def unat_of_nat)
  show "HdrFlags (Frame ev) = (request_flags m OR FInline)" "EventKind (Frame ev) = kind" "CorrelationID (Frame ev) = corr"
    and pay: "\<exists>msg. DecodeModuleMessage (Payload ev) = Inr msg \<and> Operation msg = ModuleOpInvoke \<and>
      StageID msg = stageID \<and> DeadlineNS msg = dl \<and> TraceID msg = traceID \<and>
      slice (Payload ev) ModuleMessageHeaderLen (unat (BodyLen msg)) = p"
  proof -
    show "HdrFlags (Frame ev) = (request_flags m OR FInline)" "EventKind (Frame ev) = kind" "CorrelationID (Frame ev) = corr"
      using assms(1) by (auto simp: event_matches_def request_frame_def outgoing_def with_header_def)
    have f: "Payload ev = message_bytes msg @ p"
      using assms(1) by (auto simp: event_matches_def request_frame_def outgoing_def with_header_def msg_def)
    have "message_valid msg" unfolding msg_def using assms(2,3) by (intro invoke_message_valid)
    then have "DecodeModuleMessage (Payload ev) = Inr msg"
      unfolding f using len by (intro DecodeModuleMessage_bytes) simp_all
    moreover have "slice (Payload ev) ModuleMessageHeaderLen (unat (BodyLen msg)) = p" by (simp add: f len slice_def)
    ultimately show "\<exists>msg. DecodeModuleMessage (Payload ev) = Inr msg \<and> Operation msg = ModuleOpInvoke \<and>
        StageID msg = stageID \<and> DeadlineNS msg = dl \<and> TraceID msg = traceID \<and>
        slice (Payload ev) ModuleMessageHeaderLen (unat (BodyLen msg)) = p"
      by (intro exI [of _ msg]) (simp add: msg_def invoke_message_def)
  qed
qed

lemma request_event_part:
  assumes "event_matches (request_frame kind corr stageID dl traceID (p, m)) ev"
    and "stage_of table kind = stageID" and "stageID \<noteq> 0" and "map_of (jobs rt) corr = None"
    and "assembly_accepts rt kind corr stageID dl traceID body"
    and "length body + length p \<le> 2 ^ 24"
  shows "\<exists>a msg. as_body a = body @ p \<and> as_eventKind a = kind \<and> StageID (as_message a) = stageID \<and>
    DeadlineNS (as_message a) = dl \<and> TraceID (as_message a) = traceID \<and>
    DeadlineNS msg = dl \<and> TraceID msg = traceID \<and> EventKind (Frame ev) = kind \<and> CorrelationID (Frame ev) = corr \<and>
    (\<forall>now w. handle_event ops hh table now ev rt w =
      (if m then Some (None, rt\<lparr>assemblies := AList.update corr a (assemblies rt)\<rparr>, w)
       else start_work ops hh now ev stageID msg (body @ p)
         (rt\<lparr>assemblies := AList.delete corr (assemblies rt)\<rparr>) w))"
proof -
  have small: "length p \<le> 2 ^ 24" using assms(6) by simp
  note f = request_frame_read [OF assms(1,3) small]
  from f(4) obtain msg where dec: "DecodeModuleMessage (Payload ev) = Inr msg" and
    msg: "Operation msg = ModuleOpInvoke" "StageID msg = stageID" "DeadlineNS msg = dl" "TraceID msg = traceID" and
    slice: "slice (Payload ev) ModuleMessageHeaderLen (unat (BodyLen msg)) = p" by blast
  have bits: "HdrFlags (Frame ev) AND FCancel = 0" "HdrFlags (Frame ev) AND FRequest \<noteq> 0"
    "HdrFlags (Frame ev) AND FMore \<noteq> 0 \<longleftrightarrow> m" by (simp_all add: f(1) request_flags_def)
  have valid: "\<not> request_invalid stageID (Inr msg) ev rt"
    using assms(3-5) msg f(2,3) by (auto simp: request_invalid_def assembly_accepts_def split: option.splits)
  let ?a = "current_assembly ev msg rt"
  have a: "as_body ?a = body" "as_eventKind ?a = kind" "StageID (as_message ?a) = stageID"
    "DeadlineNS (as_message ?a) = dl" "TraceID (as_message ?a) = traceID"
    using assms(5) msg f(2,3) by (auto simp: current_assembly_def assembly_accepts_def split: option.splits)
  have room: "\<not> (map_of (assemblies rt) corr = None \<and> length (assemblies rt) \<ge> moduleMaxInFlight)"
    using assms(5) by (auto simp: assembly_accepts_def)
  have "handle_event ops hh table now ev rt w = request_event ops hh table now ev rt w" for now w
    using bits by (simp add: handle_event_def)
  moreover have "request_event ops hh table now ev rt w = (if m then Some (None, rt\<lparr>assemblies := AList.update corr (?a\<lparr>as_body := body @ p\<rparr>) (assemblies rt)\<rparr>, w)
       else start_work ops hh now ev stageID msg (body @ p) (rt\<lparr>assemblies := AList.delete corr (assemblies rt)\<rparr>) w)" for now w
    using room valid bits(3) assms(6)
    unfolding request_event_def Let_def dec sum.sel f(2,3) assms(2) slice a by auto
  ultimately show ?thesis
    by (intro exI [of _ "?a\<lparr>as_body := body @ p\<rparr>"] exI [of _ msg]) (simp add: a msg f(2,3))
qed

lemma serve_parts:
  assumes "list_all2 event_matches (map (request_frame kind corr stageID dl traceID)
      (map (\<lambda>q. (q, True)) ps @ [(p, False)])) evs"
    and "stage_of table kind = stageID" and "stageID \<noteq> 0" and "map_of (jobs rt) corr = None"
    and "assembly_accepts rt kind corr stageID dl traceID body"
    and "length body + length (concat ps) + length p \<le> 2 ^ 24"
  shows "\<exists>msg. DeadlineNS msg = dl \<and> TraceID msg = traceID \<and>
    EventKind (Frame (last evs)) = kind \<and> CorrelationID (Frame (last evs)) = corr \<and>
    serve_events ops hh table now evs rt w =
      do {
        (e, rt, w) \<leftarrow> start_work ops hh now (last evs) stageID msg (body @ concat ps @ p)
          (rt\<lparr>assemblies := AList.delete corr (assemblies rt)\<rparr>) w;
        Some (e, rt, w)
      }"
  using assms(1,4-6)
proof (induction ps arbitrary: evs rt body)
  case Nil
  then obtain ev where evs: "evs = [ev]" and ev: "event_matches (request_frame kind corr stageID dl traceID (p, False)) ev"
    by (auto simp: list_all2_Cons1)
  have "length body + length p \<le> 2 ^ 24" using Nil(4) by simp
  from request_event_part [OF ev assms(2,3) Nil(2,3) this, of ops hh] obtain msg where
    "DeadlineNS msg = dl" "TraceID msg = traceID" "handle_event ops hh table now ev rt w =
       start_work ops hh now ev stageID msg (body @ p) (rt\<lparr>assemblies := AList.delete corr (assemblies rt)\<rparr>) w" by auto
  moreover have "EventKind (Frame ev) = kind" "CorrelationID (Frame ev) = corr"
    using ev by (auto simp: event_matches_def request_frame_def outgoing_def split: if_splits)
  ultimately show ?case
    unfolding evs by (intro exI [of _ msg]) (auto split: bind_splits intro!: bind_option_cong)
next
  case (Cons q ps)
  then obtain ev evs' where evs: "evs = ev # evs'" and
    ev: "event_matches (request_frame kind corr stageID dl traceID (q, True)) ev" and
    rest: "list_all2 event_matches (map (request_frame kind corr stageID dl traceID)
      (map (\<lambda>q. (q, True)) ps @ [(p, False)])) evs'" by (auto simp: list_all2_Cons1)
  have len: "length body + length q \<le> 2 ^ 24" using Cons.prems(4) by simp
  from request_event_part [OF ev assms(2,3) Cons.prems(2,3) len, of ops hh] obtain a where
    a: "as_body a = body @ q" "as_eventKind a = kind" "StageID (as_message a) = stageID"
      "DeadlineNS (as_message a) = dl" "TraceID (as_message a) = traceID" and
    h: "handle_event ops hh table now ev rt w = Some (None, rt\<lparr>assemblies := AList.update corr a (assemblies rt)\<rparr>, w)"
    by auto
  let ?rt = "rt\<lparr>assemblies := AList.update corr a (assemblies rt)\<rparr>"
  have acc: "assembly_accepts ?rt kind corr stageID dl traceID (body @ q)"
    using a by (simp add: assembly_accepts_def AList.update_Some_unfold AList.update_conv')
  have "evs' \<noteq> []" using rest by auto
  from Cons.IH [OF rest _ acc] Cons.prems(2,4) h show ?case
    unfolding evs using \<open>evs' \<noteq> []\<close> by (simp add: AList.delete_update_same)
qed

section \<open>Properties of the runtime\<close>

text \<open>
  C4. The invariant of the serving loop, in every reachable state, whatever the host sends
  and however the handler goroutines interleave: at most 16 assemblies and 16 jobs, no
  correlation in both; every assembled body is at most 16 MiB and belongs to a valid invoke of
  the stage its kind is bound to; every job carries its own correlation, stage and cancel
  flag; the jobs are exactly the requests whose goroutine runs or whose result waits in the
  channel; and what waits there is a valid status, with a body only when it is OK.
\<close>

theorem runtime_invariant:
  assumes "runtime_reach ops handler table (p, rt, w)"
  shows "rt_inv table rt"
  using runtime_reach_inv [OF assms] by simp

text \<open>
  A finished handler never blocks: whenever a goroutine has its answer, the channel \<open>done\<close>
  has room for it, so no goroutine is left behind and the send in \<open>runHandler\<close> needs no select.
\<close>

theorem done_never_blocks:
  assumes "runtime_reach ops handler table (p, rt, w)" and "goroutines rt = gs @ Returning work ret # gs'"
  shows "length (results rt) < moduleMaxInFlight \<and>
    runtime_step ops handler table (p, rt, w)
      (p, rt\<lparr>goroutines := gs @ gs', results := results rt @ [runHandler (flags rt) now work ret]\<rparr>, w)"
proof -
  have inv: "rt_inv table rt" using runtime_reach_inv [OF assms(1)] by simp
  then have "size (mset (map snd (jobs rt))) = size (works rt)" by (simp add: rt_inv_def)
  then have "length (goroutines rt) + length (results rt) \<le> moduleMaxInFlight"
    using inv by (simp add: works_def rt_inv_def jobs_inv_def)
  then have room: "length (results rt) < moduleMaxInFlight" using assms(2) by simp
  show ?thesis by (rule conjI [OF room runtime_step.deliver [OF assms(2) room]])
qed

text \<open>
  C22. A stopping module stops. Once the context has ended and the loop waits for its handlers,
  if the handler returns, every run of its steps is finite: after n steps it is either still
  waiting, n is at most 48 and another step is possible, or it has returned without error and
  with no job left.
\<close>

theorem stopping_terminates:
  assumes "runtime_reach ops (Some h) table (Stopping, rt, w)" and "\<And>i c body hs. h i c body hs \<noteq> None"
    and "(runtime_step ops (Some h) table ^^ n) (Stopping, rt, w) (p, rt', w')"
  shows "(p = Stopping \<and> n \<le> 48 \<and> (\<exists>s. runtime_step ops (Some h) table (p, rt', w') s)) \<or>
    (p = Stopped None \<and> jobs rt' = [])"
proof -
  have inv: "rt_inv table rt" using runtime_reach_inv [OF assms(1)] by simp
  have "rt_inv table rt' \<and> ((p = Stopping \<and> n + steps_left rt' \<le> steps_left rt) \<or> (p = Stopped None \<and> jobs rt' = []))"
    using assms(3)
  proof (induction n arbitrary: p rt' w')
    case 0
    then show ?case using inv by simp
  next
    case (Suc n)
    then obtain q rt1 w1 where path: "(runtime_step ops (Some h) table ^^ n) (Stopping, rt, w) (q, rt1, w1)" and
      s: "runtime_step ops (Some h) table (q, rt1, w1) (p, rt', w')" by auto
    note ih = Suc.IH [OF path]
    then have "rt_inv table rt'" using runtime_step_inv [OF s] by simp
    moreover have "q = Stopping"
      using ih s stopped_no_step [of ops "Some h" table None rt1 w1 "(p, rt', w')"] by auto
    ultimately show ?case
      using ih s stopping_step [of ops "Some h" table rt1 w1 "(p, rt', w')"] by auto
  qed
  moreover have "steps_left rt \<le> 49" by (rule steps_left_bound [OF inv])
  moreover have "0 < steps_left rt'" by (simp add: steps_left_def)
  ultimately show ?thesis using stopping_enabled [of table rt' h ops w'] assms(2) by auto
qed

text \<open>
  C23. A cancel reaches its job and no other. In a reachable state, a cancel event for a
  running correlation makes exactly the \<open>Cancelled()\<close> of its invocation true (besides those
  already cancelled), and whatever its handler then returns, the result sent for it is
  \<open>Cancelled\<close> without a body.
\<close>

theorem cancel_reaches_job:
  assumes "runtime_reach ops handler table (p, rt, w)" and "(corr, work) \<in> set (jobs rt)"
  shows "(\<forall>(c, other) \<in> set (jobs rt).
      flags (cancel_event corr rt) (wk_cancelled other) = (c = corr \<or> flags rt (wk_cancelled other))) \<and>
    Cancelled (flags (cancel_event corr rt)) now (wk_invocation work) \<and>
    runHandler (flags (cancel_event corr rt)) now work ret =
      \<lparr>rs_work = work, rs_body = [], rs_status = ModuleStatusCancelled\<rparr>"
proof -
  have "jobs_inv table (next_flag rt) (jobs rt)" using runtime_reach_inv [OF assms(1)] by (simp add: rt_inv_def)
  then have dist: "distinct (map fst (jobs rt))" "distinct (map (wk_cancelled \<circ> snd) (jobs rt))" and
    ok: "job_ok table (next_flag rt) corr work" using assms(2) by (auto simp: jobs_inv_def)
  have mp: "map_of (jobs rt) corr = Some work" using assms(2) dist(1) by (simp add: map_of_is_SomeI)
  have "wk_cancelled other = wk_cancelled work \<longleftrightarrow> c = corr" if "(c, other) \<in> set (jobs rt)" for c other
  proof
    assume "wk_cancelled other = wk_cancelled work"
    then have "(c, other) = (corr, work)"
      using dist(2) that assms(2) by (intro inj_onD [of "wk_cancelled \<circ> snd" "set (jobs rt)"]) (simp_all add: distinct_map)
    then show "c = corr" by simp
  next
    assume "c = corr"
    with that assms(2) dist(1) show "wk_cancelled other = wk_cancelled work" by (metis eq_key_imp_eq_value)
  qed
  then show ?thesis
    using ok by (auto simp: cancel_event_def mp Cancelled_def runHandler_def job_ok_def Let_def split: prod.splits)
qed

text \<open>
  C10. A request reaches its handler whole. If the frames of a request, as \<open>Call\<close> sends them,
  arrive one after the other under a correlation that is neither being assembled nor running,
  and there is room for an assembly and a job and the deadline has not passed, then nothing
  is sent, no assembly is left and exactly one new goroutine is started, with the whole
  request and the stage, deadline and trace of the request.
\<close>

theorem request_dispatched:
  assumes "list_all2 event_matches (request_fragments kind corr stageID dl traceID request cap) evs"
    and "stage_of table kind = stageID" and "stageID \<noteq> 0" and "0 < cap" and "length request \<le> 2 ^ 24"
    and "map_of (jobs rt) corr = None" and "map_of (assemblies rt) corr = None"
    and "length (assemblies rt) < moduleMaxInFlight" and "length (jobs rt) < moduleMaxInFlight"
    and "dl = 0 \<or> now < dl"
  shows "\<exists>work. serve_events ops True table now evs rt w =
      Some (None, rt\<lparr>jobs := jobs rt @ [(corr, work)], next_flag := Suc (next_flag rt),
        flags := (flags rt)(next_flag rt := False), goroutines := goroutines rt @ [Starting work request]\<rparr>, w) \<and>
    work = \<lparr>wk_eventKind = kind, wk_correlationID = corr,
      wk_invocation = \<lparr>inv_StageID = stageID, inv_DeadlineNS = dl, inv_TraceID = traceID,
        inv_cancelled = Some (next_flag rt)\<rparr>, wk_cancelled = next_flag rt\<rparr>"
proof -
  obtain ps p where fs: "fragments cap request = map (\<lambda>q. (q, True)) ps @ [(p, False)]"
    using fragments_more by blast
  then have req: "request = concat ps @ p" using fragments_concat [of cap request] by (simp add: comp_def)
  have acc: "assembly_accepts rt kind corr stageID dl traceID []"
    using assms(7,8) by (simp add: assembly_accepts_def)
  have len: "length [] + length (concat ps) + length p \<le> 2 ^ 24" using assms(5) req by simp
  from serve_parts [OF _ assms(2,3,6) acc len, of evs ops True now w] assms(1) fs req obtain msg where
    msg: "DeadlineNS msg = dl" "TraceID msg = traceID" "EventKind (Frame (last evs)) = kind"
      "CorrelationID (Frame (last evs)) = corr" and
    s: "serve_events ops True table now evs rt w =
      do { (e, rt, w) \<leftarrow> start_work ops True now (last evs) stageID msg request
             (rt\<lparr>assemblies := AList.delete corr (assemblies rt)\<rparr>) w; Some (e, rt, w) }"
    unfolding request_fragments_def by auto
  have "AList.delete corr (assemblies rt) = assemblies rt"
    using assms(7) by (simp add: map_of_eq_None_iff)
  moreover have "\<not> DeadlineExpired msg now" using assms(10) msg by (auto simp: DeadlineExpired_def)
  ultimately show ?thesis
    using s msg assms(6,9) by (simp add: start_work_def Let_def update_new new_work_def)
qed

text \<open>
  C38. A refused request is not remembered. When 16 assemblies are open, the first fragment of
  a request is answered with an internal error and leaves no trace; if an assembly has ended
  when its last fragment arrives, the handler is started with that fragment alone, as if it
  were the whole request.
\<close>

theorem refused_request_truncated:
  assumes "event_matches (request_frame kind corr stageID dl traceID (p, True)) ev"
    and "event_matches (request_frame kind corr stageID dl traceID (q, False)) ev'"
    and "stage_of table kind = stageID" and "stageID \<noteq> 0" and "length p + length q \<le> 2 ^ 24"
    and "map_of (jobs rt) corr = None" and "map_of (assemblies rt) corr = None"
    and "length (assemblies rt) = moduleMaxInFlight" and "length (jobs rt) < moduleMaxInFlight"
    and "dl = 0 \<or> now < dl" and "a \<in> set (assemblies rt)"
  defines "later \<equiv> rt\<lparr>assemblies := AList.delete (fst a) (assemblies rt)\<rparr>"
  shows "handle_event ops True table now ev rt w =
      reply_then ops kind corr stageID traceID ModuleStatusInternal [] rt w \<and>
    (\<exists>work rt'. handle_event ops True table now ev' later w = Some (None, rt', w) \<and>
      wk_correlationID work = corr \<and> goroutines rt' = goroutines rt @ [Starting work q])"
proof
  have "length p \<le> 2 ^ 24" using assms(5) by simp
  note f = request_frame_read [OF assms(1,4) this]
  from f(4) obtain msg where dec: "DecodeModuleMessage (Payload ev) = Inr msg" and
    msg: "Operation msg = ModuleOpInvoke" "StageID msg = stageID" "TraceID msg = traceID" by blast
  have "\<not> request_invalid stageID (Inr msg) ev rt"
    using assms(4,6,7) msg f(2,3) by (simp add: request_invalid_def)
  then show "handle_event ops True table now ev rt w =
      reply_then ops kind corr stageID traceID ModuleStatusInternal [] rt w"
    using assms(3,7,8) msg f(1-3) by (simp add: handle_event_def request_flags_def request_event_def Let_def dec)
  have "map_of (assemblies later) corr = None"
    using assms(7) by (simp add: later_def AList.delete_conv')
  moreover have "length (assemblies later) < moduleMaxInFlight"
  proof -
    have "length (AList.delete (fst a) (assemblies rt)) < length (assemblies rt)"
      unfolding AList.delete_eq by (rule length_filter_less [OF assms(11)]) (simp add: case_prod_beta)
    then show ?thesis using assms(8) by (simp add: later_def)
  qed
  ultimately have acc: "assembly_accepts later kind corr stageID dl traceID []" by (simp add: assembly_accepts_def)
  have jobs: "map_of (jobs later) corr = None" "length (jobs later) < moduleMaxInFlight"
    using assms(6,9) by (simp_all add: later_def)
  have "length [] + length q \<le> 2 ^ 24" using assms(5) by simp
  from request_event_part [OF assms(2,3,4) jobs(1) acc this, of ops True] obtain m where
    m: "DeadlineNS m = dl" "handle_event ops True table now ev' later w =
      start_work ops True now ev' stageID m q (later\<lparr>assemblies := AList.delete corr (assemblies later)\<rparr>) w" by auto
  have "\<not> DeadlineExpired m now" using assms(10) m by (auto simp: DeadlineExpired_def)
  moreover have "CorrelationID (Frame ev') = corr"
    using assms(2) by (simp add: event_matches_def request_frame_def outgoing_def)
  ultimately show "\<exists>work rt'. handle_event ops True table now ev' later w = Some (None, rt', w) \<and>
      wk_correlationID work = corr \<and> goroutines rt' = goroutines rt @ [Starting work q]"
    using m(2) jobs
    by (intro exI [of _ "new_work ev' stageID m (next_flag rt)"])
      (simp add: start_work_def Let_def new_work_def later_def)
qed

section \<open>Concrete runs\<close>

definition event_of :: "outgoing \<Rightarrow> event" where
  "event_of out = (case out of (fl, kind, corr, p) \<Rightarrow>
     \<lparr>Frame = zero_frame\<lparr>HdrFlags := fl, EventKind := kind, CorrelationID := corr\<rparr>, Payload = p\<rparr>)"

lemma event_of_matches [simp]: "event_matches out (event_of out)"
  by (cases out) (simp add: event_matches_def event_of_def)

lemma events_of_match [simp]: "list_all2 event_matches outs (map event_of outs)"
  by (induction outs) simp_all

definition sample_ops :: "event \<Rightarrow> unit bus_ops" where
  \<comment> \<open>a bus that delivers the same event again and again and accepts every reply\<close>
  "sample_ops ev = \<lparr>op_Poll = (\<lambda>w. Some (Polled ev, w)),
     op_ReplyFragment = (\<lambda>_ _ _ _ w. Some (None, w)), op_RequestFragment = (\<lambda>_ _ _ _ w. Some (None, w)),
     op_Cancel = (\<lambda>_ _ w. Some (None, w)), op_Heartbeat = (\<lambda>_ w. Some w), op_EpochChanged = (\<lambda>_. Some False),
     op_moduleInlineBudget = (\<lambda>_. 48), op_clock = (\<lambda>w. (5, w)), op_done = (\<lambda>_. False),
     op_wait = (\<lambda>w. (False, w)), op_now = (\<lambda>_. 5), op_sleep = (\<lambda>w. w)\<rparr>"

definition sample_table :: stages where "sample_table = [(10753, 1)]"

definition sample_echo :: "unit module_handler" where
  "sample_echo = (\<lambda>i c body h. Some ((body, ModuleStatusOK), h))"

definition sample_work :: module_work where
  "sample_work = \<lparr>wk_eventKind = 10753, wk_correlationID = 7,
     wk_invocation = \<lparr>inv_StageID = 1, inv_DeadlineNS = 0, inv_TraceID = 9, inv_cancelled = Some 0\<rparr>,
     wk_cancelled = 0\<rparr>"

definition sample_event :: event where
  "sample_event = event_of (request_frame 10753 7 1 0 9 ([1, 2, 3], False))"

definition sample_running :: "unit runtime" where
  "sample_running = (initial_runtime ())\<lparr>jobs := [(7, sample_work)], next_flag := 1,
     goroutines := [Starting sample_work [1, 2, 3]]\<rparr>"

lemma sample_reach:
  "runtime_reach (sample_ops sample_event) (Some sample_echo) sample_table (Draining, sample_running, ())"
proof -
  have ev: "event_matches (request_frame 10753 7 1 0 9 ([1, 2, 3], False)) sample_event"
    by (simp add: sample_event_def)
  have acc: "assembly_accepts (initial_runtime ()) 10753 7 1 0 9 []"
    by (simp add: assembly_accepts_def initial_runtime_def)
  have st: "stage_of sample_table 10753 = 1" by (simp add: stage_of_def sample_table_def)
  from request_event_part [OF ev st _ _ acc, of "sample_ops sample_event" True] obtain msg where
    msg: "DeadlineNS msg = 0" "TraceID msg = 9" and
    h: "handle_event (sample_ops sample_event) True sample_table 5 sample_event (initial_runtime ()) () =
      start_work (sample_ops sample_event) True 5 sample_event 1 msg [1, 2, 3]
        ((initial_runtime ())\<lparr>assemblies := AList.delete 7 (assemblies (initial_runtime ()))\<rparr>) ()"
    by (auto simp: initial_runtime_def)
  have fr: "EventKind (Frame sample_event) = 10753" "CorrelationID (Frame sample_event) = 7"
    using ev by (auto simp: event_matches_def request_frame_def outgoing_def split: if_splits)
  have "handle_event (sample_ops sample_event) True sample_table 5 sample_event (initial_runtime ()) () =
      Some (None, sample_running, ())"
    unfolding h using msg fr
    by (simp add: start_work_def Let_def DeadlineExpired_def new_work_def initial_runtime_def sample_running_def
        sample_work_def fun_upd_idem)
  then have s: "serve_once (sample_ops sample_event) (Some sample_echo \<noteq> None) sample_table (initial_runtime ()) () =
      Some (Draining, sample_running, ())"
    by (simp add: serve_once_def sample_ops_def)
  have r: "runtime_reach (sample_ops sample_event) (Some sample_echo) sample_table (Serving, initial_runtime (), ())"
    by (rule runtime_reach.step [OF runtime_reach.start runtime_step.drained]) (simp add: initial_runtime_def)
  show ?thesis by (rule runtime_reach.step [OF r runtime_step.serve [OF s]])
qed

definition sample_answered :: "unit runtime" where
  "sample_answered = sample_running\<lparr>goroutines := [Returning sample_work ([1, 2, 3], ModuleStatusOK)]\<rparr>"

lemma sample_answered_reach:
  "runtime_reach (sample_ops sample_event) (Some sample_echo) sample_table (Draining, sample_answered, ())"
proof -
  have "runtime_step (sample_ops sample_event) (Some sample_echo) sample_table (Draining, sample_running, ())
      (Draining, sample_running\<lparr>goroutines := [] @ Returning sample_work ([1, 2, 3], ModuleStatusOK) # [],
        handler_state := ()\<rparr>, ())"
    by (rule runtime_step.handle [where h = sample_echo and now = 5 and body = "[1, 2, 3]"])
      (simp_all add: sample_running_def sample_echo_def)
  moreover have "sample_running\<lparr>goroutines := [] @ Returning sample_work ([1, 2, 3], ModuleStatusOK) # [],
      handler_state := ()\<rparr> = sample_answered" by (simp add: sample_answered_def)
  ultimately show ?thesis using runtime_reach.step [OF sample_reach] by metis
qed

theorem runtime_invariant_witness: "rt_inv sample_table sample_running \<and> jobs sample_running = [(7, sample_work)]"
  using runtime_invariant [OF sample_reach] by (simp add: sample_running_def)

theorem done_never_blocks_witness:
  "runtime_step (sample_ops sample_event) (Some sample_echo) sample_table (Draining, sample_answered, ())
    (Draining, sample_answered\<lparr>goroutines := [],
      results := [\<lparr>rs_work = sample_work, rs_body = [1, 2, 3], rs_status = ModuleStatusOK\<rparr>]\<rparr>, ())"
proof -
  have g: "goroutines sample_answered = [] @ Returning sample_work ([1, 2, 3], ModuleStatusOK) # []"
    by (simp add: sample_answered_def)
  have "results sample_answered = []" "runHandler (flags sample_answered) 5 sample_work ([1, 2, 3], ModuleStatusOK) =
      \<lparr>rs_work = sample_work, rs_body = [1, 2, 3], rs_status = ModuleStatusOK\<rparr>"
    by (simp_all add: sample_answered_def sample_running_def initial_runtime_def runHandler_def validModuleStatus_def
        sample_work_def)
  then show ?thesis using done_never_blocks [OF sample_answered_reach g, of 5] by simp
qed

theorem cancel_reaches_job_witness:
  "Cancelled (flags (cancel_event 7 sample_running)) 5 (wk_invocation sample_work)"
proof -
  have "(7, sample_work) \<in> set (jobs sample_running)" by (simp add: sample_running_def)
  from cancel_reaches_job [OF sample_reach this, of 5] show ?thesis by simp
qed

theorem stopping_terminates_witness:
  "\<exists>rt. runtime_reach client_ops (Some sample_echo) sample_table (Stopping, rt, sample_world\<lparr>cw_done := True\<rparr>) \<and>
    (\<forall>n p rt' w'. (runtime_step client_ops (Some sample_echo) sample_table ^^ n)
        (Stopping, rt, sample_world\<lparr>cw_done := True\<rparr>) (p, rt', w') \<longrightarrow> p = Stopping \<and> n \<le> 48 \<or> p = Stopped None)"
proof -
  let ?w = "sample_world\<lparr>cw_done := True\<rparr>" and ?rt = "cancel_jobs (initial_runtime ())"
  have s: "serve_once client_ops (Some sample_echo \<noteq> None) sample_table (initial_runtime ()) ?w = Some (Stopping, ?rt, ?w)"
    by (simp add: serve_once_def client_ops_def)
  have "runtime_reach client_ops (Some sample_echo) sample_table (Serving, initial_runtime (), ?w)"
    by (rule runtime_reach.step [OF runtime_reach.start runtime_step.drained]) (simp add: initial_runtime_def)
  from runtime_reach.step [OF this runtime_step.serve [OF s]]
  have r: "runtime_reach client_ops (Some sample_echo) sample_table (Stopping, ?rt, ?w)" .
  have total: "sample_echo i c body hs \<noteq> None" for i c body hs by (simp add: sample_echo_def)
  show ?thesis using r stopping_terminates [OF r total] by blast
qed

theorem request_dispatched_witness:
  "\<exists>rt. serve_events client_ops True sample_table 5 (map event_of (request_fragments 10753 7 1 0 9 [1, 2, 3] 2))
      (initial_runtime ()) sample_world = Some (None, rt, sample_world) \<and>
    goroutines rt = [Starting sample_work [1, 2, 3]]"
  using request_dispatched [of 10753 7 1 0 9 "[1, 2, 3]" 2 "map event_of (request_fragments 10753 7 1 0 9 [1, 2, 3] 2)"
      sample_table "initial_runtime ()" 5 client_ops sample_world]
  by (simp add: stage_of_def sample_table_def initial_runtime_def sample_work_def)

definition sample_full :: "unit runtime" where
  "sample_full = (initial_runtime ())\<lparr>assemblies := map (\<lambda>n. (word_of_nat n, \<lparr>as_eventKind = 10753,
     as_message = invoke_message 1 0 9 0, as_body = []\<rparr>)) [100..<116]\<rparr>"

theorem refused_request_truncated_witness:
  "\<exists>rt' work. handle_event client_ops True sample_table 5 (event_of (request_frame 10753 7 1 0 9 ([3], False)))
      (sample_full\<lparr>assemblies := AList.delete 100 (assemblies sample_full)\<rparr>) sample_world = Some (None, rt', sample_world) \<and>
    goroutines rt' = [Starting work [3]]"
proof -
  have "(100, \<lparr>as_eventKind = 10753, as_message = invoke_message 1 0 9 0, as_body = []\<rparr>) \<in> set (assemblies sample_full)"
    by (simp add: sample_full_def upt_rec)
  moreover have "map_of (assemblies sample_full) 7 = None" "length (assemblies sample_full) = 16"
    "jobs sample_full = []" "goroutines sample_full = []"
    by (simp_all add: sample_full_def initial_runtime_def upt_rec)
  ultimately show ?thesis
    using refused_request_truncated [of 10753 7 1 0 9 "[1, 2]" "event_of (request_frame 10753 7 1 0 9 ([1, 2], True))" "[3]"
        "event_of (request_frame 10753 7 1 0 9 ([3], False))" sample_table sample_full 5
        "(100, \<lparr>as_eventKind = 10753, as_message = invoke_message 1 0 9 0, as_body = []\<rparr>)" client_ops sample_world]
    by (auto simp: stage_of_def sample_table_def)
qed

end
