(* ===== verification/Module_Handlers.thy ===== *)
theory Module_Handlers
  imports Learned_Store Proxy_Policy Go_Net Module_Runtime
begin

text \<open>
  The handlers of the sandbox module: \<open>server-go/modules/sandbox/module.go\<close> and the two
  proxy handlers of \<open>proxy_policy.go\<close>, with the request and response types of \<open>sandbox.go\<close>
  and \<open>proxy_policy.go\<close>. Requests are decoded from the parsed JSON text the way
  \<open>json.Unmarshal\<close> fills a struct: members by exact or case-folded name, the last one wins,
  \<open>null\<close> leaves a string as it is, another type is an error, unknown members are skipped.

  The state a handler threads is the file system and what the operating system will answer
  to the store operations to come. \<open>None\<close> is a panic. The table of lower-case mappings
  beyond ASCII, which \<open>strings.ToLower\<close> reads, stays the parameter \<open>uni\<close>.
\<close>

section \<open>Stages, requests and responses\<close>

definition EventObserve :: u32 where [simp]: "EventObserve = 10753"
definition StageObserve :: u32 where [simp]: "StageObserve = 1"
definition EventLoad :: u32 where [simp]: "EventLoad = 10754"
definition StageLoad :: u32 where [simp]: "StageLoad = 2"
definition EventProxyRequest :: u32 where [simp]: "EventProxyRequest = 10755"
definition StageProxyRequest :: u32 where [simp]: "StageProxyRequest = 3"
definition EventProxyAddress :: u32 where [simp]: "EventProxyAddress = 10756"
definition StageProxyAddress :: u32 where [simp]: "StageProxyAddress = 4"

record ObserveRequest =
  oq_GitRoot :: string
  oq_Command :: string

record ObserveResponse =
  or_Parsed :: nat
  or_Recorded :: nat
  or_Packages :: "string list option"   \<comment> \<open>\<open>None\<close> is the nil slice\<close>

record LoadRequest =
  lq_GitRoot :: string

record LoadResponse =
  lr_Packages :: "string list option"

record ProxyRequestPolicyRequest =
  pq_Line :: string
  pq_Allowlist :: "string option"

record ProxyRequestPolicyResponse =
  pr_Kind :: nat
  pr_Host :: string
  pr_Port :: int
  pr_Allowed :: bool
  pr_ForwardHead :: string

record ProxyAddressPolicyRequest =
  aq_IP :: string

record ProxyAddressPolicyResponse =
  ar_Blocked :: bool

section \<open>Decoding requests\<close>

fun fold_key :: "string \<Rightarrow> string" where
  \<comment> \<open>\<open>foldName\<close> of \<open>encoding/json\<close>, as far as it meets ASCII: letters upper case, and the
      long s (U+017F) and the Kelvin sign (U+212A) to the letters they fold to\<close>
  "fold_key [] = []"
| "fold_key (c # s) =
    (if c = CHR 0xC5 \<and> HasPrefix s [CHR 0xBF] then CHR ''S'' # fold_key (drop 1 s)
     else if c = CHR 0xE2 \<and> HasPrefix s [CHR 0x84, CHR 0xAA] then CHR ''K'' # fold_key (drop 2 s)
     else (if CHR ''a'' \<le> c \<and> c \<le> CHR ''z'' then char_of (ord c - 32) else c) # fold_key s)"

definition key_is :: "string \<Rightarrow> string \<Rightarrow> bool" where
  "key_is name key \<longleftrightarrow> key = name \<or> fold_key key = fold_key name"

fun decode_field :: "string \<Rightarrow> (string \<times> json) list \<Rightarrow> string \<Rightarrow> string option" where
  \<comment> \<open>a field of type \<open>string\<close>\<close>
  "decode_field name [] cur = Some cur"
| "decode_field name ((key, v) # ms) cur =
    (if \<not> key_is name key then decode_field name ms cur
     else case v of
       JStr s \<Rightarrow> decode_field name ms s
     | JNull \<Rightarrow> decode_field name ms cur
     | _ \<Rightarrow> None)"

fun decode_pointer :: "string \<Rightarrow> (string \<times> json) list \<Rightarrow> string option \<Rightarrow> string option option" where
  \<comment> \<open>a field of type \<open>*string\<close>\<close>
  "decode_pointer name [] cur = Some cur"
| "decode_pointer name ((key, v) # ms) cur =
    (if \<not> key_is name key then decode_pointer name ms cur
     else case v of
       JStr s \<Rightarrow> decode_pointer name ms (Some s)
     | JNull \<Rightarrow> decode_pointer name ms None
     | _ \<Rightarrow> None)"

definition struct_members :: "byte list \<Rightarrow> (string \<times> json) list option" where
  \<comment> \<open>the members an object sets; \<open>null\<close> sets none\<close>
  "struct_members request =
    (case parse_json (to_string request) of
       Some (JObj ms) \<Rightarrow> Some ms
     | Some JNull \<Rightarrow> Some []
     | _ \<Rightarrow> None)"

definition Unmarshal_observe :: "byte list \<Rightarrow> ObserveRequest option" where
  "Unmarshal_observe request =
    do { ms \<leftarrow> struct_members request;
         root \<leftarrow> decode_field ''git_root'' ms [];
         command \<leftarrow> decode_field ''command'' ms [];
         Some \<lparr>oq_GitRoot = root, oq_Command = command\<rparr> }"

definition Unmarshal_load :: "byte list \<Rightarrow> LoadRequest option" where
  "Unmarshal_load request =
    do { ms \<leftarrow> struct_members request;
         root \<leftarrow> decode_field ''git_root'' ms [];
         Some \<lparr>lq_GitRoot = root\<rparr> }"

definition Unmarshal_proxy_request :: "byte list \<Rightarrow> ProxyRequestPolicyRequest option" where
  "Unmarshal_proxy_request request =
    do { ms \<leftarrow> struct_members request;
         line \<leftarrow> decode_field ''line'' ms [];
         allowlist \<leftarrow> decode_pointer ''allowlist'' ms None;
         Some \<lparr>pq_Line = line, pq_Allowlist = allowlist\<rparr> }"

definition Unmarshal_proxy_address :: "byte list \<Rightarrow> ProxyAddressPolicyRequest option" where
  "Unmarshal_proxy_address request =
    do { ms \<leftarrow> struct_members request;
         ip \<leftarrow> decode_field ''ip'' ms [];
         Some \<lparr>aq_IP = ip\<rparr> }"

section \<open>Encoding responses\<close>

definition observe_json :: "ObserveResponse \<Rightarrow> json" where
  "observe_json r =
    JObj [(''parsed'', JNum (show_nat (or_Parsed r))), (''recorded'', JNum (show_nat (or_Recorded r))),
      (''packages'', slice_json (or_Packages r))]"

definition load_json :: "LoadResponse \<Rightarrow> json" where
  "load_json r = JObj [(''packages'', slice_json (lr_Packages r))]"

definition proxy_request_json :: "ProxyRequestPolicyResponse \<Rightarrow> json" where
  "proxy_request_json r =
    JObj ([(''kind'', JNum (show_nat (pr_Kind r))), (''host'', JStr (pr_Host r)),
      (''port'', JNum (show_int (pr_Port r))), (''allowed'', JBool (pr_Allowed r))] @
      (if pr_ForwardHead r = [] then [] else [(''forward_head'', JStr (pr_ForwardHead r))]))"

definition proxy_address_json :: "ProxyAddressPolicyResponse \<Rightarrow> json" where
  "proxy_address_json r = JObj [(''blocked'', JBool (ar_Blocked r))]"

definition encode :: "json \<Rightarrow> byte list \<times> u16" where
  "encode v =
    (let encoded = to_bytes (print_json v)
     in if (word_of_nat (length encoded) :: u32) > ModuleMessageMaxBody then ([], ModuleStatusInternal)
        else (encoded, ModuleStatusOK))"

definition go_slice :: "string list \<Rightarrow> string list option" where
  \<comment> \<open>a slice that \<open>append\<close> built up from nil\<close>
  "go_slice xs = (if xs = [] then None else Some xs)"

section \<open>The handlers\<close>

type_synonym handler_state = "files \<times> (nat \<Rightarrow> os_outcome)"

definition handleObserve ::
  "store \<Rightarrow> bool \<Rightarrow> byte list \<Rightarrow> handler_state \<Rightarrow> ((byte list \<times> u16) \<times> handler_state) option" where
  "handleObserve s cancelled request st =
    (case Unmarshal_observe request of
       None \<Rightarrow> Some (([], ModuleStatusInvalidRequest), st)
     | Some decoded \<Rightarrow>
        if oq_GitRoot decoded = [] then Some (([], ModuleStatusInvalidRequest), st)
        else if cancelled then Some (([], ModuleStatusCancelled), st)
        else
          let parsed = ParseApt (oq_Command decoded) (int LearnMax);
              response = \<lparr>or_Parsed = length parsed, or_Recorded = 0, or_Packages = go_slice parsed\<rparr>
          in if length parsed > 0 then
               (case store_Record s (snd st 0) (fst st) (oq_GitRoot decoded) parsed of
                  None \<Rightarrow> None
                | Some (RecordFailed, fs) \<Rightarrow> Some (([], ModuleStatusInternal), fs, snd st \<circ> Suc)
                | Some (Recorded added, fs) \<Rightarrow>
                    Some (encode (observe_json (response\<lparr>or_Recorded := added\<rparr>)), fs, snd st \<circ> Suc))
             else Some (encode (observe_json response), st))"

definition handleLoad ::
  "store \<Rightarrow> bool \<Rightarrow> byte list \<Rightarrow> handler_state \<Rightarrow> ((byte list \<times> u16) \<times> handler_state) option" where
  "handleLoad s cancelled request st =
    (case Unmarshal_load request of
       None \<Rightarrow> Some (([], ModuleStatusInvalidRequest), st)
     | Some decoded \<Rightarrow>
        if lq_GitRoot decoded = [] then Some (([], ModuleStatusInvalidRequest), st)
        else if cancelled then Some (([], ModuleStatusCancelled), st)
        else Some (encode (load_json
               \<lparr>lr_Packages = go_slice (store_Load s (snd st 0) (fst st) (lq_GitRoot decoded) (int LearnMax))\<rparr>),
             fst st, snd st \<circ> Suc))"

definition proxy_policy :: "(nat \<Rightarrow> nat) \<Rightarrow> string \<Rightarrow> string \<Rightarrow> ProxyRequestPolicyResponse" where
  \<comment> \<open>the response for a request line and an allowlist\<close>
  "proxy_policy uni line allowlist =
    (let (kind, host, port) = classifyProxyRequestLine line;
         response = \<lparr>pr_Kind = kind, pr_Host = host, pr_Port = port,
           pr_Allowed = (kind = ProxyRequestConnect \<or> kind = ProxyRequestAbsolute) \<and>
             proxyPortAllowed port \<and> proxyHostAllowed host allowlist,
           pr_ForwardHead = []\<rparr>
     in if pr_Allowed response \<and> kind = ProxyRequestAbsolute then
          (case rewriteProxyHead uni line of
             Some head \<Rightarrow> response\<lparr>pr_ForwardHead := head\<rparr>
           | None \<Rightarrow> response\<lparr>pr_ForwardHead := [], pr_Allowed := False\<rparr>)
        else response)"

definition handleProxyRequest :: "(nat \<Rightarrow> nat) \<Rightarrow> bool \<Rightarrow> byte list \<Rightarrow> byte list \<times> u16" where
  "handleProxyRequest uni cancelled request =
    (case Unmarshal_proxy_request request of
       None \<Rightarrow> ([], ModuleStatusInvalidRequest)
     | Some decoded \<Rightarrow>
        if cancelled then ([], ModuleStatusCancelled)
        else encode (proxy_request_json (proxy_policy uni (pq_Line decoded)
          (case pq_Allowlist decoded of Some allowlist \<Rightarrow> allowlist | None \<Rightarrow> DefaultPackageAllowlist))))"

definition handleProxyAddress :: "bool \<Rightarrow> byte list \<Rightarrow> byte list \<times> u16" where
  "handleProxyAddress cancelled request =
    (case Unmarshal_proxy_address request of
       None \<Rightarrow> ([], ModuleStatusInvalidRequest)
     | Some decoded \<Rightarrow>
        if cancelled then ([], ModuleStatusCancelled)
        else encode (proxy_address_json \<lparr>ar_Blocked = proxyIPBlocked (ParseIP (aq_IP decoded))\<rparr>))"

definition NewHandler :: "(nat \<Rightarrow> nat) \<Rightarrow> store option \<Rightarrow> handler_state module_handler" where
  "NewHandler uni store invocation cancelled request st =
    (let stage = inv_StageID invocation in
     if stage = StageObserve then
       (case store of None \<Rightarrow> Some (([], ModuleStatusInternal), st)
        | Some s \<Rightarrow> handleObserve s cancelled request st)
     else if stage = StageLoad then
       (case store of None \<Rightarrow> Some (([], ModuleStatusInternal), st)
        | Some s \<Rightarrow> handleLoad s cancelled request st)
     else if stage = StageProxyRequest then Some (handleProxyRequest uni cancelled request, st)
     else if stage = StageProxyAddress then Some (handleProxyAddress cancelled request, st)
     else Some (([], ModuleStatusInvalidRequest), st))"

section \<open>Facts about encoding\<close>

lemma digit_zero: "n < 10 \<Longrightarrow> char_of (48 + n) = CHR ''0'' \<longleftrightarrow> n = (0::nat)"
  using ord_eq_iff [of "char_of (48 + n)" "CHR ''0''"] by simp

lemma show_nat_hd: "hd (show_nat n) = CHR ''0'' \<longleftrightarrow> n = 0"
proof (induction n rule: show_nat.induct)
  case (1 n)
  show ?case
  proof (cases "n < 10")
    case True
    then show ?thesis by (simp add: show_nat.simps digit_zero)
  next
    case False
    then have "hd (show_nat n) = hd (show_nat (n div 10))"
      using show_nat_digits [of "n div 10"] by (simp add: show_nat.simps [of n])
    then show ?thesis using 1 False by auto
  qed
qed

lemma show_nat_ok: "num_ok (show_nat n)"
proof -
  have "show_nat 0 = ''0''" using digit_zero [of 0] by (simp add: show_nat.simps [of 0])
  then show ?thesis using show_nat_digits [of n] show_nat_hd [of n] by (simp add: num_ok_def)
qed

lemma encode_OK:
  "encode v = (body, ModuleStatusOK) \<Longrightarrow> body = to_bytes (print_json v)"
  by (auto simp: encode_def Let_def split: if_splits)

lemma encode_small:
  "length (print_json v) \<le> 2 ^ 24 \<Longrightarrow> encode v = (to_bytes (print_json v), ModuleStatusOK)"
  by (simp add: encode_def word_less_nat_alt unat_of_nat)

lemma encode_cases:
  obtains "encode v = (to_bytes (print_json v), ModuleStatusOK)"
      "(word_of_nat (length (print_json v)) :: u32) \<le> ModuleMessageMaxBody"
  | "encode v = ([], ModuleStatusInternal)"
  by (cases "(word_of_nat (length (print_json v)) :: u32) \<le> ModuleMessageMaxBody") (auto simp: encode_def)

lemma response_parses:
  assumes "encode (JObj ms) = (body, ModuleStatusOK)"
    and "list_all (\<lambda>m. print_ok (snd m) \<and> jdepth (snd m) \<le> 1) ms"
  shows "parse_json (to_string body) = Some (sanitized (JObj ms))"
proof -
  have "fold max (map (jdepth \<circ> snd) ms) 0 \<le> 1" using assms(2) by (simp only: fold_max_le) (auto simp: list_all_iff)
  then have "jdepth (JObj ms) \<le> maxNestingDepth" by (simp add: comp_def maxNestingDepth_def)
  moreover have "print_ok (JObj ms)" using assms(2) by (auto simp: list_all_iff)
  ultimately show ?thesis using encode_OK [OF assms(1)] parse_print [of "JObj ms"] by simp
qed

lemma ascii_names: "sanitize ''parsed'' = ''parsed''" "sanitize ''recorded'' = ''recorded''"
  "sanitize ''packages'' = ''packages''" "sanitize ''kind'' = ''kind''" "sanitize ''host'' = ''host''"
  "sanitize ''port'' = ''port''" "sanitize ''allowed'' = ''allowed''" "sanitize ''blocked'' = ''blocked''"
  "sanitize ''forward_head'' = ''forward_head''" "sanitize ''ip'' = ''ip''"
  by (simp_all add: sanitize_ascii ascii_iff)

lemma members_print:
  "list_all (\<lambda>m. print_ok (snd m) \<and> jdepth (snd m) \<le> 1)
     [(a, JNum (show_nat i)), (b, JNum (show_nat j)), (c, slice_json xs)]"
  "list_all (\<lambda>m. print_ok (snd m) \<and> jdepth (snd m) \<le> 1) [(c, slice_json xs)]"
  "list_all (\<lambda>m. print_ok (snd m) \<and> jdepth (snd m) \<le> 1) [(a, JBool f)]"
  "0 \<le> p \<Longrightarrow> list_all (\<lambda>m. print_ok (snd m) \<and> jdepth (snd m) \<le> 1)
     ([(a, JNum (show_nat i)), (b, JStr h), (c, JNum (show_int p)), (d, JBool f)] @
      (if x then [] else [(e, JStr g)]))"
  by (simp_all add: show_nat_ok slice_print show_int_def del: One_nat_def)

lemma policy_port: "0 \<le> pr_Port (proxy_policy uni line allowlist)"
proof -
  obtain kind host port where c: "classifyProxyRequestLine line = (kind, host, port)" by (cases "classifyProxyRequestLine line")
  then have "0 \<le> port" using classified_clean [OF c] by (auto split: if_splits)
  then show ?thesis using c by (auto simp: proxy_policy_def Let_def split: option.splits)
qed

section \<open>What a handler answers\<close>

definition response_value :: "(nat \<Rightarrow> nat) \<Rightarrow> json \<Rightarrow> bool" where
  "response_value uni v \<longleftrightarrow> (\<exists>r. v = observe_json r) \<or> (\<exists>l. v = load_json l) \<or>
     (\<exists>a. v = proxy_address_json a) \<or> (\<exists>line al. v = proxy_request_json (proxy_policy uni line al))"

definition answer :: "(nat \<Rightarrow> nat) \<Rightarrow> bool \<Rightarrow> byte list \<times> u16 \<Rightarrow> bool" where
  \<comment> \<open>an encoded response, unless cancelled, or a failure\<close>
  "answer uni c ret \<longleftrightarrow> (\<exists>v. ret = encode v \<and> \<not> c \<and> response_value uni v) \<or>
     fst ret = [] \<and> snd ret \<in> {ModuleStatusCancelled, ModuleStatusInvalidRequest, ModuleStatusInternal}"

lemma answer_encode [intro!]: "\<not> c \<Longrightarrow> response_value uni v \<Longrightarrow> answer uni c (encode v)"
  and answer_failure [simp]:
    "status \<in> {ModuleStatusCancelled, ModuleStatusInvalidRequest, ModuleStatusInternal} \<Longrightarrow>
      answer uni c ([], status)"
  by (auto simp: answer_def)

lemma response_value_intros [simp]: "response_value uni (observe_json r)" "response_value uni (load_json l)"
  "response_value uni (proxy_address_json a)" "response_value uni (proxy_request_json (proxy_policy uni line al))"
  by (auto simp: response_value_def)

lemma response_object:
  assumes "encode v = (body, ModuleStatusOK)" and "response_value uni v"
  shows "\<exists>ms. parse_json (to_string body) = Some (JObj ms)"
  using assms response_parses [OF _ members_print(1)] response_parses [OF _ members_print(2)]
    response_parses [OF _ members_print(3)] response_parses [OF _ members_print(4) [OF policy_port]]
  by (fastforce simp: response_value_def observe_json_def load_json_def proxy_address_json_def proxy_request_json_def)

lemma NewHandler_answers:
  assumes "NewHandler uni store invocation c request st = Some (ret, st')"
  shows "answer uni c ret" and "c \<or> inv_StageID invocation \<noteq> StageObserve \<Longrightarrow> fst st' = fst st"
proof -
  have o: "answer uni c ret" "c \<Longrightarrow> st' = st" if "handleObserve s c request st = Some (ret, st')" for s
    using that by (auto simp: handleObserve_def Let_def split: option.splits if_splits record_result.splits)
  have l: "answer uni c ret \<and> fst st' = fst st" if "handleLoad s c request st = Some (ret, st')" for s
    using that by (auto simp: handleLoad_def split: option.splits if_splits)
  have "answer uni c (handleProxyRequest uni c request)" "answer uni c (handleProxyAddress c request)"
    by (auto simp: handleProxyRequest_def handleProxyAddress_def split: option.splits)
  then show "answer uni c ret" "c \<or> inv_StageID invocation \<noteq> StageObserve \<Longrightarrow> fst st' = fst st"
    using assms o l by (auto simp: NewHandler_def Let_def split: option.splits if_splits)
qed

section \<open>Properties of the handlers\<close>

text \<open>
  C21. The interface every handler keeps, whatever the request bytes, the disk and the operating
  system: a returned status is one of the four the module uses and valid, a failure carries no
  body, a body is within the message limit and is the text of a JSON object, a cancelled
  invocation is never answered OK and changes no file, and only the observe stage changes files.
\<close>

theorem handler_interface:
  assumes "NewHandler uni store invocation c request (fs, os) = Some ((body, status), fs', os')"
  shows "validModuleStatus status \<and>
    status \<in> {ModuleStatusOK, ModuleStatusCancelled, ModuleStatusInvalidRequest, ModuleStatusInternal} \<and>
    (if status = ModuleStatusOK then (\<exists>ms. parse_json (to_string body) = Some (JObj ms)) \<and>
       (word_of_nat (length body) :: u32) \<le> ModuleMessageMaxBody
     else body = []) \<and>
    (c \<longrightarrow> status \<noteq> ModuleStatusOK) \<and>
    (c \<or> inv_StageID invocation \<noteq> StageObserve \<longrightarrow> fs' = fs)"
proof -
  consider v where "encode v = (body, status)" "\<not> c" "response_value uni v"
    | "body = []" "status \<in> {ModuleStatusCancelled, ModuleStatusInvalidRequest, ModuleStatusInternal}"
    using NewHandler_answers(1) [OF assms] by (auto simp: answer_def)
  then show ?thesis
  proof cases
    case 1
    have "\<exists>ms. parse_json (to_string body) = Some (JObj ms)" if "status = ModuleStatusOK"
      using 1 that by (intro response_object [of v body uni]) simp_all
    then show ?thesis
      using 1 NewHandler_answers(2) [OF assms] by (cases rule: encode_cases [of v]) (auto simp: validModuleStatus_def)
  next
    case 2
    then show ?thesis using NewHandler_answers(2) [OF assms] by (auto simp: validModuleStatus_def)
  qed
qed

definition sample_invocation :: "u32 \<Rightarrow> module_invocation" where
  "sample_invocation stage = \<lparr>inv_StageID = stage, inv_DeadlineNS = 0, inv_TraceID = 7, inv_cancelled = None\<rparr>"

theorem handler_interface_witness:
  "\<exists>ms. parse_json (to_string (to_bytes (print_json (JObj [(''blocked'', JBool True)])))) = Some (JObj ms)"
proof -
  have "map_option fst (NewHandler id None (sample_invocation 4) False (to_bytes (print_json (JObj [(''ip'', JStr ''::1'')])))
      (Map.empty, \<lambda>_. sample_os)) = Some (to_bytes (print_json (JObj [(''blocked'', JBool True)])), ModuleStatusOK)"
    by code_simp
  then obtain st where "NewHandler id None (sample_invocation 4) False (to_bytes (print_json (JObj [(''ip'', JStr ''::1'')])))
      (Map.empty, \<lambda>_. sample_os) = Some ((to_bytes (print_json (JObj [(''blocked'', JBool True)])), ModuleStatusOK), st)"
    by auto
  then show ?thesis by (cases st) (use handler_interface in fastforce)
qed

text \<open>
  C35. The one way the module crashes on a request: a handler panics, and with it the process,
  exactly when an observe request with a project and a command that installs something meets a
  store file that is readable, within its bound, and the JSON text \<open>null\<close>.
\<close>

theorem handler_panics_iff:
  "NewHandler uni store invocation c request (fs, os) = None \<longleftrightarrow>
    inv_StageID invocation = StageObserve \<and> \<not> c \<and>
    (\<exists>s q raw. store = Some s \<and> Unmarshal_observe request = Some q \<and> oq_GitRoot q \<noteq> [] \<and>
      ParseApt (oq_Command q) (int LearnMax) \<noteq> [] \<and> stat_ok (os 0) \<and> read_ok (os 0) \<and>
      fs (store_path s) = Some raw \<and> raw \<noteq> [] \<and> length raw \<le> maxStoreBytes \<and> parse_json raw = Some JNull)"
proof -
  have valid: "filter packageValid (ParseApt cmd m) = ParseApt cmd m" for cmd m
    using ParseApt_inv [of m cmd] by (auto simp: found_inv_def filter_id_conv)
  have observe: "handleObserve s c request (fs, os) = None \<longleftrightarrow> \<not> c \<and> (\<exists>q. Unmarshal_observe request = Some q \<and>
      oq_GitRoot q \<noteq> [] \<and> store_Record s (os 0) fs (oq_GitRoot q) (ParseApt (oq_Command q) (int LearnMax)) = None)" for s
    by (auto simp: handleObserve_def Let_def store_Record_def split: option.splits record_result.splits)
  have "handleLoad s c request (fs, os) \<noteq> None" for s
    by (auto simp: handleLoad_def split: option.splits)
  then have "NewHandler uni store invocation c request (fs, os) = None \<longleftrightarrow>
      inv_StageID invocation = StageObserve \<and> (\<exists>s. store = Some s \<and> handleObserve s c request (fs, os) = None)"
    by (auto simp: NewHandler_def Let_def split: option.splits)
  then show ?thesis unfolding observe Record_panics_iff valid by auto
qed

text \<open>
  C3. What the proxy gets to hear, as the text of the response: \<open>allowed\<close> is true exactly when
  the line is a CONNECT or absolute-form request for a host and a port that the policy admits,
  and, for an absolute-form request, the head could be rewritten; the rewritten head is part
  of the response exactly then. The allowlist of the request, even an empty one, replaces the
  built-in one.
\<close>

theorem proxy_request_policy:
  assumes "Unmarshal_proxy_request request = Some q"
    and "handleProxyRequest uni False request = (body, ModuleStatusOK)"
  defines "allowlist \<equiv> case pq_Allowlist q of Some l \<Rightarrow> l | None \<Rightarrow> DefaultPackageAllowlist"
  defines "admitted \<equiv> \<lambda>host port. (port = 80 \<or> port = 443) \<and> proxyHostAllowed host allowlist"
  shows "\<exists>ms. parse_json (to_string body) = Some (JObj ms) \<and>
    map_of ms ''allowed'' = Some (JBool (\<exists>host port. admitted host port \<and>
      (connect_line (pq_Line q) host port \<or>
       absolute_line (pq_Line q) host port \<and> rewriteProxyHead uni (pq_Line q) \<noteq> None))) \<and>
    map_of ms ''forward_head'' =
      (if \<exists>host port. admitted host port \<and> absolute_line (pq_Line q) host port
       then map_option (\<lambda>head. JStr (sanitize head)) (rewriteProxyHead uni (pq_Line q)) else None)"
proof -
  obtain kind host port where c: "classifyProxyRequestLine (pq_Line q) = (kind, host, port)"
    by (cases "classifyProxyRequestLine (pq_Line q)")
  let ?r = "proxy_policy uni (pq_Line q) allowlist"
  have connect: "connect_line (pq_Line q) h p \<longleftrightarrow> kind = ProxyRequestConnect \<and> h = host \<and> p = port"
    and absolute: "absolute_line (pq_Line q) h p \<longleftrightarrow> kind = ProxyRequestAbsolute \<and> h = host \<and> p = port" for h p
    using classify_connect_line [of "pq_Line q" h p] classify_absolute_line [of "pq_Line q" h p] c by auto
  have "encode (proxy_request_json ?r) = (body, ModuleStatusOK)"
    using assms(1,2) by (simp add: handleProxyRequest_def allowlist_def)
  then have parsed: "parse_json (to_string body) = Some (sanitized (proxy_request_json ?r))"
    unfolding proxy_request_json_def by (rule response_parses) (rule members_print(4) [OF policy_port])
  have ne: "rewriteProxyHead uni line = Some head \<Longrightarrow> head \<noteq> []" for line head
    by (auto simp: rewriteProxyHead_def Let_def split: option.splits if_splits)
  have "pr_Allowed ?r = (\<exists>host port. admitted host port \<and>
      (connect_line (pq_Line q) host port \<or>
       absolute_line (pq_Line q) host port \<and> rewriteProxyHead uni (pq_Line q) \<noteq> None))"
    unfolding connect absolute
    by (auto simp: proxy_policy_def c admitted_def proxyPortAllowed_def Let_def split: option.splits)
  moreover have "pr_ForwardHead ?r = (if \<exists>host port. admitted host port \<and> absolute_line (pq_Line q) host port
      then (case rewriteProxyHead uni (pq_Line q) of None \<Rightarrow> [] | Some head \<Rightarrow> head) else [])"
    unfolding absolute
    by (auto simp: proxy_policy_def c admitted_def proxyPortAllowed_def Let_def split: option.splits)
  ultimately show ?thesis
    using parsed ne by (auto simp: proxy_request_json_def ascii_names split: option.splits)
qed

lemma dotted_ascii: "ascii (dotted a b c d)"
proof -
  have "ord x < 128" if "x \<in> set (show_nat n)" for x n
  proof -
    have "isDigit x" using that show_nat_digits [of n] by (auto simp: list_all_iff)
    then show ?thesis by (simp add: isDigit_def)
  qed
  then show ?thesis by (auto simp: dotted_def ascii_iff list_all_iff)
qed

lemma blocked_dotted:
  assumes "a < 256" "b < 256" "c < 256" "d < 256"
  shows "blocked_ip (ParseIP (dotted a b c d)) = blocked4 a b c d"
proof -
  let ?v = "map word_of_nat [a, b, c, d] :: byte list"
  have "To4 (v4InV6Prefix @ ?v) = Some ?v" by (simp add: To4_def v4InV6Prefix_def)
  then have "proxyIPBlocked (Some (v4InV6Prefix @ ?v)) = ipv4Blocked (be_u32 ?v)" by (simp add: proxyIPBlocked_def)
  also have "\<dots> = blocked_octets (map unat ?v)" by (simp only: ipv4Blocked_list list.size length_map)
  also have "map unat ?v = [a, b, c, d]" using assms by (simp add: unat_of_nat)
  finally show ?thesis using assms by (simp add: ParseIP_dotted blocked_octets_def flip: proxyIPBlocked_iff)
qed

lemma handleProxyAddress_eq:
  "Unmarshal_proxy_address request = Some q \<Longrightarrow> handleProxyAddress False request =
    (to_bytes (print_json (JObj [(''blocked'', JBool (blocked_ip (ParseIP (aq_IP q))))])), ModuleStatusOK)"
proof -
  have "length (print_json (JObj [(''blocked'', JBool b)])) \<le> 2 ^ 24" for b
    by (cases b) (simp_all only:, code_simp+)
  then show "Unmarshal_proxy_address request = Some q \<Longrightarrow> ?thesis"
    by (simp add: handleProxyAddress_def proxy_address_json_def encode_small proxyIPBlocked_iff del: print_json.simps)
qed

lemma Unmarshal_address_request:
  assumes "ascii text"
  shows "Unmarshal_proxy_address (to_bytes (print_json (JObj [(''ip'', JStr text)]))) = Some \<lparr>aq_IP = text\<rparr>"
proof -
  have "parse_json (print_json (JObj [(''ip'', JStr text)])) = Some (JObj [(''ip'', JStr text)])"
    using assms parse_print [of "JObj [(''ip'', JStr text)]"]
    by (simp add: sanitize_ascii ascii_names maxNestingDepth_def)
  then show ?thesis by (simp add: Unmarshal_proxy_address_def struct_members_def key_is_def)
qed

text \<open>
  C24. The address stage end to end: a request for a dotted IPv4 address is answered exactly by
  whether the address lies outside the public space, and a text that is no IP address, in
  particular an empty one or one with a zone, is answered as blocked.
\<close>

theorem proxy_address_policy:
  "(\<forall>q. Unmarshal_proxy_address request = Some q \<longrightarrow> handleProxyAddress False request =
      (to_bytes (print_json (JObj [(''blocked'', JBool (blocked_ip (ParseIP (aq_IP q))))])), ModuleStatusOK)) \<and>
   (ParseIP text = None \<longrightarrow> blocked_ip (ParseIP text)) \<and>
   (a < 256 \<and> b < 256 \<and> c < 256 \<and> d < 256 \<longrightarrow>
     handleProxyAddress False (to_bytes (print_json (JObj [(''ip'', JStr (dotted a b c d))]))) =
       (to_bytes (print_json (JObj [(''blocked'', JBool (blocked4 a b c d))])), ModuleStatusOK))"
  using handleProxyAddress_eq Unmarshal_address_request [OF dotted_ascii] blocked_dotted
  by (auto simp: blocked_ip_def simp del: print_json.simps)

lemma decode_field_valid:
  "decode_field name ms cur = Some s \<Longrightarrow> members_valid ms \<Longrightarrow> valid_utf8 cur \<Longrightarrow> valid_utf8 s"
  by (induction name ms cur rule: decode_field.induct)
    (auto simp: members_valid_def split: if_splits json.splits)

lemma Unmarshal_observe_valid:
  "Unmarshal_observe request = Some q \<Longrightarrow> valid_utf8 (oq_GitRoot q)"
proof -
  assume "Unmarshal_observe request = Some q"
  then obtain ms where "struct_members request = Some ms" "decode_field ''git_root'' ms [] = Some (oq_GitRoot q)"
    by (auto simp: Unmarshal_observe_def Option.bind_eq_Some_conv)
  moreover from this(1) have "members_valid ms"
    using parse_json_valid [of "to_string request"]
    by (fastforce simp: struct_members_def members_valid_def list_all_iff split: option.splits json.splits)
  ultimately show ?thesis using decode_field_valid by fastforce
qed

text \<open>
  C2. What an observe request teaches, a load request finds: after an observe that was answered
  OK, a load for the same project is answered with the packages known before, followed by the
  new ones, cut at the limit and sorted; while the limit is not reached, these are exactly the
  old names and the names the command installs. This spans the parser, the store, both JSON
  directions and the two handlers, for every behaviour of the file system during the observe.
\<close>

theorem observe_then_load:
  assumes "NewStore home = Some s"
    and "Unmarshal_observe request = Some q" and "oq_GitRoot q \<noteq> []"
    and "handleObserve s False request (fs, os) = Some ((body, ModuleStatusOK), st)"
    and "Unmarshal_load request2 = Some \<lparr>lq_GitRoot = oq_GitRoot q\<rparr>"
    and "\<forall>random. temp_suffix (os 0) = Some random \<longrightarrow> CHR ''/'' \<notin> set random"
    and "stat_ok (snd st 0)" "read_ok (snd st 0)"
    and "\<And>raw. fst st (store_path s) = Some raw \<Longrightarrow> length raw \<le> maxStoreBytes"
  defines "names \<equiv> ParseApt (oq_Command q) (int LearnMax)"
    and "old \<equiv> doc_get (store_read s (os 0) fs) (oq_GitRoot q)"
  defines "packages \<equiv> sort (take LearnMax (filter packageValid (old @ new_names old names)))"
  shows "handleLoad s False request2 st =
      Some (encode (JObj [(''packages'', if packages = [] then JNull else JArr (map JStr packages))]),
        fst st, snd st \<circ> Suc) \<and>
    (list_all packageValid old \<and> length old + length names \<le> LearnMax \<longrightarrow> set packages = set old \<union> set names)"
proof -
  have names: "distinct names" "filter packageValid names = names"
    using ParseApt_inv [of "int LearnMax" "oq_Command q"] by (auto simp: names_def found_inv_def filter_id_conv)
  have read: "doc_get (store_read s (snd st 0) (fst st)) (oq_GitRoot q) = old @ new_names old names"
  proof (cases "names = []")
    case True
    then have "st = (fs, os)"
      using assms(2-4) by (auto simp: handleObserve_def names_def split: prod.splits)
    then show ?thesis using True by (simp add: old_def new_names_def uniq_def)
  next
    case False
    then obtain n where n: "store_Record s (os 0) fs (oq_GitRoot q) names = Some (Recorded n, fst st)"
      using assms(2-4) by (auto simp: handleObserve_def names_def Let_def split: option.splits record_result.splits)
    show ?thesis
      unfolding old_def
      by (rule Record_reads_back [OF assms(1) n assms(6) _ assms(3)])
        (use assms(2,7,8,9) Unmarshal_observe_valid names(2) False in auto)
  qed
  have "handleLoad s False request2 st =
      Some (encode (JObj [(''packages'', if packages = [] then JNull else JArr (map JStr packages))]),
        fst st, snd st \<circ> Suc)"
    using assms(3,5) read
    by (simp add: handleLoad_def store_Load_eq packages_def load_json_def slice_json_def go_slice_def)
  moreover have "set packages = set old \<union> set names"
    if "list_all packageValid old" "length old + length names \<le> LearnMax"
  proof -
    have "new_names old names = filter (\<lambda>n. n \<notin> set old) names"
      using that(2) names
      by (simp add: new_names_def uniq_def distinct_remdups_id order.trans [OF length_filter_le])
    moreover have "filter packageValid old = old" using that(1) by (simp add: list_all_iff filter_id_conv)
    moreover have "filter packageValid (filter (\<lambda>n. n \<notin> set old) names) = filter (\<lambda>n. n \<notin> set old) names"
      using names(2) by (intro filter_True) (simp add: filter_id_conv)
    ultimately have "filter packageValid (old @ new_names old names) = old @ filter (\<lambda>n. n \<notin> set old) names"
      by (simp del: filter_filter)
    moreover have "length (old @ filter (\<lambda>n. n \<notin> set old) names) \<le> LearnMax"
      using that(2) length_filter_le [of "\<lambda>n. n \<notin> set old" names] unfolding length_append by linarith
    ultimately have "packages = sort (old @ filter (\<lambda>n. n \<notin> set old) names)"
      by (simp add: packages_def del: filter_append LearnMax_def)
    then show ?thesis by auto
  qed
  ultimately show ?thesis by blast
qed

section \<open>Witnesses\<close>

definition sample_line :: string where
  "sample_line = ''GET http://pypi.org/simple HTTP/1.1'' @ CRLF @ ''Cookie: a'' @ CRLF @ CRLF"

definition sample_request :: "(string \<times> json) list \<Rightarrow> byte list" where
  "sample_request ms = to_bytes (print_json (JObj ms))"

theorem proxy_request_policy_witness:
  "\<exists>ms. parse_json (to_string (fst (handleProxyRequest id False (sample_request [(''line'', JStr sample_line)])))) =
      Some (JObj ms) \<and> map_of ms ''allowed'' = Some (JBool True) \<and>
    map_of ms ''forward_head'' = Some (JStr (''GET /simple HTTP/1.1'' @ CRLF @ ''Connection: close'' @ CRLF @ CRLF))"
proof -
  have u: "Unmarshal_proxy_request (sample_request [(''line'', JStr sample_line)]) =
      Some \<lparr>pq_Line = sample_line, pq_Allowlist = None\<rparr>"
    by code_simp
  have st: "snd (handleProxyRequest id False (sample_request [(''line'', JStr sample_line)])) = ModuleStatusOK"
    by code_simp
  have c: "classifyProxyRequestLine sample_line = (ProxyRequestAbsolute, ''pypi.org'', 80)"
    "proxyHostAllowed ''pypi.org'' DefaultPackageAllowlist" by code_simp+
  have r: "rewriteProxyHead id sample_line =
      Some (''GET /simple HTTP/1.1'' @ CRLF @ ''Connection: close'' @ CRLF @ CRLF)" by code_simp
  have "absolute_line sample_line ''pypi.org'' 80" using c(1) classify_absolute_line by blast
  then have e: "(\<exists>host port. ((port = 80 \<or> port = 443) \<and> proxyHostAllowed host DefaultPackageAllowlist) \<and>
      absolute_line sample_line host port) = True"
    "(\<exists>host port. ((port = 80 \<or> port = 443) \<and> proxyHostAllowed host DefaultPackageAllowlist) \<and>
      (connect_line sample_line host port \<or>
       absolute_line sample_line host port \<and> rewriteProxyHead id sample_line \<noteq> None)) = True"
    using c(2) r by blast+
  have "sanitize (''GET /simple HTTP/1.1'' @ CRLF @ ''Connection: close'' @ CRLF @ CRLF) =
      ''GET /simple HTTP/1.1'' @ CRLF @ ''Connection: close'' @ CRLF @ CRLF" by code_simp
  then show ?thesis
    using proxy_request_policy [OF u, of id "fst (handleProxyRequest id False (sample_request [(''line'', JStr sample_line)]))"]
      st e r by (simp add: prod_eq_iff)
qed

theorem proxy_address_policy_witness:
  "handleProxyAddress False (to_bytes (print_json (JObj [(''ip'', JStr (dotted 10 0 0 1))]))) =
    (to_bytes (print_json (JObj [(''blocked'', JBool True)])), ModuleStatusOK)"
proof -
  have "blocked4 10 0 0 1" by (simp add: blocked4_def)
  then show ?thesis
    using proxy_address_policy [of undefined undefined 10 0 0 1] by (simp del: print_json.simps)
qed

theorem observe_then_load_witness:
  "\<exists>st st'. handleLoad sample_store False (sample_request [(''git_root'', JStr ''/p'')]) st =
    Some (encode (JObj [(''packages'', JArr [JStr ''gcc'', JStr ''jq''])]), st')"
proof -
  let ?q = "sample_request [(''git_root'', JStr ''/p''), (''command'', JStr ''apt install jq gcc'')]"
  let ?h = "handleObserve sample_store False ?q (Map.empty, \<lambda>_. sample_os)"
  have o: "map_option (snd \<circ> fst) ?h = Some ModuleStatusOK" by code_simp
  have l: "map_option (\<lambda>x. case fst (snd x) (store_path sample_store) of None \<Rightarrow> True
      | Some raw \<Rightarrow> length raw \<le> maxStoreBytes) ?h = Some True" by code_simp
  obtain body fs' os' where h: "?h = Some ((body, ModuleStatusOK), fs', os')" using o by auto
  then have os': "os' 0 = sample_os"
    by (auto simp: handleObserve_def Let_def split: option.splits if_splits record_result.splits)
  have u: "Unmarshal_observe ?q = Some \<lparr>oq_GitRoot = ''/p'', oq_Command = ''apt install jq gcc''\<rparr>"
    "Unmarshal_load (sample_request [(''git_root'', JStr ''/p'')]) = Some \<lparr>lq_GitRoot = ''/p''\<rparr>" by code_simp+
  have p: "sort (take LearnMax (filter packageValid (doc_get (store_read sample_store sample_os Map.empty) ''/p'' @
      new_names (doc_get (store_read sample_store sample_os Map.empty) ''/p'')
        (ParseApt ''apt install jq gcc'' (int LearnMax))))) = [''gcc'', ''jq'']" by code_simp
  have "\<forall>random. temp_suffix sample_os = Some random \<longrightarrow> CHR ''/'' \<notin> set random"
    "stat_ok sample_os" "read_ok sample_os" by (simp_all add: sample_os_def)
  moreover have "length raw \<le> maxStoreBytes" if "fs' (store_path sample_store) = Some raw" for raw
    using l h that by simp
  ultimately show ?thesis
    using observe_then_load [OF sample_NewStore u(1) _ h, of "sample_request [(''git_root'', JStr ''/p'')]"]
      u(2) os' p by (simp add: del: LearnMax_def) blast
qed

end
