(* ===== verification/Module_Process.thy ===== *)
theory Module_Process
  imports Bus_Attach Module_Handlers
begin

text \<open>
  The module process: \<open>RunModuleProcess\<close> of \<open>server-go/bus/module_runtime.go\<close>, which
  validates the configuration, attaches, serves and detaches, and \<open>main\<close> of \<open>runtime/main.go\<close>,
  which runs it on the sandbox configuration.

  A process is a state machine over the serving loop of \<open>Module_Runtime\<close>, run on the real
  client, and over the kernel of \<open>Bus_Attach\<close>; between two steps the host may write to the
  shared regions. \<open>runtime/main.go\<close> names a handler \<open>handler.Handle\<close> that package \<open>sandbox\<close> does
  not define, so the handler is an argument.
\<close>

section \<open>The process\<close>

record ('h) process_env =
  pe_parsers :: unix_parsers
  pe_connect :: "nat \<Rightarrow> connect_outcome"   \<comment> \<open>the attempts to connect\<close>
  pe_ended :: bool                        \<comment> \<open>\<open>ctx.Err() != nil\<close> when connecting has failed\<close>
  pe_host :: "nat \<Rightarrow> host_move"           \<comment> \<open>what the host does while the process waits\<close>
  pe_store :: 'h                          \<comment> \<open>the state the handler starts in\<close>

datatype 'h process =
    Launching
  | Running stages "phase \<times> 'h runtime \<times> client_world"
  | Returned "bus_error option"

definition attached_world :: "(nat \<Rightarrow> host_move) \<Rightarrow> client \<Rightarrow> client_world" where
  "attached_world host c = \<lparr>cw_client = c, cw_taken = [], cw_host = host, cw_turn = 0, cw_done = False\<rparr>"

definition launch :: "'h process_env \<Rightarrow> 'h module_config \<Rightarrow> kernel \<Rightarrow> ('h process \<times> kernel) option" where
  \<comment> \<open>\<open>RunModuleProcess\<close> up to \<open>runModuleClient\<close>; \<open>None\<close> when connecting never ends\<close>
  "launch env config k =
    (case validateModuleConfig config of
       Inl e \<Rightarrow> Some (Returned (Some e), k)
     | Inr table \<Rightarrow>
        (case connectModule (pe_parsers env) (pe_connect env) (PrincipalClass config) (PrincipalRef config) k of
           None \<Rightarrow> None
         | Some ((client, err), k) \<Rightarrow>
            if err \<noteq> None
            then Some (Returned (if pe_ended env then None else Some ErrModuleRuntime), k)
            else Some (Running table (Draining, initial_runtime (pe_store env),
                   attached_world (pe_host env) (the client)), k)))"

definition same_length :: "mem option \<Rightarrow> mem option \<Rightarrow> bool" where
  "same_length m m' \<longleftrightarrow> map_option length m = map_option length m'"

definition host_acts :: "client_world \<Rightarrow> client_world \<Rightarrow> bool" where
  \<comment> \<open>the host may write anything to the shared regions, and the context may end\<close>
  "host_acts w w' \<longleftrightarrow>
     (let c = cw_client w; c' = cw_client w'
      in c' = c\<lparr>ctlMem := ctlMem c', arenaMem := arenaMem c', qpMem := qpMem c'\<rparr> \<and>
         same_length (ctlMem c) (ctlMem c') \<and> same_length (arenaMem c) (arenaMem c') \<and>
         same_length (qpMem c) (qpMem c'))"

inductive process_step ::
  "'h process_env \<Rightarrow> 'h module_config \<Rightarrow> 'h process \<times> kernel \<Rightarrow> 'h process \<times> kernel \<Rightarrow> bool"
  for env :: "'h process_env" and config :: "'h module_config" where
  launch: "launch env config k = Some (p, k') \<Longrightarrow> process_step env config (Launching, k) (p, k')"
| serve: "runtime_step client_ops (Handler config) table s s' \<Longrightarrow>
    process_step env config (Running table s, k) (Running table s', k)"
| host: "host_acts w w' \<Longrightarrow>
    process_step env config (Running table (p, rt, w), k) (Running table (p, rt, w'), k)"
| return: "process_step env config (Running table (Stopped e, rt, w), k)
    (Returned e, detach_maps (cw_client w) k)"

abbreviation process_run where "process_run env config \<equiv> (process_step env config)\<^sup>*\<^sup>*"




section \<open>The sandbox process\<close>

definition main_stages :: "module_stage list" where
  "main_stages = [\<lparr>ms_EventKind = 10753, ms_StageID = 1\<rparr>, \<lparr>ms_EventKind = 10754, ms_StageID = 2\<rparr>,
     \<lparr>ms_EventKind = 10755, ms_StageID = 3\<rparr>, \<lparr>ms_EventKind = 10756, ms_StageID = 4\<rparr>]"

definition main_config :: "'h module_handler \<Rightarrow> string \<Rightarrow> 'h module_config" where
  "main_config handle path = \<lparr>SocketPath = path, ModuleName = ''sandbox'', PrincipalClass = 1,
     PrincipalRef = 26, Stages = main_stages, Handler = Some handle\<rparr>"

definition exit_code :: "bus_error option \<Rightarrow> nat" where
  "exit_code err = (if err \<noteq> None then 1 else 0)"

inductive main_exits ::
  "'h process_env \<Rightarrow> 'h module_handler \<Rightarrow> string list \<Rightarrow> kernel \<Rightarrow> nat \<Rightarrow> kernel \<Rightarrow> bool"
  for env :: "'h process_env" and handle :: "'h module_handler" and args :: "string list" and k :: kernel where
  usage: "length args \<noteq> 2 \<Longrightarrow> main_exits env handle args k 2 k"
| run: "length args = 2 \<Longrightarrow>
    process_run env (main_config handle (args ! 1)) (Launching, k) (Returned err, k') \<Longrightarrow>
    main_exits env handle args k (exit_code err) k'"

inductive_cases process_stepE: "process_step env config s s'"
inductive_simps main_exits_simps: "main_exits env handle args k n k'"

section \<open>What every step keeps\<close>

text \<open>
  A property of the world that every operation of the interface keeps is kept by the whole
  serving loop.
\<close>

locale kept_port =
  fixes ops :: "'w bus_ops" and kept :: "'w \<Rightarrow> bool"
  assumes reply_kept: "kept w \<Longrightarrow> op_ReplyFragment ops kind corr p is_more w = Some (e, w') \<Longrightarrow> kept w'"
    and heartbeat_kept: "kept w \<Longrightarrow> op_Heartbeat ops now w = Some w' \<Longrightarrow> kept w'"
    and clock_kept: "kept w \<Longrightarrow> op_clock ops w = (now, w') \<Longrightarrow> kept w'"
    and wait_kept: "kept w \<Longrightarrow> op_wait ops w = (b, w') \<Longrightarrow> kept w'"
    and poll_kept: "kept w \<Longrightarrow> op_Poll ops w = Some (r, w') \<Longrightarrow> kept w'"
    and sleep_kept: "kept w \<Longrightarrow> kept (op_sleep ops w)"
begin

lemma send_reply_kept:
  "send_reply ops' kind corr payload is_more w = Some y \<Longrightarrow> ops' = ops \<Longrightarrow> kept w \<Longrightarrow> kept (snd y)"
proof (induction rule: send_reply.raw_induct [rotated, consumes 1, case_names step])
  case (step loop ops' kind corr payload is_more w y)
  have IH: "loop ops kind corr payload is_more w1 = Some y \<Longrightarrow> kept w1 \<Longrightarrow> kept (snd y)" for w1
    using step(1) by blast
  show ?case
    using step(2-4)
    by (auto split: bind_splits if_splits prod.splits; metis IH reply_kept wait_kept clock_kept heartbeat_kept surj_pair fst_conv snd_conv)
qed

lemma reply_loop_kept:
  "reply_loop ops' kind corr stageID traceID status body cap is_first offset w = Some y \<Longrightarrow> ops' = ops \<Longrightarrow>
    kept w \<Longrightarrow> kept (snd y)"
proof (induction rule: reply_loop.raw_induct [rotated, consumes 1, case_names step])
  case (step loop ops' kind corr stageID traceID status body cap is_first offset w y)
  have IH: "loop ops kind corr stageID traceID status body cap False n w1 = Some y \<Longrightarrow> kept w1 \<Longrightarrow> kept (snd y)" for n w1
    using step(1) by blast
  show ?case
    using step(2-4)
    by (auto simp: Let_def split: bind_splits if_splits prod.splits sum.splits dest: send_reply_kept [OF _ refl];
      metis IH send_reply_kept snd_conv)
qed

lemma replyModuleResult_kept:
  "replyModuleResult ops kind corr stageID traceID status body w = Some (e, w') \<Longrightarrow> kept w \<Longrightarrow> kept w'"
  by (auto simp: replyModuleResult_def Let_def split: prod.splits if_splits dest: reply_loop_kept [OF _ refl])

lemma reply_then_kept:
  "reply_then ops kind corr stageID traceID status body rt w = Some (e, rt', w') \<Longrightarrow> kept w \<Longrightarrow> kept w'"
  by (auto simp: reply_then_def split: bind_splits intro: replyModuleResult_kept)

lemma request_event_kept:
  "request_event ops hh table now ev rt w = Some (e, rt', w') \<Longrightarrow> kept w \<Longrightarrow> kept w'"
  by (auto simp: request_event_def start_work_def invalidModuleRequest_def Let_def split: if_splits
      dest: reply_then_kept)

lemma serve_once_kept:
  "serve_once ops hh table rt w = Some (p, rt', w') \<Longrightarrow> kept w \<Longrightarrow> kept w'"
  by (auto simp: serve_once_def Let_def handle_event_def
      split: if_splits bind_splits prod.splits poll_result.splits
      dest!: request_event_kept; metis sleep_kept clock_kept heartbeat_kept poll_kept)

lemma runtime_step_kept:
  "runtime_step ops handler table s s' \<Longrightarrow> kept (snd (snd s)) \<Longrightarrow> kept (snd (snd s'))"
  by (induction rule: runtime_step.induct)
    (auto simp: finishModuleWork_def Let_def dest: reply_then_kept serve_once_kept)

end

sublocale bus_port \<subseteq> stay: kept_port ops inv
proof
  fix w kind corr p is_more e w' now b r
  assume w: "inv w"
  show "inv w'" if "op_ReplyFragment ops kind corr p is_more w = Some (e, w')"
    using reply_law [OF w, of kind corr p is_more] that by auto
  show "inv w'" if "op_Heartbeat ops now w = Some w'" using heartbeat_law [OF w, of now] that by auto
  show "inv w'" if "op_clock ops w = (now, w')" using clock_law [OF w that] by simp
  show "inv w'" if "op_wait ops w = (b, w')" using wait_law [OF w that] by simp
  show "inv w'" if "op_Poll ops w = Some (r, w')" using poll_law [OF w that] by simp
  show "inv (op_sleep ops w)" using sleep_law [OF w] by simp
qed

text \<open>No operation of the real client unmaps a region.\<close>

lemma mapped_update [simp]:
  "mapped (c\<lparr>qpMem := m\<rparr>) \<longleftrightarrow> m \<noteq> None \<and> ctlMem c \<noteq> None \<and> arenaMem c \<noteq> None"
  "mapped (c\<lparr>pendingRead := b\<rparr>) = mapped c"
  by (auto simp: mapped_def)

lemma emit_mapped: "emit c fl kind corr p = Some (e, c') \<Longrightarrow> mapped c \<Longrightarrow> mapped c'"
  by (auto simp: emit_def Let_def mapped_def split: if_splits option.splits bool.splits prod.splits)

lemma Poll_mapped: "Poll c = Some (r, c') \<Longrightarrow> mapped c \<Longrightarrow> mapped c'"
  by (auto simp: Poll_def Let_def mapped_def split: if_splits option.splits bool.splits prod.splits)

lemma host_take_mapped: "host_take n c = (ss, c') \<Longrightarrow> mapped c \<Longrightarrow> mapped c'"
proof (induction n arbitrary: c ss c')
  case (Suc n)
  then show ?case by (fastforce simp: Let_def mapped_def split: option.splits prod.splits)
qed simp

lemma host_restart_mapped: "mapped (host_restart e c) = mapped c"
  by (auto simp: host_restart_def mapped_def split: option.splits)

lemma client_wait_mapped:
  assumes "mapped (cw_client w)"
  shows "mapped (cw_client (snd (client_wait w)))"
proof -
  obtain taken c where "host_take (hm_take (cw_host w (cw_turn w)))
      (host_restart (hm_epoch (cw_host w (cw_turn w))) (cw_client w)) = (taken, c)" by fastforce
  then show ?thesis
    using host_take_mapped [of _ _ taken c] assms by (simp add: client_wait_def Let_def host_restart_mapped)
qed

interpretation mappedp: kept_port client_ops "\<lambda>w. mapped (cw_client w)"
proof
  fix w :: client_world and kind corr p is_more e w' now b r
  assume w: "mapped (cw_client w)"
  show "mapped (cw_client w')" if "op_ReplyFragment client_ops kind corr p is_more w = Some (e, w')"
    using that w by (auto simp: client_ops_def on_client_def ReplyFragment_def split: if_splits intro: emit_mapped)
  show "mapped (cw_client w')" if "op_Heartbeat client_ops now w = Some w'"
    using that w by (auto simp: client_ops_def Heartbeat_def mapped_def split: option.splits)
  show "mapped (cw_client w')" if "op_clock client_ops w = (now, w')" using that w by (simp add: client_ops_def)
  show "mapped (cw_client w')" if "op_wait client_ops w = (b, w')"
    using that client_wait_mapped [OF w] by (simp add: client_ops_def)
  show "mapped (cw_client w')" if "op_Poll client_ops w = Some (r, w')"
    using that w by (auto simp: client_ops_def on_client_def intro: Poll_mapped)
  show "mapped (cw_client (op_sleep client_ops w))" using client_wait_mapped [OF w] by (simp add: client_ops_def)
qed

lemma same_length_None: "same_length m m' \<Longrightarrow> m' = None \<longleftrightarrow> m = None"
  by (cases m; cases m') (simp_all add: same_length_def)

lemma host_acts_mapped: "host_acts w w' \<Longrightarrow> mapped (cw_client w) \<Longrightarrow> mapped (cw_client w')"
  unfolding host_acts_def mapped_def Let_def by (elim conjE, intro conjI; metis same_length_None)

section \<open>The invariant of a process\<close>

definition process_ok :: "'h module_config \<Rightarrow> kernel \<Rightarrow> 'h process \<times> kernel \<Rightarrow> bool" where
  \<comment> \<open>what a process started over kernel \<open>k\<close> owns and keeps\<close>
  "process_ok config k s \<longleftrightarrow> k_fds (snd s) = k_fds k \<and>
     (case fst s of
        Launching \<Rightarrow> k_maps (snd s) = k_maps k
      | Running table (p, rt, w) \<Rightarrow> k_maps (snd s) = attach_maps @ k_maps k \<and> mapped (cw_client w) \<and>
          rt_inv table rt \<and> validateModuleConfig config = Inr table
      | Returned e \<Rightarrow> k_maps (snd s) = k_maps k)"

definition env_honest :: "'h process_env \<Rightarrow> kernel \<Rightarrow> bool" where
  \<comment> \<open>the descriptors the kernel hands out were not in use\<close>
  "env_honest env k \<longleftrightarrow> (\<forall>j. attempt_honest (pe_parsers env) k (pe_connect env j))"

lemma launch_ok:
  assumes "launch env config k1 = Some (p, k')" and "env_honest env k" and "k_fds k1 = k_fds k" "k_maps k1 = k_maps k"
  shows "process_ok config k (p, k')"
proof -
  have "attempt_honest (pe_parsers env) k1 (pe_connect env j)" for j
    using assms(2-4) by (simp add: env_honest_def attempt_honest_def rights_delivered_def split: sum.splits)
  then have *: "settled ret k1 k2"
    if "connectModule (pe_parsers env) (pe_connect env) pc pr k1 = Some (ret, k2)" for ret k2 pc pr
    using connect_loop_settled that unfolding connectModule_def by blast
  show ?thesis
    using assms(1,3,4)
    by (auto simp: launch_def process_ok_def settled_def attached_world_def initial_runtime_inv
        split: sum.splits option.splits prod.splits if_splits dest!: *)
qed

lemma process_step_ok:
  assumes "process_step env config s s'" and "env_honest env k" and "process_ok config k s"
  shows "process_ok config k s'"
  using assms
proof (induction rule: process_step.induct)
  case (launch k1 p k')
  then show ?case using launch_ok [OF launch(1,2)] by (simp add: process_ok_def)
next
  case (serve table s s' k1)
  obtain p rt w p' rt' w' where s: "s = (p, rt, w)" "s' = (p', rt', w')" by (metis surj_pair)
  show ?case
    using serve runtime_step_inv [OF serve(1)] mappedp.runtime_step_kept [OF serve(1)]
    by (auto simp: process_ok_def s)
next
  case (host w w' table p rt k1)
  then show ?case using host_acts_mapped [OF host(1)] by (auto simp: process_ok_def)
next
  case (return table e rt w k1)
  then show ?case using detach_mapped [of "cw_client w" k1] by (auto simp: process_ok_def)
qed

lemma process_run_ok:
  assumes "process_run env config (Launching, k) s" and "env_honest env k"
  shows "process_ok config k s"
  using assms(1)
proof (induction rule: rtranclp_induct)
  case base
  then show ?case by (simp add: process_ok_def)
next
  case (step s s')
  then show ?case using process_step_ok assms(2) by blast
qed

lemma main_stage_table:
  "validateModuleConfig (main_config handle path) =
    (if path = [] then Inl ErrModuleConfig
     else Inr [(EventObserve, StageObserve), (EventLoad, StageLoad), (EventProxyRequest, StageProxyRequest),
       (EventProxyAddress, StageProxyAddress)])"
  by (simp add: validateModuleConfig_def main_config_def main_stages_def)


section \<open>The end of the context\<close>

definition idle :: "'h runtime \<Rightarrow> bool" where
  "idle rt \<longleftrightarrow> jobs rt = [] \<and> results rt = [] \<and> goroutines rt = []"



lemma cancel_jobs_idle [simp]: "idle (cancel_jobs rt) = idle rt"
  by (simp add: idle_def cancel_jobs_def)







lemma main_releases:
  assumes "main_exits env handle args k n k'" and "env_honest env k"
  shows "k_fds k' = k_fds k \<and> k_maps k' = k_maps k \<and> (n = 2 \<longleftrightarrow> length args \<noteq> 2)"
  using assms(1) process_run_ok [OF _ assms(2)]
  by (cases rule: main_exits.cases) (force simp: exit_code_def process_ok_def)+



section \<open>Properties of the process\<close>

text \<open>
  C7. A module process never leaks: in every state it can reach, whatever the host answers and
  writes, exactly the descriptors are open that were open before; while it serves it holds
  exactly the three mappings of its client, its runtime satisfies the runtime invariant and
  its stage table is the validated one; once \<open>RunModuleProcess\<close> has returned, with or without
  an error, nothing is mapped that was not before.
\<close>

theorem process_owns_mappings:
  assumes "process_run env config (Launching, k) (p, k')" and "env_honest env k"
  shows "k_fds k' = k_fds k \<and>
    (case p of
       Launching \<Rightarrow> k_maps k' = k_maps k
     | Running table (ph, rt, w) \<Rightarrow>
         k_maps k' = [QueueRegion, ArenaRegion, ControlRegion] @ k_maps k \<and> mapped (cw_client w) \<and>
         rt_inv table rt \<and> validateModuleConfig config = Inr table
     | Returned e \<Rightarrow> k_maps k' = k_maps k)"
  using process_run_ok [OF assms] by (cases p) (auto simp: process_ok_def attach_maps_def)


section \<open>A concrete process\<close>

definition sample_env :: "unit process_env" where
  \<comment> \<open>the host listens and takes a slot at every turn\<close>
  "sample_env = \<lparr>pe_parsers = sample_parsers,
     pe_connect = (\<lambda>i. \<lparr>co_socket = Inr 3, co_connect = None,
       co_attach = sample_outcome 72 (sample_maps 848), co_done = False\<rparr>),
     pe_ended = False,
     pe_host = (\<lambda>i. \<lparr>hm_take = 1, hm_epoch = None, hm_done = False, hm_clock = 5\<rparr>), pe_store = ()\<rparr>"

lemma sample_env_honest: "env_honest sample_env sample_kernel"
  by (simp add: env_honest_def attempt_honest_def sample_env_def rights_delivered_def sample_outcome_def
      sample_kernel_def sample_rights)


text \<open>A process whose host is not there returns and owns nothing.\<close>

theorem process_owns_mappings_witness:
  "\<exists>e k'. process_run (sample_env\<lparr>pe_connect := \<lambda>i. \<lparr>co_socket = Inr 3, co_connect = Some 2,
        co_attach = sample_outcome 72 (sample_maps 848), co_done = False\<rparr>\<rparr>)
      (main_config sample_echo ''/run/bus'') (Launching, sample_kernel) (Returned e, k') \<and> k_fds k' = [4]"
proof -
  let ?os = "\<lambda>i::nat. \<lparr>co_socket = Inr 3, co_connect = Some 2,
    co_attach = sample_outcome 72 (sample_maps 848), co_done = False\<rparr>"
  let ?env = "sample_env\<lparr>pe_connect := ?os\<rparr>" and ?config = "main_config sample_echo ''/run/bus''"
  have "\<exists>k'. connectModule sample_parsers ?os 1 26 sample_kernel = Some ((None, Some (ErrSyscall 2)), k')"
    unfolding connectModule_def by (subst connect_loop.simps) (simp add: connect_attempt_def Let_def)
  then obtain k' where "connectModule sample_parsers ?os 1 26 sample_kernel = Some ((None, Some (ErrSyscall 2)), k')" ..
  then have "launch ?env ?config sample_kernel = Some (Returned (Some ErrModuleRuntime), k')"
    by (simp add: launch_def main_stage_table) (simp add: main_config_def sample_env_def)
  then have run: "process_run ?env ?config (Launching, sample_kernel) (Returned (Some ErrModuleRuntime), k')"
    by (intro r_into_rtranclp process_step.launch)
  have "env_honest ?env sample_kernel"
    using sample_env_honest by (simp add: env_honest_def attempt_honest_def sample_env_def)
  from process_owns_mappings [OF run this] have "k_fds k' = [4]" by (simp add: sample_kernel_def)
  with run show ?thesis by blast
qed

end
