(* ===== verification/Module_System.thy ===== *)
theory Module_System
  imports Module_Process
begin

text \<open>
  The parts together: what the polling loop of a module does with a request that arrives on
  the bus, from the first frame of the request to the last frame of the result, and what the
  caller at the other end makes of that result.
\<close>

section \<open>A serving world\<close>

definition with_job :: "u64 \<Rightarrow> module_work \<Rightarrow> byte list \<Rightarrow> 'h runtime \<Rightarrow> 'h runtime" where
  \<comment> \<open>the runtime after the last frame of a request: no assembly, a new job and its goroutine\<close>
  "with_job corr work body rt =
    rt\<lparr>assemblies := AList.delete corr (assemblies rt), jobs := jobs rt @ [(corr, work)],
      next_flag := next_flag rt + 1, flags := (flags rt)(next_flag rt := False),
      goroutines := goroutines rt @ [Starting work body]\<rparr>"

lemma one_pass:
  assumes "results rt = []" and "serve_once ops (handler \<noteq> None) table rt w = Some (p, rt', w')"
  shows "(runtime_step ops handler table)\<^sup>*\<^sup>* (Draining, rt, w) (p, rt', w')"
  using runtime_step.drained [OF assms(1)] runtime_step.serve [OF assms(2)]
  by (rule rtranclp.rtrancl_into_rtrancl [OF r_into_rtranclp])

text \<open>
  What the serving loop relies on while events are pending, besides the laws of an event
  source: nothing stops it, its own clock and heartbeat do not disturb the events, nothing is
  sent behind its back, and the clock stays before the deadline \<open>dl\<close> (0: no deadline).
\<close>

locale serving_port = event_source ops inv incoming delay
  for ops :: "'w bus_ops" and inv :: "'w \<Rightarrow> bool" and incoming :: "'w \<Rightarrow> event list" and delay :: "'w \<Rightarrow> nat" +
  fixes sent :: "'w \<Rightarrow> outgoing list" and dl :: u64
  assumes running: "inv w \<Longrightarrow> \<not> op_done ops w \<and> op_EpochChanged ops w = Some False"
    and clock_ahead: "inv w \<Longrightarrow> op_clock ops w = (now, w') \<Longrightarrow>
      inv w' \<and> incoming w' = incoming w \<and> delay w' = delay w \<and> sent w' = sent w \<and> (dl = 0 \<or> now < dl)"
    and beat: "inv w \<Longrightarrow> \<exists>w'. op_Heartbeat ops now w = Some w' \<and>
      inv w' \<and> incoming w' = incoming w \<and> delay w' = delay w \<and> sent w' = sent w"
    and poll_quiet: "inv w \<Longrightarrow> op_Poll ops w = Some (r, w') \<Longrightarrow> sent w' = sent w"
    and sleep_quiet: "inv w \<Longrightarrow> op_Poll ops w = Some (NoEvent, w') \<Longrightarrow> sent (op_sleep ops w') = sent w"
begin

text \<open>The world at the moment of the poll, with the clock of the pass.\<close>

lemma before_poll:
  assumes "inv w"
  obtains now w1 w2 where "op_clock ops w = (now, w1)"
    and "(if now \<noteq> 0 then op_Heartbeat ops now w1 else Some w1) = Some w2"
    and "inv w2" "incoming w2 = incoming w" "delay w2 = delay w" "sent w2 = sent w" "dl = 0 \<or> now < dl"
proof -
  obtain now w1 where c: "op_clock ops w = (now, w1)" by fastforce
  note cl = clock_ahead [OF assms c]
  obtain w2 where "op_Heartbeat ops now w1 = Some w2"
    "inv w2" "incoming w2 = incoming w1" "delay w2 = delay w1" "sent w2 = sent w1"
    using beat [of w1 now] cl by blast
  then show ?thesis using that c cl by (cases "now \<noteq> 0") auto
qed

lemma serve_event:
  assumes "inv w" and "incoming w = ev # evs" and "results rt = []"
    and "\<And>now w. dl = 0 \<or> now < dl \<Longrightarrow> handle_event ops (handler \<noteq> None) table now ev rt w = Some (None, rt', w)"
  shows "\<exists>w'. (runtime_step ops handler table)\<^sup>*\<^sup>* (Draining, rt, w) (Draining, rt', w') \<and>
    inv w' \<and> incoming w' = evs \<and> sent w' = sent w"
  using assms(1,2)
proof (induction "delay w" arbitrary: w rule: less_induct)
  case less
  obtain now w1 w2 where c: "op_clock ops w = (now, w1)"
    "(if now \<noteq> 0 then op_Heartbeat ops now w1 else Some w1) = Some w2"
    and w2: "inv w2" "incoming w2 = incoming w" "delay w2 = delay w" "sent w2 = sent w" "dl = 0 \<or> now < dl"
    by (rule before_poll [OF less.prems(1)])
  have once: "serve_once ops (handler \<noteq> None) table rt w = do {
      (r, w) \<leftarrow> op_Poll ops w2;
      (case r of
         PollError e \<Rightarrow> Some (Stopped (if e = ErrEpoch then None else Some e), rt, w)
       | NoEvent \<Rightarrow> Some (Draining, rt, op_sleep ops w)
       | Polled ev \<Rightarrow> do {
           (e, rt, w) \<leftarrow> handle_event ops (handler \<noteq> None) table now ev rt w;
           Some (if e = None then Draining else Stopped e, rt, w)
         })
    }"
    using running [OF less.prems(1)] c(2) unfolding serve_once_def c(1) by simp
  have "incoming w2 = ev # evs" using w2 less.prems(2) by simp
  from next_event [OF w2(1) this] consider
      (event) w3 where "op_Poll ops w2 = Some (Polled ev, w3)" "inv w3" "incoming w3 = evs"
    | (none) w3 where "op_Poll ops w2 = Some (NoEvent, w3)" "inv (op_sleep ops w3)"
        "incoming (op_sleep ops w3) = incoming w2" "delay (op_sleep ops w3) < delay w2" by blast
  then show ?case
  proof cases
    case event
    have "serve_once ops (handler \<noteq> None) table rt w = Some (Draining, rt', w3)"
      unfolding once using event assms(4) [OF w2(5)] by simp
    with assms(3) have "(runtime_step ops handler table)\<^sup>*\<^sup>* (Draining, rt, w) (Draining, rt', w3)"
      by (rule one_pass)
    then show ?thesis using event poll_quiet [OF w2(1) event(1)] w2(4) by auto
  next
    case none
    have "serve_once ops (handler \<noteq> None) table rt w = Some (Draining, rt, op_sleep ops w3)"
      unfolding once using none by simp
    with assms(3) have "(runtime_step ops handler table)\<^sup>*\<^sup>* (Draining, rt, w) (Draining, rt, op_sleep ops w3)"
      by (rule one_pass)
    moreover obtain w' where "(runtime_step ops handler table)\<^sup>*\<^sup>* (Draining, rt, op_sleep ops w3) (Draining, rt', w')"
      "inv w'" "incoming w' = evs" "sent w' = sent (op_sleep ops w3)"
      using less.hyps [of "op_sleep ops w3"] none w2 less.prems(2) by auto
    ultimately show ?thesis using sleep_quiet [OF w2(1) none(1)] w2(4) by (metis rtranclp_trans)
  qed
qed

text \<open>The frames of a request start its handler.\<close>

lemma serve_parts_run:
  assumes "list_all2 event_matches (map (request_frame kind corr stageID dl traceID)
      (map (\<lambda>q. (q, True)) ps @ [(p, False)])) evs"
    and "stage_of table kind = stageID" and "stageID \<noteq> 0" and "handler \<noteq> None"
    and "map_of (jobs rt) corr = None" and "length (jobs rt) < moduleMaxInFlight" and "results rt = []"
    and "assembly_accepts rt kind corr stageID dl traceID body"
    and "length body + length (concat ps) + length p \<le> 2 ^ 24"
    and "inv w" and "incoming w = evs @ rest"
  shows "\<exists>w' ev msg. (runtime_step ops handler table)\<^sup>*\<^sup>* (Draining, rt, w)
      (Draining, with_job corr (new_work ev stageID msg (next_flag rt)) (body @ concat ps @ p) rt, w') \<and>
    inv w' \<and> incoming w' = rest \<and> sent w' = sent w \<and>
    DeadlineNS msg = dl \<and> TraceID msg = traceID \<and> EventKind (Frame ev) = kind \<and> CorrelationID (Frame ev) = corr"
  using assms(1,5-11)
proof (induction ps arbitrary: evs rt body w)
  case Nil
  then obtain ev where evs: "evs = [ev]" and ev: "event_matches (request_frame kind corr stageID dl traceID (p, False)) ev"
    by (auto simp: list_all2_Cons1)
  have len: "length body + length p \<le> 2 ^ 24" using Nil by simp
  from request_event_part [OF ev assms(2,3) Nil(2,5) len, of ops "handler \<noteq> None"] obtain msg where
    msg: "DeadlineNS msg = dl" "TraceID msg = traceID" "EventKind (Frame ev) = kind" "CorrelationID (Frame ev) = corr" and
    h: "\<And>now w. handle_event ops (handler \<noteq> None) table now ev rt w =
       start_work ops (handler \<noteq> None) now ev stageID msg (body @ p) (rt\<lparr>assemblies := AList.delete corr (assemblies rt)\<rparr>) w"
    by auto
  let ?work = "new_work ev stageID msg (next_flag rt)"
  let ?rt = "with_job corr ?work (body @ p) rt"
  have "handle_event ops (handler \<noteq> None) table now ev rt w = Some (None, ?rt, w)" if "dl = 0 \<or> now < dl" for now w
  proof -
    have "\<not> DeadlineExpired msg now" using that msg(1) by (auto simp: DeadlineExpired_def)
    then show ?thesis
      using h [of now w] assms(4) Nil(2,3) msg by (simp add: start_work_def Let_def update_new with_job_def)
  qed
  from serve_event [OF Nil(7) _ Nil(4) this] Nil(8) evs obtain w' where
    "(runtime_step ops handler table)\<^sup>*\<^sup>* (Draining, rt, w) (Draining, ?rt, w')" "inv w'" "incoming w' = rest" "sent w' = sent w"
    by auto
  then show ?case using msg by (intro exI [of _ w'] exI [of _ ev] exI [of _ msg]) simp
next
  case (Cons q ps)
  then obtain ev evs' where evs: "evs = ev # evs'" and
    ev: "event_matches (request_frame kind corr stageID dl traceID (q, True)) ev" and
    rest: "list_all2 event_matches (map (request_frame kind corr stageID dl traceID)
      (map (\<lambda>q. (q, True)) ps @ [(p, False)])) evs'" by (auto simp: list_all2_Cons1)
  have len: "length body + length q \<le> 2 ^ 24" using Cons.prems(6) by simp
  from request_event_part [OF ev assms(2,3) Cons.prems(2,5) len, of ops "handler \<noteq> None"] obtain a where
    a: "as_body a = body @ q" "as_eventKind a = kind" "StageID (as_message a) = stageID"
      "DeadlineNS (as_message a) = dl" "TraceID (as_message a) = traceID" and
    h: "\<And>now w. handle_event ops (handler \<noteq> None) table now ev rt w =
      Some (None, rt\<lparr>assemblies := AList.update corr a (assemblies rt)\<rparr>, w)"
    by auto
  let ?rt = "rt\<lparr>assemblies := AList.update corr a (assemblies rt)\<rparr>"
  have acc: "assembly_accepts ?rt kind corr stageID dl traceID (body @ q)"
    using a by (simp add: assembly_accepts_def AList.update_Some_unfold AList.update_conv')
  from serve_event [OF Cons.prems(7) _ Cons.prems(4) h] Cons.prems(8) evs obtain w1 where
    w1: "(runtime_step ops handler table)\<^sup>*\<^sup>* (Draining, rt, w) (Draining, ?rt, w1)" "inv w1" "incoming w1 = evs' @ rest"
      "sent w1 = sent w" by auto
  from Cons.IH [OF rest _ _ _ acc _ w1(2,3)] Cons.prems(2-4,6) obtain w' ev' msg where
    "(runtime_step ops handler table)\<^sup>*\<^sup>* (Draining, ?rt, w1)
      (Draining, with_job corr (new_work ev' stageID msg (next_flag rt)) (body @ concat (q # ps) @ p) rt, w')"
    "inv w'" "incoming w' = rest" "sent w' = sent w1"
    "DeadlineNS msg = dl" "TraceID msg = traceID" "EventKind (Frame ev') = kind" "CorrelationID (Frame ev') = corr"
    by (auto simp: with_job_def AList.delete_update_same)
  then show ?case using w1(1,4) by (metis (no_types, lifting) rtranclp_trans)
qed

end

section \<open>The serving world of the real client\<close>

definition cw_serving :: "u64 \<Rightarrow> client_world \<Rightarrow> bool" where
  \<comment> \<open>a steady listening client whose clock stays before \<open>dl\<close>\<close>
  "cw_serving dl w \<longleftrightarrow> cw_listening w \<and> (dl = 0 \<or> (\<forall>i. hm_clock (cw_host w i) < dl))"

lemma client_host_kept:
  "op_Poll client_ops w = Some (r, w') \<Longrightarrow> cw_host w' = cw_host w"
  "cw_host (op_sleep client_ops w) = cw_host w"
  by (auto simp: client_ops_def on_client_def client_wait_def Let_def split: prod.splits)

interpretation servep: serving_port client_ops "cw_serving dl" cw_incoming "\<lambda>w. length (inbox (cw_client w))" cw_sent dl
  for dl
proof
  fix w
  assume w: "cw_serving dl w"
  then have l: "cw_listening w" and st: "cw_steady w" and inv: "cw_inv w" "client_inv (cw_client w)"
    by (simp_all add: cw_serving_def cw_listening_def cw_steady_def cw_inv_def)
  fix ev evs
  assume "cw_incoming w = ev # evs"
  from listenp.next_event [OF l this] w
  show "(\<exists>w'. op_Poll client_ops w = Some (Polled ev, w') \<and> cw_serving dl w' \<and> cw_incoming w' = evs) \<or>
      (\<exists>w'. op_Poll client_ops w = Some (NoEvent, w') \<and> \<not> op_done client_ops w' \<and>
        cw_serving dl (op_sleep client_ops w') \<and> cw_incoming (op_sleep client_ops w') = cw_incoming w \<and>
        length (inbox (cw_client (op_sleep client_ops w'))) < length (inbox (cw_client w)))"
    unfolding cw_serving_def by (metis client_host_kept)
next
  fix w now w'
  assume w: "cw_serving dl w"
  then have l: "cw_listening w" and st: "cw_steady w" and inv: "cw_inv w" "client_inv (cw_client w)"
    by (simp_all add: cw_serving_def cw_listening_def cw_steady_def cw_inv_def)
  show "\<not> op_done client_ops w \<and> op_EpochChanged client_ops w = Some False"
    using steadyp.no_restart [OF st] st by (simp add: client_ops_def cw_steady_def)
  show "cw_serving dl w' \<and> cw_incoming w' = cw_incoming w \<and>
      length (inbox (cw_client w')) = length (inbox (cw_client w)) \<and> cw_sent w' = cw_sent w \<and> (dl = 0 \<or> now < dl)"
    if "op_clock client_ops w = (now, w')"
    using that w by (auto simp: client_ops_def cw_serving_def)
  show "\<exists>w'. op_Heartbeat client_ops now w = Some w' \<and> cw_serving dl w' \<and> cw_incoming w' = cw_incoming w \<and>
      length (inbox (cw_client w')) = length (inbox (cw_client w)) \<and> cw_sent w' = cw_sent w"
  proof -
    let ?c = "cw_client w"
    obtain m where m: "Heartbeat ?c now = Some (?c\<lparr>qpMem := Some m\<rparr>)" "inbox (?c\<lparr>qpMem := Some m\<rparr>) = inbox ?c"
      "outbox (?c\<lparr>qpMem := Some m\<rparr>) = outbox ?c"
      using Heartbeat_view [OF inv(2), of now] by blast
    let ?w = "w\<lparr>cw_client := ?c\<lparr>qpMem := Some m\<rparr>\<rparr>"
    have op: "op_Heartbeat client_ops now w = Some ?w" using m by (simp add: client_ops_def)
    have "cw_steady ?w" by (rule steady_Heartbeat(1) [OF st op])
    then have "cw_serving dl ?w" using w m(2) by (simp add: cw_serving_def cw_listening_def)
    then show ?thesis using op m(2,3) by (auto simp: cw_incoming_def cw_sent_def)
  qed
  fix r
  show "cw_sent w' = cw_sent w" if "op_Poll client_ops w = Some (r, w')"
    using clientp.poll_law [OF inv(1) that] by simp
  show "cw_sent (op_sleep client_ops w') = cw_sent w" if "op_Poll client_ops w = Some (NoEvent, w')"
    using clientp.poll_law [OF inv(1) that] clientp.sleep_law [of w'] by simp
qed

text \<open>No operation changes the inline budget, so no run does.\<close>

lemma host_take_budget: "host_take n c = (ss, c') \<Longrightarrow> inlineBudget c' = inlineBudget c"
proof (induction n arbitrary: c ss c')
  case (Suc n)
  then show ?case by (fastforce simp: Let_def split: option.splits prod.splits)
qed simp

lemma client_wait_budget: "inlineBudget (cw_client (snd (client_wait w))) = inlineBudget (cw_client w)"
proof -
  obtain taken c where t: "host_take (hm_take (cw_host w (cw_turn w)))
      (host_restart (hm_epoch (cw_host w (cw_turn w))) (cw_client w)) = (taken, c)" by fastforce
  have "inlineBudget (host_restart e d) = inlineBudget d" for e d
    by (simp add: host_restart_def split: option.splits)
  then show ?thesis using host_take_budget [OF t] t by (simp add: client_wait_def Let_def)
qed

interpretation budgetp: kept_port client_ops "\<lambda>w. inlineBudget (cw_client w) = b" for b
proof
  fix w :: client_world and kind corr p is_more e w' now r and stop :: bool
  assume w: "inlineBudget (cw_client w) = b"
  show "inlineBudget (cw_client w') = b" if "op_ReplyFragment client_ops kind corr p is_more w = Some (e, w')"
    using that w by (auto simp: client_ops_def on_client_def ReplyFragment_def emit_def Let_def
        split: if_splits option.splits bool.splits prod.splits)
  show "inlineBudget (cw_client w') = b" if "op_Heartbeat client_ops now w = Some w'"
    using that w by (auto simp: client_ops_def Heartbeat_def split: option.splits)
  show "inlineBudget (cw_client w') = b" if "op_clock client_ops w = (now, w')" using that w by (simp add: client_ops_def)
  show "inlineBudget (cw_client w') = b" if "op_wait client_ops w = (stop, w')"
    using that client_wait_budget [of w] w by (simp add: client_ops_def)
  show "inlineBudget (cw_client w') = b" if "op_Poll client_ops w = Some (r, w')"
    using that w by (auto simp: client_ops_def on_client_def Poll_def Let_def
        split: if_splits option.splits bool.splits prod.splits)
  show "inlineBudget (cw_client (op_sleep client_ops w)) = b" using client_wait_budget [of w] w by (simp add: client_ops_def)
qed

lemma run_budget:
  "(runtime_step client_ops handler table)\<^sup>*\<^sup>* s s' \<Longrightarrow>
    inlineBudget (cw_client (snd (snd s'))) = inlineBudget (cw_client (snd (snd s)))"
  by (induction rule: rtranclp_induct) (auto dest: budgetp.runtime_step_kept)

section \<open>A call from end to end\<close>

lemma runHandler_reply_outcome:
  assumes "\<not> f (wk_cancelled work)" and "inv_DeadlineNS (wk_invocation work) = 0 \<or> now < inv_DeadlineNS (wk_invocation work)"
  shows "reply_outcome (rs_status (runHandler f now work (response, status))) (rs_body (runHandler f now work (response, status))) =
    reply_outcome status response"
  using assms
  by (auto simp: runHandler_def reply_outcome_def reply_content_def validModuleStatus_def Let_def not_le)

text \<open>The rest of the run: the handler is called, its result goes through the channel and is sent.\<close>

lemma finish_job:
  assumes "cw_steady w" and "stageID \<noteq> 0" and "corr \<noteq> 0" and "ModuleMessageHeaderLen < unat (inlineBudget (cw_client w))"
    and "wk_correlationID work = corr" "wk_eventKind work = kind" "inv_StageID (wk_invocation work) = stageID"
      "inv_TraceID (wk_invocation work) = traceID" "inv_DeadlineNS (wk_invocation work) = dl"
      "inv_cancelled (wk_invocation work) = Some (wk_cancelled work)"
    and "\<not> flags rt (wk_cancelled work)" and "results rt = []" and "goroutines rt = gs @ [Starting work request]"
    and "h (wk_invocation work) False request (handler_state rt) = Some ((response, status), hs)"
  shows "\<exists>w' st body. (runtime_step client_ops (Some h) table)\<^sup>*\<^sup>* (Draining, rt, w)
      (Draining, rt\<lparr>jobs := AList.delete corr (jobs rt), goroutines := gs, handler_state := hs\<rparr>, w') \<and>
    cw_sent w' = cw_sent w @ result_fragments kind corr stageID traceID (fst (reply_content st body))
      (snd (reply_content st body)) (unat (inlineBudget (cw_client w)) - ModuleMessageHeaderLen) \<and>
    reply_outcome st body = reply_outcome status response"
proof -
  let ?r = "runHandler (flags rt) 0 work (response, status)"
  let ?rt1 = "rt\<lparr>goroutines := gs @ [Returning work (response, status)], handler_state := hs\<rparr>"
  let ?rt2 = "rt\<lparr>handler_state := hs, goroutines := gs, results := [?r]\<rparr>"
  let ?rt3 = "rt\<lparr>jobs := AList.delete corr (jobs rt), goroutines := gs, handler_state := hs\<rparr>"
  have "Cancelled (flags rt) 0 (wk_invocation work) = False" using assms(10,11) by (simp add: Cancelled_def)
  then have "runtime_step client_ops (Some h) table (Draining, rt, w) (Draining, ?rt1, w)"
    using runtime_step.handle [of rt gs work request "[]" "Some h" h 0 "(response, status)" hs] assms(13,14) by simp
  moreover have "runtime_step client_ops (Some h) table (Draining, ?rt1, w) (Draining, ?rt2, w)"
    using runtime_step.deliver [of ?rt1 gs work "(response, status)" "[]" client_ops "Some h" table Draining w 0] assms(12) by simp
  moreover obtain w' where w': "replyModuleResult client_ops kind corr stageID traceID (rs_status ?r) (rs_body ?r) w = Some (None, w')"
    "cw_sent w' = cw_sent w @ result_fragments kind corr stageID traceID (fst (reply_content (rs_status ?r) (rs_body ?r)))
      (snd (reply_content (rs_status ?r) (rs_body ?r))) (unat (inlineBudget (cw_client w)) - ModuleMessageHeaderLen)"
    using reply_all [OF assms(1-4)] by blast
  have "runtime_step client_ops (Some h) table (Draining, ?rt2, w) (if (None :: bus_error option) = None then Draining else Stopped None, ?rt3, w')"
    by (rule runtime_step.drain [where r = ?r and rs = "[]"])
      (use w'(1) assms(5-8,12) in \<open>simp_all add: finishModuleWork_def reply_then_def runHandler_ok\<close>)
  ultimately have "(runtime_step client_ops (Some h) table)\<^sup>*\<^sup>* (Draining, rt, w) (Draining, ?rt3, w')"
    by (simp add: rtranclp.rtrancl_into_rtrancl)
  moreover have "reply_outcome (rs_status ?r) (rs_body ?r) = reply_outcome status response"
    using assms(9,11) by (intro runHandler_reply_outcome) (auto simp: word_gt_0)
  ultimately show ?thesis using w'(2) by blast
qed

text \<open>
  A request whose frames are the next to be received is assembled, handled once, and answered.
\<close>

lemma request_is_answered:
  assumes "cw_serving dl w" and "cw_incoming w = evs @ rest"
    and "list_all2 event_matches (request_fragments kind corr stageID dl traceID request cap) evs"
    and "stage_of table kind = stageID" "stageID \<noteq> 0" "0 < cap" "length request \<le> 2 ^ 24"
    and "corr \<noteq> 0"
    and "map_of (jobs rt) corr = None" "map_of (assemblies rt) corr = None" "results rt = []"
    and "length (assemblies rt) < moduleMaxInFlight" "length (jobs rt) < moduleMaxInFlight"
    and "ModuleMessageHeaderLen < unat (inlineBudget (cw_client w))"
    and "h \<lparr>inv_StageID = stageID, inv_DeadlineNS = dl, inv_TraceID = traceID, inv_cancelled = Some (next_flag rt)\<rparr>
      False request (handler_state rt) = Some ((response, status), hs)"
  shows "\<exists>rt' w' s body. (runtime_step client_ops (Some h) table)\<^sup>*\<^sup>* (Draining, rt, w) (Draining, rt', w') \<and>
    rt' = rt\<lparr>next_flag := next_flag rt + 1, flags := (flags rt)(next_flag rt := False), handler_state := hs\<rparr> \<and>
    cw_sent w' = cw_sent w @ result_fragments kind corr stageID traceID (fst (reply_content s body))
      (snd (reply_content s body)) (unat (inlineBudget (cw_client w)) - ModuleMessageHeaderLen) \<and>
    reply_outcome s body = reply_outcome status response"
proof -
  obtain ps p where fs: "fragments cap request = map (\<lambda>q. (q, True)) ps @ [(p, False)]"
    using fragments_more by blast
  then have req: "request = concat ps @ p" using fragments_concat [of cap request] by (simp add: comp_def)
  have frames: "list_all2 event_matches (map (request_frame kind corr stageID dl traceID)
      (map (\<lambda>q. (q, True)) ps @ [(p, False)])) evs" using assms(3) by (simp only: request_fragments_def fs)
  have acc: "assembly_accepts rt kind corr stageID dl traceID []"
    using assms(10,12) by (simp add: assembly_accepts_def)
  have len: "length [] + length (concat ps) + length p \<le> 2 ^ 24" using assms(7) req by simp
  have some: "Some h \<noteq> None" by simp
  from servep.serve_parts_run [OF frames assms(4,5) some assms(9,13,11) acc len assms(1,2)] obtain w1 ev msg where
    run: "(runtime_step client_ops (Some h) table)\<^sup>*\<^sup>* (Draining, rt, w)
      (Draining, with_job corr (new_work ev stageID msg (next_flag rt)) request rt, w1)" and
    w1: "cw_serving dl w1" "cw_sent w1 = cw_sent w" and
    ev: "DeadlineNS msg = dl" "TraceID msg = traceID" "EventKind (Frame ev) = kind" "CorrelationID (Frame ev) = corr"
    unfolding req by auto
  let ?work = "new_work ev stageID msg (next_flag rt)"
  let ?rt = "with_job corr ?work request rt"
  have st: "cw_steady w1" using w1(1) by (simp add: cw_serving_def cw_listening_def)
  have same: "inlineBudget (cw_client w1) = inlineBudget (cw_client w)" using run_budget [OF run] by simp
  then have budget: "ModuleMessageHeaderLen < unat (inlineBudget (cw_client w1))" using assms(14) by simp
  have work: "wk_correlationID ?work = corr" "wk_eventKind ?work = kind" "inv_StageID (wk_invocation ?work) = stageID"
    "inv_TraceID (wk_invocation ?work) = traceID" "inv_DeadlineNS (wk_invocation ?work) = dl"
    "inv_cancelled (wk_invocation ?work) = Some (wk_cancelled ?work)"
    "wk_invocation ?work = \<lparr>inv_StageID = stageID, inv_DeadlineNS = dl, inv_TraceID = traceID, inv_cancelled = Some (next_flag rt)\<rparr>"
    using ev by (simp_all add: new_work_def)
  have rt: "\<not> flags ?rt (wk_cancelled ?work)" "results ?rt = []" "goroutines ?rt = goroutines rt @ [Starting ?work request]"
    "h (wk_invocation ?work) False request (handler_state ?rt) = Some ((response, status), hs)"
    using assms(11,15) by (simp_all add: with_job_def new_work_def ev)
  let ?cap = "unat (inlineBudget (cw_client w1)) - ModuleMessageHeaderLen"
  from finish_job [where h = h and gs = "goroutines rt" and request = request and table = table, OF st assms(5,8) budget work(1-6) rt] obtain w2 s body where
    r2: "(runtime_step client_ops (Some h) table)\<^sup>*\<^sup>* (Draining, ?rt, w1)
      (Draining, ?rt\<lparr>jobs := AList.delete corr (jobs ?rt), goroutines := goroutines rt, handler_state := hs\<rparr>, w2)" and
    sent: "cw_sent w2 = cw_sent w1 @ result_fragments kind corr stageID traceID (fst (reply_content s body))
      (snd (reply_content s body)) ?cap" and
    out: "reply_outcome s body = reply_outcome status response" by blast
  have final: "?rt\<lparr>jobs := AList.delete corr (jobs ?rt), goroutines := goroutines rt, handler_state := hs\<rparr> =
      rt\<lparr>next_flag := next_flag rt + 1, flags := (flags rt)(next_flag rt := False), handler_state := hs\<rparr>"
  proof -
    have "AList.delete corr (assemblies rt) = assemblies rt" using assms(10) by (simp add: map_of_eq_None_iff)
    moreover have "AList.delete corr (jobs rt @ [(corr, x)]) = jobs rt" for x
      using assms(9) by (auto simp: map_of_eq_None_iff AList.delete_eq filter_id_conv rev_image_eqI)
    ultimately show ?thesis by (intro runtime.equality) (simp_all add: with_job_def)
  qed
  show ?thesis
    using rtranclp_trans [OF run r2] sent w1(2) final out unfolding same
    by (intro exI [of _ w2] exI [of _ s] exI [of _ body] exI conjI) simp_all
qed

text \<open>A run of the serving loop is a run of the process.\<close>

lemma run_in_process:
  "(runtime_step client_ops (Handler config) table)\<^sup>*\<^sup>* s s' \<Longrightarrow>
    process_run env config (Running table s, k) (Running table s', k)"
  by (induction rule: rtranclp_induct) (auto intro: rtranclp.rtrancl_into_rtrancl process_step.serve)

end
