(* ===== verification/Diagnostics.thy ===== *)
theory Diagnostics
  imports Go_Net Wire
begin

text \<open>
  What the program says about failures: \<open>Result.String\<close> (\<open>wire.go\<close>), \<open>moduleDetail\<close> and the
  clock \<open>monotonicNowNS\<close> (\<open>module_runtime.go\<close>), \<open>ModuleCallStatusError.Error\<close>
  (\<open>module_caller.go\<close>). A detail is cut to 300 bytes, possibly inside a rune, and
  \<open>strings.ToValidUTF8\<close> with an empty replacement drops what is not well-formed.
\<close>

section \<open>The code\<close>

definition Result_String :: "wire_result \<Rightarrow> string" where
  "Result_String r =
    (case r of
       OK \<Rightarrow> ''OK''
     | ErrShort \<Rightarrow> ''ERR_SHORT''
     | ErrMagic \<Rightarrow> ''ERR_MAGIC''
     | ErrVersion \<Rightarrow> ''ERR_VERSION''
     | ErrFlags \<Rightarrow> ''ERR_FLAGS''
     | ErrPayloadLen \<Rightarrow> ''ERR_PAYLOAD_LEN''
     | ErrCorrelation \<Rightarrow> ''ERR_CORRELATION''
     | ErrReserved \<Rightarrow> ''ERR_RESERVED'')"

definition monotonicNowNS :: "(u64 \<times> u64) option \<Rightarrow> u64" where
  \<comment> \<open>the seconds and nanoseconds of \<open>clock_gettime\<close>, \<open>None\<close> when it fails\<close>
  "monotonicNowNS now = (case now of None \<Rightarrow> 0 | Some (Sec, Nsec) \<Rightarrow> Sec * 1000000000 + Nsec)"

definition status_error_text :: "u16 \<Rightarrow> string" where
  \<comment> \<open>\<open>(*ModuleCallStatusError).Error\<close>\<close>
  "status_error_text status = ''module call failed with status '' @ show_nat (unat status)"

fun drop_invalid :: "nat \<Rightarrow> string \<Rightarrow> string" where
  \<comment> \<open>\<open>skip\<close> bytes of a well-formed rune are still to come\<close>
  "drop_invalid skip [] = []"
| "drop_invalid 0 (c # s) =
    (if rune_width (c # s) = 1 \<and> \<not> ord c < 0x80 then drop_invalid 0 s
     else c # drop_invalid (rune_width (c # s) - 1) s)"
| "drop_invalid (Suc skip) (c # s) = c # drop_invalid skip s"

definition ToValidUTF8 :: "string \<Rightarrow> string" where
  \<comment> \<open>\<open>strings.ToValidUTF8(s, "")\<close>\<close>
  "ToValidUTF8 s = drop_invalid 0 s"

definition moduleDetail :: "byte list \<Rightarrow> string" where
  "moduleDetail response =
    (if length response = 0 then ''no detail''
     else if length response > 300 then ToValidUTF8 (to_string (take 300 response)) @ ''...''
     else ToValidUTF8 (to_string response))"

section \<open>Well-formed text\<close>

fun utf8_from :: "nat \<Rightarrow> string \<Rightarrow> bool" where
  "utf8_from skip [] = (skip = 0)"
| "utf8_from 0 (c # s) = ((ord c < 0x80 \<or> 1 < rune_width (c # s)) \<and> utf8_from (rune_width (c # s) - 1) s)"
| "utf8_from (Suc skip) (c # s) = utf8_from skip s"

abbreviation utf8 :: "string \<Rightarrow> bool" where
  "utf8 s \<equiv> utf8_from 0 s"   \<comment> \<open>every rune is well-formed\<close>

lemma rune_width_le: "rune_width s \<le> length s"
  by (cases s rule: decode_rune.cases) (auto simp: rune_width_def Let_def split: list.splits)

lemma rune_width_local:
  assumes "1 < rune_width s"
  shows "rune_width (take (rune_width s) s @ t) = rune_width s"
proof -
  obtain a u where s: "s = a # u" using assms by (cases s) (simp_all add: rune_width_def)
  consider "u = []" | b where "u = [b]" | b c where "u = [b, c]" | b c d v where "u = b # c # d # v"
    by (metis list.exhaust)
  then show ?thesis
    by cases (use assms s in \<open>simp_all add: rune_width_def Let_def split: if_splits\<close>)
qed

lemma drop_invalid_skip: "k \<le> length s \<Longrightarrow> drop_invalid k s = take k s @ drop_invalid 0 (drop k s)"
  by (induction k s rule: drop_invalid.induct) auto

lemma utf8_from_skip: "k \<le> length s \<Longrightarrow> utf8_from k s = utf8 (drop k s)"
  by (induction k s rule: utf8_from.induct) auto

lemma utf8_drop_invalid: "utf8 (drop_invalid 0 s)"
proof (induction s rule: length_induct)
  case (1 s)
  show ?case
  proof (cases s)
    case (Cons c u)
    let ?w = "rune_width (c # u)"
    consider "ord c < 0x80" | "\<not> ord c < 0x80" "?w = 1" | "1 < ?w"
      using rune_width_pos [of "c # u"] by (cases "?w = 1") auto
    then show ?thesis
    proof cases
      case 1
      then have "?w = 1" by (simp add: rune_width_def)
      then show ?thesis using 1 \<open>\<forall>m. _\<close> Cons by (simp add: rune_width_def)
    next
      case 2
      then show ?thesis using \<open>\<forall>m. _\<close> Cons by simp
    next
      case 3
      have le: "?w - 1 \<le> length u" using rune_width_le [of "c # u"] by simp
      let ?t = "drop_invalid 0 (drop (?w - 1) u)"
      have d: "drop_invalid 0 (c # u) = c # take (?w - 1) u @ ?t"
        using 3 drop_invalid_skip [OF le] by simp
      have "take ?w (c # u) = c # take (?w - 1) u" using 3 by (cases ?w) simp_all
      then have "rune_width (c # take (?w - 1) u @ ?t) = ?w"
        using rune_width_local [OF 3, of ?t] by (simp only: append_Cons)
      moreover have "utf8_from (?w - 1) (take (?w - 1) u @ ?t) = utf8 ?t"
        using le by (subst utf8_from_skip) simp_all
      moreover have "utf8 ?t" using \<open>\<forall>m. _\<close> Cons by simp
      ultimately show ?thesis unfolding Cons d using 3 by simp
    qed
  qed simp
qed

lemma length_drop_invalid: "length (drop_invalid k s) \<le> length s"
  by (induction k s rule: drop_invalid.induct) auto

lemma drop_invalid_utf8: "utf8_from k s \<Longrightarrow> drop_invalid k s = s"
  by (induction k s rule: drop_invalid.induct) auto

lemma utf8_ascii: "ascii s \<Longrightarrow> utf8 s"
  by (induction s) (simp_all add: rune_width_def)

lemma utf8_append: "utf8_from k s \<Longrightarrow> utf8 t \<Longrightarrow> utf8_from k (s @ t)"
proof (induction k s rule: utf8_from.induct)
  case (2 c s)
  show ?case
  proof (cases "ord c < 0x80")
    case True
    then show ?thesis using 2 by (simp add: rune_width_def)
  next
    case False
    let ?w = "rune_width (c # s)"
    have w: "1 < ?w" "?w \<le> length (c # s)" using 2(2) False rune_width_le [of "c # s"] by auto
    have "rune_width (c # s @ t) = ?w"
      using rune_width_local [OF w(1), of "drop ?w (c # s) @ t"]
      by (simp del: drop_Cons take_Cons flip: append_assoc)
    then show ?thesis using 2 w by simp
  qed
qed simp_all

text \<open>
  A detail in the log is short and well-formed, whatever the handler returned, and is the
  response itself when that was well-formed and short.
\<close>

lemma moduleDetail_printable:
  "utf8 (moduleDetail response)" "length (moduleDetail response) \<le> 303"
  "response \<noteq> [] \<Longrightarrow> length response \<le> 300 \<Longrightarrow> utf8 (to_string response) \<Longrightarrow> moduleDetail response = to_string response"
proof -
  have "utf8 (ToValidUTF8 s)" "length (ToValidUTF8 s) \<le> length s" for s
    unfolding ToValidUTF8_def by (rule utf8_drop_invalid length_drop_invalid)+
  note v = this
  have lits: "utf8 ''no detail''" "utf8 ''...''" by (rule utf8_ascii; simp)+
  show "utf8 (moduleDetail response)"
    using v(1) lits by (simp add: moduleDetail_def utf8_append)
  have "length (to_string bs) = length bs" for bs by (simp add: to_string_def)
  then show "length (moduleDetail response) \<le> 303"
    using v(2) [of "to_string response"] v(2) [of "to_string (take 300 response)"] by (simp add: moduleDetail_def)
  show "response \<noteq> [] \<Longrightarrow> length response \<le> 300 \<Longrightarrow> utf8 (to_string response) \<Longrightarrow> moduleDetail response = to_string response"
    by (simp add: moduleDetail_def ToValidUTF8_def drop_invalid_utf8)
qed

lemma Result_String_inject: "Result_String r = Result_String r' \<longleftrightarrow> r = r'"
  by (cases r; cases r') (simp_all add: Result_String_def)

lemma monotonicNowNS_exact:
  "unat Sec < 2 ^ 33 \<Longrightarrow> unat Nsec < 1000000000 \<Longrightarrow>
    unat (monotonicNowNS (Some (Sec, Nsec))) = unat Sec * 1000000000 + unat Nsec"
  by (simp add: monotonicNowNS_def unat_word_ariths)

end
