(* ===== verification/Spec2Isabelle.thy ===== *)
theory Spec2Isabelle
  imports Wire Module_Protocol Ring Region Client Module_System Diagnostics
begin

text \<open>
  A verification development for the \<open>sandbox\<close> module process: the Go client of a shared-memory
  bus (\<open>server-go/bus\<close>), the runtime that serves requests over it, and the module itself
  (\<open>server-go/modules/sandbox\<close>), which learns the apt packages a project installs and decides
  which proxied requests and addresses are safe.

  \<^bold>\<open>The program.\<close> A module process (\<open>runtime/main.go\<close>) validates its stage table, connects to the
  socket of a host, receives three descriptors and maps a control region, an arena and a
  queue pair. From then on all traffic goes through two single-producer single-consumer
  rings of fixed slots, each holding a 64-byte frame header and an inline payload. A request
  is cut into frames, each with an envelope; the serving loop assembles it, starts a
  goroutine for the handler of its stage, and sends the result back as frames. A caller
  sends such a request and waits for the frames of its correlation.

  \<^bold>\<open>Theories and sources.\<close>

    \<^item> \<open>Prelude\<close>: word types, errors (\<open>bus_error\<close> lists the error values of package \<open>bus\<close>),
      little-endian reads and writes on byte lists (\<open>mem_simps\<close>), slices, facts on words.

    \<^item> \<open>Wire\<close> (\<open>bus/wire.go\<close>): the frame header, \<open>Validate\<close>, \<open>Encode\<close>, \<open>Decode\<close>, \<open>CheckPlacement\<close>;
      the declarative \<open>frame_wf\<close>, round trips, the bounds of a placement.
      \<open>Module_Protocol\<close> (\<open>bus/module_protocol.go\<close>): the envelope and its round trip.

    \<^item> \<open>Ring\<close> (\<open>bus/ring.go\<close>): a view is a record, the shared bytes are passed explicitly.
      \<open>ring_abs\<close> is the queue of slots; attaching, pushing and popping refine a bounded list
      queue, across the wrap-around of the 64-bit counters.
      \<open>Region\<close> (\<open>bus/region.go\<close>): the two regions, their validation, and \<open>qpairBytes\<close>.

    \<^item> \<open>Client\<close> (\<open>bus/client.go\<close>): sending (\<open>emit\<close> and the operations built on it), receiving
      (\<open>Poll\<close>), \<open>Detach\<close>. \<open>client_view\<close> is the invariant of an attached client; \<open>inbox\<close> and
      \<open>outbox\<close> are what it has to read and has sent. \<open>None\<close> is a crash (a nil or unmapped region,
      a slice out of range).
      \<open>Bus_Attach\<close> (\<open>bus/client.go\<close>, \<open>bus/client_connect.go\<close>, \<open>connectModule\<close>): the handshake
      with every early return, over a record of open descriptors and live mappings; the
      retry loops; the heartbeat goroutine.

    \<^item> \<open>Bus_Ops\<close>: the Go interfaces \<open>moduleBus\<close> and \<open>callerBus\<close> as a record of operations, what
      their users rely on as the locales \<open>bus_port\<close>, \<open>fair_port\<close> and \<open>steady_port\<close>, and their
      interpretations on the real client with a host that takes slots while a loop waits.
      \<open>Module_Reply\<close> and \<open>Module_Runtime\<close> (\<open>bus/module_runtime.go\<close>): the fragmentation of
      results; assemblies, jobs, goroutines and the serving loop as the step relation
      \<open>runtime_step\<close> with the invariant \<open>rt_inv\<close>. \<open>Module_Caller\<close> (\<open>bus/module_caller.go\<close>): \<open>send\<close>,
      \<open>awaitReply\<close>, \<open>Call\<close>, and the locale \<open>event_source\<close>.

    \<^item> \<open>Go_Strings\<close>, \<open>Go_JSON\<close>, \<open>JSON_Roundtrip\<close>, \<open>Go_Net\<close>: what the module uses of the standard
      library (UTF-8, \<open>strings\<close>, \<open>encoding/json\<close>, \<open>net.ParseIP\<close>), on Go strings as byte strings.
      \<open>Proxy_Address\<close> and \<open>Proxy_Policy\<close> (\<open>proxy_policy.go\<close>), \<open>Apt_Parser\<close> and \<open>Learned_Store\<close>
      (\<open>sandbox.go\<close>), \<open>Module_Handlers\<close> (\<open>module.go\<close>): the decisions of the four stages, from the
      bytes of a request to the bytes of its response. The grammars these parsers are compared
      with use none of their functions: \<open>connect_line\<close> and \<open>absolute_line\<close> (\<open>decimal_port\<close>,
      \<open>host_text\<close>) for request lines, \<open>header_ok\<close> and \<open>header_survives\<close> for headers, \<open>spaced\<close>,
      \<open>drop_values\<close> and \<open>package_names\<close> for install commands.

    \<^item> \<open>Module_Process\<close> (\<open>RunModuleProcess\<close>, \<open>runtime/main.go\<close>): the life of a process as the step
      relation \<open>process_step\<close>, the stage table of the sandbox, the exit codes; \<open>ended_step\<close> is a
      step after the context has ended, and \<open>ending\<close> its invariant; the locale
      \<open>kept_port\<close> carries a property of the world through the whole serving loop.
      \<open>Module_System\<close>: the locale \<open>serving_port\<close>, its interpretation on the real client, and the
      runs of the serving loop over pending events. \<open>Diagnostics\<close>: texts and the clock.

  \<^bold>\<open>What the theorems show.\<close> The theorem below follows a call from the frames of its request to
  the value the caller gets. The properties of the parts are: equivalence with declarative
  specifications (header validation, ring attachment, request-line classification, head
  rewriting), the refinement of queues by rings, round trips (frames, results, the learned
  set through parser, store and JSON), invariants (client, serving loop, process), safety
  (no stripped header, no name outside the grammar, no torn store file, no leaked
  descriptor or mapping), termination and liveness of the loops that end, and, as theorems,
  the cases in which the code misbehaves.

  \<^bold>\<open>Bounds and loops.\<close> No definition uses fuel. Loops that may not end are partial functions
  with \<open>None\<close> for not returning, or step relations; for each there is a theorem that says when
  it returns. Words are kept at their width, and lengths that Go converts are converted.

  \<^bold>\<open>Environment.\<close> The outcomes of system calls, of file-system calls and of the clock, what the
  host writes, and the parsers of \<open>golang.org/x/sys/unix\<close> are arguments. The hypotheses on
  them are: the kernel hands out descriptors that are not in use and the parsers find them
  (\<open>rights_delivered\<close>, \<open>env_honest\<close>), a host takes slots again and again (\<open>host_fair\<close>), and,
  where a theorem says so, it neither restarts nor stops the process (\<open>cw_steady\<close>).

  \<^bold>\<open>Not modelled.\<close> Concurrent writes by the host in the middle of an operation (a payload is
  read as it is when \<open>Poll\<close> returns; between operations the host may write anything where
  \<open>host_acts\<close> or \<open>runtime_reach\<close> say so); accesses beyond the end of a mapped file; a handler
  that asks \<open>Cancelled\<close> more than once; mutexes (every operation of the store runs under
  one); intervals of timers; log output; nil contexts and nil receivers; \<open>NewModuleCaller\<close>,
  a nil check; the C adapters under \<open>src/\<close>, the tests and the documents.
\<close>

section \<open>The system\<close>

text \<open>
  C1. A call from end to end. When the frames of a request, as \<open>Call\<close> cuts it, are the next to
  be received by an idle module (an idle correlation, room for an assembly and a job), then
  there is a run of the polling loop over the real client that ends idle again, has called the
  handler exactly once, on the whole request with the stage, deadline and trace of the call,
  and has sent frames from which \<open>awaitReply\<close>, at any caller that receives them in order among
  other traffic, returns exactly what the handler answered: its body when the status is OK
  and the body is within the limit, otherwise the failure status.
\<close>

theorem call_is_answered:
  assumes "cw_serving dl w" and "cw_incoming w = evs @ rest"
    and "list_all2 event_matches (request_fragments kind corr stageID dl traceID request cap) evs"
    and "stage_of table kind = stageID" "stageID \<noteq> 0" "0 < cap" "length request \<le> 2 ^ 24"
    and "corr \<noteq> 0" "kind \<noteq> KindCapabilityAbsent" "kind \<noteq> KindError"
    and "map_of (jobs rt) corr = None" "map_of (assemblies rt) corr = None" "results rt = []"
    and "length (assemblies rt) < moduleMaxInFlight" "length (jobs rt) < moduleMaxInFlight"
    and "ModuleMessageHeaderLen < unat (inlineBudget (cw_client w))"
    and "h \<lparr>inv_StageID = stageID, inv_DeadlineNS = dl, inv_TraceID = traceID, inv_cancelled = Some (next_flag rt)\<rparr>
      False request (handler_state rt) = Some ((response, status), hs)"
  shows "\<exists>rt' w' out. (runtime_step client_ops (Some h) table)\<^sup>*\<^sup>* (Draining, rt, w) (Draining, rt', w') \<and>
    rt' = rt\<lparr>next_flag := next_flag rt + 1, flags := (flags rt)(next_flag rt := False), handler_state := hs\<rparr> \<and>
    cw_sent w' = cw_sent w @ out \<and>
    (\<forall>caller es later. cw_listening caller \<and> list_all2 event_matches out es \<and>
        filter (\<lambda>ev. CorrelationID (Frame ev) = corr) (cw_incoming caller) = es @ later \<longrightarrow>
      (\<exists>caller'. awaitReply client_ops ModuleMessageMaxBody kind corr None [] caller =
        Some (reply_outcome status response, caller')))"
proof -
  from request_is_answered [where h = h and request = request and rt = rt, OF assms(1-8,11-17)] obtain rt' w' s body where
    run: "(runtime_step client_ops (Some h) table)\<^sup>*\<^sup>* (Draining, rt, w) (Draining, rt', w')"
      "rt' = rt\<lparr>next_flag := next_flag rt + 1, flags := (flags rt)(next_flag rt := False), handler_state := hs\<rparr>" and
    sent: "cw_sent w' = cw_sent w @ result_fragments kind corr stageID traceID (fst (reply_content s body))
      (snd (reply_content s body)) (unat (inlineBudget (cw_client w)) - ModuleMessageHeaderLen)" and
    out: "reply_outcome s body = reply_outcome status response" by blast
  have cap: "0 < unat (inlineBudget (cw_client w)) - ModuleMessageHeaderLen" using assms(16) by simp
  show ?thesis
    using run sent await_result [OF _ assms(9,10,5) cap, of _ corr _ _ traceID s body, unfolded out]
    by (intro exI [of _ rt'] exI [of _ w'] exI conjI) auto
qed

text \<open>The sandbox module is asked about an address.\<close>

theorem call_is_answered_witness:
  "\<exists>w rt' w' out. (runtime_step client_ops (Some (NewHandler id None)) (projr (validateModuleConfig (main_config (NewHandler id None) ''/run/bus''))))\<^sup>*\<^sup>*
      (Draining, initial_runtime (Map.empty, \<lambda>_. sample_os), w) (Draining, rt', w') \<and> cw_sent w' = cw_sent w @ out \<and>
    (\<forall>caller es later. cw_listening caller \<and> list_all2 event_matches out es \<and>
        filter (\<lambda>ev. CorrelationID (Frame ev) = 7) (cw_incoming caller) = es @ later \<longrightarrow>
      (\<exists>caller'. awaitReply client_ops ModuleMessageMaxBody EventProxyAddress 7 None [] caller =
        Some (reply_outcome (snd (handleProxyAddress False (sample_request [(''ip'', JStr ''10.0.0.1'')])))
          (fst (handleProxyAddress False (sample_request [(''ip'', JStr ''10.0.0.1'')]))), caller')))"
proof -
  let ?q = "sample_request [(''ip'', JStr ''10.0.0.1'')]"
  let ?p = "message_bytes (invoke_message 4 0 9 (length ?q)) @ ?q"
  let ?f = "emit_frame (empty_client 128 40) FRequest EventProxyAddress 7 ?p"
  let ?s = "sent_slot ?f ?p (replicate 128 0)"
  let ?h = "NewHandler id None" and ?rt = "initial_runtime (Map.empty, \<lambda>_. sample_os)"
  let ?table = "projr (validateModuleConfig (main_config ?h ''/run/bus''))"
  note ev = slot_events_sent [of FRequest 7 ?p "replicate 128 0" 128 "empty_client 128 40" EventProxyAddress]
  have q: "length ?q = 17" by code_simp
  have flags: "send_flags FRequest 7 ?p" by (simp add: send_flags_def)
  have "length ?s = unat (128 :: u32)" using q by (simp add: length_sent_slot)
  from world_with_inbox [of 128 48, OF _ _ _ this] ev(2,3) flags q obtain w where
    w: "cw_listening w" "inbox (cw_client w) = [?s]" "c_slotSize (cw_client w) = 128" "inlineBudget (cw_client w) = 48" by auto
  have inc: "cw_incoming w = [\<lparr>Frame = ?f, Payload = ?p\<rparr>] @ []"
    using ev(1) flags w q by (simp add: cw_incoming_def)
  have table: "stage_of ?table EventProxyAddress = 4" by (simp add: main_stage_table stage_of_def)
  have frags: "fragments 64 ?q = [(?q, False)]" using q by (simp add: fragments.simps)
  obtain response status where a: "handleProxyAddress False ?q = (response, status)" by fastforce
  have "list_all2 event_matches (request_fragments EventProxyAddress 7 4 0 9 ?q 64) [\<lparr>Frame = ?f, Payload = ?p\<rparr>]"
    using q by (simp add: request_fragments_def frags request_frame_def with_header_def event_matches_def outgoing_def
        emit_frame_fields request_flags_def)
  from call_is_answered [OF _ inc this table, where h = ?h and rt = ?rt and response = response and status = status
      and hs = "handler_state ?rt"]
  show ?thesis
    using w a q by (simp add: cw_serving_def initial_runtime_def NewHandler_def) blast
qed

end
